(* ===== verification/Prelude.thy ===== *)
theory Prelude
  imports Main "HOL-Library.Word"
begin

text \<open>
  Shared vocabulary of the development: the machine integer types of the C++ code, the
  result type of kernel code that can fail, the sequencing operator on it, and the generic
  facts on words and lists that several components use.
\<close>

unbundle bit_operations_syntax

section \<open>Machine integers\<close>

type_synonym u8 = "8 word"
type_synonym u16 = "16 word"
type_synonym u32 = "32 word"
type_synonym i32 = "32 word"
type_synonym u64 = "64 word"

section \<open>Results of kernel code\<close>

text \<open>
  Kernel code ends in one of these ways besides returning: it calls
  \<^verbatim>\<open>Utils::HaltCatchFire\<close>, it accesses memory outside the object it was given, it goes
  through a null pointer, it divides by zero, or a loop of it never ends.
\<close>

datatype kerror = Halted | OutOfBounds | NullPointer | DivideError | Diverges

type_synonym 'a result = "kerror + 'a"

definition bindE :: "'a result \<Rightarrow> ('a \<Rightarrow> 'b result) \<Rightarrow> 'b result" where
  "bindE m f = (case m of Inl e \<Rightarrow> Inl e | Inr x \<Rightarrow> f x)"

lemma bindE_simps [simp]:
  "bindE (Inl e) f = Inl e"
  "bindE (Inr x) f = f x"
  by (simp_all add: bindE_def)

lemma bindE_cong [fundef_cong]:
  "m = m' \<Longrightarrow> (\<And>x. m' = Inr x \<Longrightarrow> f x = f' x) \<Longrightarrow> bindE m f = bindE m' f'"
  by (cases m') (simp_all add: bindE_def)

lemma bindE_eq_Inr: "bindE m f = Inr y \<longleftrightarrow> (\<exists>x. m = Inr x \<and> f x = Inr y)"
  by (cases m) simp_all

lemma bindE_eq_Inl: "bindE m f = Inl e \<longleftrightarrow> m = Inl e \<or> (\<exists>x. m = Inr x \<and> f x = Inl e)"
  by (cases m) simp_all

lemma bindE_assoc: "bindE (bindE m f) g = bindE m (\<lambda>x. bindE (f x) g)"
  by (cases m) simp_all

section \<open>Collections of facts\<close>

text \<open>
  \<open>unat_norm\<close> turns word arithmetic without overflow into \<open>nat\<close> arithmetic.
\<close>

named_theorems unat_norm

lemma unat_less_2p: "unat (a::'a::len word) < 2 ^ LENGTH('a)"
  by (rule unsigned_less)

lemma unat_plus1 [unat_norm]: "(i::'a::len word) < j \<Longrightarrow> unat (i + 1) = Suc (unat i)"
proof -
  assume "i < j"
  then have "unat i < unat j" by (simp add: word_less_nat_alt)
  then have "unat i + 1 < 2 ^ LENGTH('a)"
    using unat_less_2p [of j] by linarith
  then show ?thesis by (simp add: unat_word_ariths)
qed

lemma unat_minus_1_nonzero: "(x::'a::len word) \<noteq> 0 \<Longrightarrow> unat x = Suc (unat (x - 1))"
  by (metis Suc_pred' unat_gt_0 unat_minus_one One_nat_def)

lemma unat_minus_one_word: "unat (- 1 :: 'a::len word) = 2 ^ LENGTH('a) - 1"
  by (simp add: unsigned_minus_1_eq_mask mask_eq_exp_minus_1)

lemma unat_add_nowrap [unat_norm]:
  "unat (a::'a::len word) + unat b < 2 ^ LENGTH('a) \<Longrightarrow> unat (a + b) = unat a + unat b"
  by (simp add: unat_word_ariths)

lemma unat_add_mono:
  assumes "(a::'a::len word) \<le> a + b"
  shows "unat (a + b) = unat a + unat b"
proof (rule unat_add_nowrap, rule ccontr)
  assume *: "\<not> unat a + unat b < 2 ^ LENGTH('a)"
  have "unat a + unat b - 2 ^ LENGTH('a) < 2 ^ LENGTH('a)"
    using unat_less_2p [of a] unat_less_2p [of b] by linarith
  then have "unat (a + b) = unat a + unat b - 2 ^ LENGTH('a)"
    using * by (simp add: unat_word_ariths mod_if)
  moreover have "unat a \<le> unat (a + b)"
    using assms by (simp add: word_le_nat_alt)
  ultimately show False
    using unat_less_2p [of b] * by linarith
qed

lemma unat_sub_nowrap [unat_norm]:
  "unat (b::'a::len word) \<le> unat a \<Longrightarrow> unat (a - b) = unat a - unat b"
  by (simp add: unat_sub word_le_nat_alt)

text \<open>A loop counter that steps by \<open>d\<close> and has not wrapped comes closer to its bound.\<close>

lemma unat_step_less:
  assumes "(i::'a::len word) < n" "\<not> i + d < i" "d \<noteq> 0"
  shows "unat n - unat (i + d) < unat n - unat i"
proof -
  have "unat (i + d) = unat i + unat d" using assms(2) by (simp add: unat_add_mono not_less)
  moreover have "0 < unat d" using assms(3) by (simp add: unat_gt_0)
  moreover have "unat i < unat n" using assms(1) by (simp add: word_less_nat_alt)
  ultimately show ?thesis by linarith
qed

lemma unat_less_u64: "unat (a::u64) < 18446744073709551616"
  using unat_less_2p [of a] by simp

lemma unat_less_u32: "unat (a::u32) < 4294967296"
  using unat_less_2p [of a] by simp

lemma unat_ucast_up: "unat (ucast (w :: u32) :: u64) = unat w"
proof -
  have "unat w < 2 ^ 64" using unat_less_u32 [of w] by simp
  then show ?thesis by (simp add: unsigned_ucast_eq take_bit_nat_eq_self_iff)
qed

lemma unat_less_u8: "unat (a::u8) < 256"
  using unat_less_2p [of a] by simp

lemma unat_ucast8: "unat (ucast (w :: u8) :: u64) = unat w"
proof -
  have "unat w < 2 ^ 64" using unat_less_u8 [of w] by simp
  then show ?thesis by (simp add: unsigned_ucast_eq take_bit_nat_eq_self_iff)
qed

lemma unat_ucast_down: "unat (w :: u64) < 2 ^ 32 \<Longrightarrow> unat (ucast w :: u32) = unat w"
  by (simp add: unsigned_ucast_eq take_bit_nat_eq_self_iff)

lemma unat_scast_up:
  assumes "unat (w :: u32) < 2 ^ 31"
  shows "unat (scast w :: u64) = unat w"
proof -
  have "unat w < 2147483648" using assms by simp
  then have "int (unat w) < int 2147483648" by (simp only: of_nat_less_iff)
  then have "int (unat w) < 2147483648" by (simp only: of_nat_numeral)
  then have w: "0 \<le> uint w" "uint w < 2147483648" by (simp_all only: uint_nat [symmetric] uint_ge_0)
  have "sint w = uint w"
    unfolding sint_uint using w order_trans [OF _ w(1), of "- 2147483648"]
    by (intro signed_take_bit_int_eq_self) simp_all
  then have "(scast w :: u64) = ucast w"
    by (simp only: scast_eq ucast_eq)
  then show ?thesis by (simp only: unat_ucast_up)
qed

end
