(* ===== verification/Memory.thy ===== *)
theory Memory
  imports Prelude
begin

text \<open>
  Byte-addressed memory and the memory routines of \<^verbatim>\<open>src/src/include/util.h\<close>
  (\<^verbatim>\<open>memset\<close>, \<^verbatim>\<open>memcpy\<close>), with little-endian 64-bit loads and stores as the x86-64
  target performs them. The kernel reaches physical memory through the higher-half direct
  map: the virtual address \<open>offset + p\<close> names the physical byte \<open>p\<close>. The model addresses
  that byte by \<open>p\<close>.
\<close>

type_synonym mem = "u64 \<Rightarrow> u8"

section \<open>Loads and stores\<close>

definition ld64 :: "mem \<Rightarrow> u64 \<Rightarrow> u64" where
  "ld64 m a =
     ucast (m a) OR push_bit 8 (ucast (m (a + 1))) OR push_bit 16 (ucast (m (a + 2)))
     OR push_bit 24 (ucast (m (a + 3))) OR push_bit 32 (ucast (m (a + 4)))
     OR push_bit 40 (ucast (m (a + 5))) OR push_bit 48 (ucast (m (a + 6)))
     OR push_bit 56 (ucast (m (a + 7)))"

definition st64 :: "mem \<Rightarrow> u64 \<Rightarrow> u64 \<Rightarrow> mem" where
  "st64 m a v = (\<lambda>x. if x - a < 8 then ucast (drop_bit (8 * unat (x - a)) v) else m x)"

lemma st64_other: "8 \<le> unat (x - a) \<Longrightarrow> st64 m a v x = m x"
  by (simp add: st64_def word_less_nat_alt)

lemma ld64_cong: "(\<And>k. k < 8 \<Longrightarrow> m (a + k) = m' (a + k)) \<Longrightarrow> ld64 m a = ld64 m' a"
proof -
  assume eq: "\<And>k. k < 8 \<Longrightarrow> m (a + k) = m' (a + k)"
  have "m a = m' a" using eq [of 0] by simp
  then show ?thesis
    using eq [of 1] eq [of 2] eq [of 3] eq [of 4] eq [of 5] eq [of 6] eq [of 7]
    by (simp add: ld64_def)
qed

lemma st64_bytes:
  "st64 m a v a = ucast v"
  "st64 m a v (a + 1) = ucast (drop_bit 8 v)"
  "st64 m a v (a + 2) = ucast (drop_bit 16 v)"
  "st64 m a v (a + 3) = ucast (drop_bit 24 v)"
  "st64 m a v (a + 4) = ucast (drop_bit 32 v)"
  "st64 m a v (a + 5) = ucast (drop_bit 40 v)"
  "st64 m a v (a + 6) = ucast (drop_bit 48 v)"
  "st64 m a v (a + 7) = ucast (drop_bit 56 v)"
  by (simp_all add: st64_def)

lemma ld64_st64: "ld64 (st64 m a v) a = v"
proof (rule bit_word_eqI)
  fix n assume n: "n < LENGTH(64)"
  then consider "n < 8" | "8 \<le> n" "n < 16" | "16 \<le> n" "n < 24" | "24 \<le> n" "n < 32"
    | "32 \<le> n" "n < 40" | "40 \<le> n" "n < 48" | "48 \<le> n" "n < 56" | "56 \<le> n" "n < 64"
    by (simp only: len_num1 len_bit0) linarith
  then show "bit (ld64 (st64 m a v) a) n \<longleftrightarrow> bit v n"
    unfolding ld64_def st64_bytes
    by cases (simp_all add: bit_simps less_diff_conv2)
qed

lemma ld64_zero: "(\<And>k. k < 8 \<Longrightarrow> m (a + k) = 0) \<Longrightarrow> ld64 m a = 0"
proof -
  assume "\<And>k. k < 8 \<Longrightarrow> m (a + k) = 0"
  then have "ld64 m a = ld64 (\<lambda>_. 0) a" by (intro ld64_cong) simp
  then show ?thesis by (simp add: ld64_def)
qed

lemma ld64_st64_other:
  assumes "8 \<le> unat (a - b)" and "8 \<le> unat (b - a)"
  shows "ld64 (st64 m b v) a = ld64 m a"
proof (rule ld64_cong)
  fix k :: u64 assume k: "k < 8"
  have "8 \<le> unat (a + k - b)"
  proof (rule ccontr)
    assume "\<not> 8 \<le> unat (a + k - b)"
    then have d: "unat (a + k - b) < 8" and k8: "unat k < 8"
      using k by (simp_all add: word_less_nat_alt)
    show False
    proof (cases "unat k \<le> unat (a + k - b)")
      case True
      have "unat (a - b) = unat (a + k - b - k)" by simp
      also have "\<dots> = unat (a + k - b) - unat k" by (rule unat_sub_nowrap [OF True])
      finally show False using assms(1) d by simp
    next
      case False
      have "unat (b - a) = unat (k - (a + k - b))" by simp
      also have "\<dots> = unat k - unat (a + k - b)" by (rule unat_sub_nowrap) (use False in simp)
      finally show False using assms(2) k8 by simp
    qed
  qed
  then show "st64 m b v (a + k) = m (a + k)" by (rule st64_other)
qed

section \<open>memset and memcpy\<close>

primrec memset :: "mem \<Rightarrow> u64 \<Rightarrow> u8 \<Rightarrow> nat \<Rightarrow> mem" where
  "memset m ptr val 0 = m"
| "memset m ptr val (Suc len) = memset (m(ptr := val)) (ptr + 1) val len"

primrec memcpy :: "mem \<Rightarrow> u64 \<Rightarrow> u64 \<Rightarrow> nat \<Rightarrow> mem" where
  "memcpy m d s 0 = m"
| "memcpy m d s (Suc len) = memcpy (m(d := m s)) (d + 1) (s + 1) len"

lemma offset_cases:
  fixes x p :: u64
  shows "unat (x - p) < Suc n \<longleftrightarrow> x = p \<or> (x \<noteq> p \<and> unat (x - (p + 1)) < n)"
proof (cases "x = p")
  case False
  then have "x - p \<noteq> 0" by simp
  then have "unat (x - p) = Suc (unat (x - p - 1))"
    by (rule unat_minus_1_nonzero)
  then have "unat (x - p) = Suc (unat (x - (p + 1)))"
    by (simp only: diff_diff_eq)
  with False show ?thesis by simp
qed simp

lemma memset_apply:
  "len \<le> 2 ^ 64 \<Longrightarrow> memset m ptr val len x = (if unat (x - ptr) < len then val else m x)"
proof (induction len arbitrary: m ptr)
  case 0
  then show ?case by simp
next
  case (Suc len)
  have "x = ptr \<Longrightarrow> \<not> unat (x - (ptr + 1)) < len"
  proof -
    assume "x = ptr"
    then have "unat (x - (ptr + 1)) = 2 ^ 64 - 1" by (simp add: unat_minus_one_word)
    with Suc.prems show ?thesis by simp
  qed
  with Suc show ?case
    using offset_cases [of x ptr len] by auto
qed

lemma memcpy_apply:
  assumes "len \<le> 2 ^ 64"
    and "\<And>j k. j < len \<Longrightarrow> k < j \<Longrightarrow> s + of_nat j \<noteq> d + of_nat k"
  shows "memcpy m d s len x = (if unat (x - d) < len then m (s + (x - d)) else m x)"
  using assms
proof (induction len arbitrary: m d s)
  case 0
  then show ?case by simp
next
  case (Suc len)
  have IH: "memcpy (m(d := m s)) (d + 1) (s + 1) len x
     = (if unat (x - (d + 1)) < len then (m(d := m s)) (s + 1 + (x - (d + 1))) else (m(d := m s)) x)"
  proof (rule Suc.IH)
    show "len \<le> 2 ^ 64" using Suc.prems(1) by simp
    fix j k assume "j < len" "k < j"
    then have "s + of_nat (Suc j) \<noteq> d + of_nat (Suc k)"
      by (intro Suc.prems(2)) auto
    then show "s + 1 + of_nat j \<noteq> d + 1 + of_nat k" by (simp add: algebra_simps)
  qed
  have eq: "s + 1 + (x - (d + 1)) = s + (x - d)" by simp
  have x0: "x = d \<Longrightarrow> \<not> unat (x - (d + 1)) < len"
    using Suc.prems(1) by (simp add: unat_minus_one_word)
  have src: "s + (x - d) \<noteq> d" if "unat (x - (d + 1)) < len" "x \<noteq> d"
  proof -
    have "unat (x - d) < Suc len" and "0 < unat (x - d)"
      using that offset_cases [of x d len] by (auto simp: unat_gt_0)
    then have "s + of_nat (unat (x - d)) \<noteq> d + of_nat 0"
      by (intro Suc.prems(2)) auto
    then show ?thesis by simp
  qed
  show ?case
    using IH eq x0 src offset_cases [of x d len] by auto
qed

definition ld16 :: "mem \<Rightarrow> u64 \<Rightarrow> u16" where
  "ld16 m a = ucast (m a) OR push_bit 8 (ucast (m (a + 1)))"

definition ld32 :: "mem \<Rightarrow> u64 \<Rightarrow> u32" where
  "ld32 m a = ucast (m a) OR push_bit 8 (ucast (m (a + 1))) OR push_bit 16 (ucast (m (a + 2)))
     OR push_bit 24 (ucast (m (a + 3)))"

text \<open>A load depends on its own bytes only.\<close>

lemma ld32_cong: "(\<And>k. k < 4 \<Longrightarrow> m (a + of_nat k) = m' (a + of_nat k)) \<Longrightarrow> ld32 m a = ld32 m' a"
proof -
  assume *: "\<And>k. k < 4 \<Longrightarrow> m (a + of_nat k) = m' (a + of_nat k)"
  from * [of 0] * [of 1] * [of 2] * [of 3] show ?thesis by (simp add: ld32_def)
qed

primrec store_bytes :: "mem \<Rightarrow> u64 \<Rightarrow> u8 list \<Rightarrow> mem" where
  "store_bytes m a [] = m"
| "store_bytes m a (b # bs) = store_bytes (m(a := b)) (a + 1) bs"

lemma store_bytes_apply:
  assumes "length bs \<le> 2 ^ 64"
  shows "store_bytes m a bs x = (if unat (x - a) < length bs then bs ! unat (x - a) else m x)"
  using assms
proof (induction bs arbitrary: m a)
  case (Cons b bs)
  have z: "\<not> unat (a - (a + 1)) < length bs" using Cons.prems by (simp add: unat_minus_one_word)
  show ?case
  proof (cases "x = a")
    case True
    then show ?thesis using Cons z by simp
  next
    case False
    then have "x - a \<noteq> 0" by simp
    then have "unat (x - a) = Suc (unat (x - a - 1))" by (rule unat_minus_1_nonzero)
    then have "unat (x - a) = Suc (unat (x - (a + 1)))" by (simp only: diff_diff_eq)
    then show ?thesis using Cons False by simp
  qed
qed simp

end
