(* ===== verification/Pmm.thy ===== *)
theory Pmm
  imports Memory
begin

text \<open>
  The physical page allocator, \<^verbatim>\<open>src/src/mm/pmm.cpp\<close> and the alignment macros of
  \<^verbatim>\<open>src/src/include/mm/pmm.h\<close>: a bitmap with one bit per 4 KiB page (set means used), a
  next-fit cursor \<open>lastI\<close>, and counters of used and free memory. The file-scope variables
  of the source are the record \<open>phys\<close>; \<open>bitmap\<close> is the memory that
  \<^verbatim>\<open>bitmap.buffer\<close> points to, an access past its end is \<open>OutOfBounds\<close>, and \<open>ram\<close> is the
  physical memory that \<^verbatim>\<open>alloc\<close> clears.
\<close>

section \<open>Alignment macros\<close>

definition DIV_ROUNDUP :: "u64 \<Rightarrow> u64 \<Rightarrow> u64" where
  "DIV_ROUNDUP A B = (A + (B - 1)) div B"

definition ALIGN_UP :: "u64 \<Rightarrow> u64 \<Rightarrow> u64" where
  "ALIGN_UP A B = DIV_ROUNDUP A B * B"

definition ALIGN_DOWN :: "u64 \<Rightarrow> u64 \<Rightarrow> u64" where
  "ALIGN_DOWN A B = (A div B) * B"

section \<open>State\<close>

record phys =
  bitmap :: "u8 list"
  bitmap_at :: u64
  lastI :: u64
  highest_addr :: u64
  usedRam :: u64
  freeRam :: u64
  ram :: mem

record mmap_entry =
  mm_base :: u64
  mm_length :: u64
  mm_type :: u64

definition LIMINE_MEMMAP_USABLE :: u64 where
  "LIMINE_MEMMAP_USABLE = 0"

definition LIMINE_MEMMAP_FRAMEBUFFER :: u64 where
  "LIMINE_MEMMAP_FRAMEBUFFER = 7"

section \<open>The bitmap\<close>

definition Bitmap_Set :: "u8 list \<Rightarrow> u64 \<Rightarrow> bool \<Rightarrow> u8 list result" where
  "Bitmap_Set buffer index value =
     (let bytei = unat (index div 8);
          biti = unat (index mod 8);
          bitindexer = drop_bit biti (0b10000000 :: u8)
      in if bytei < length buffer then
           let cleared = buffer ! bytei AND NOT bitindexer
           in Inr (buffer[bytei := (if value then cleared OR bitindexer else cleared)])
         else Inl OutOfBounds)"

definition Bitmap_Get :: "u8 list \<Rightarrow> u64 \<Rightarrow> bool result" where
  "Bitmap_Get buffer index =
     (let bytei = unat (index div 8);
          biti = unat (index mod 8);
          bitindexer = drop_bit biti (0b10000000 :: u8)
      in if bytei < length buffer
         then Inr (buffer ! bytei AND bitindexer \<noteq> 0)
         else Inl OutOfBounds)"

text \<open>
  The loop \<^verbatim>\<open>for (i = start; i < stop; i++) bitmap.Set(i, value)\<close>, which the source writes
  in \<^verbatim>\<open>inner_alloc\<close> (value true) and in \<^verbatim>\<open>free\<close> (value 0).
\<close>

function Bitmap_SetRange :: "u8 list \<Rightarrow> u64 \<Rightarrow> u64 \<Rightarrow> bool \<Rightarrow> u8 list result" where
  "Bitmap_SetRange buffer i stop value =
     (if i < stop
      then bindE (Bitmap_Set buffer i value)
             (\<lambda>buffer'. Bitmap_SetRange buffer' (i + 1) stop value)
      else Inr buffer)"
  by pat_completeness auto
termination
  by (relation "measure (\<lambda>(buffer, i, stop, value). unat stop - unat i)")
    (auto simp: unat_plus1 word_less_nat_alt)

declare Bitmap_SetRange.simps [simp del]

section \<open>Allocation\<close>

text \<open>
  \<^verbatim>\<open>inner_alloc\<close>: scan from \<open>lastI\<close> (here \<open>i\<close>) up to \<open>limit\<close>, counting free pages
  in a row in \<open>p\<close>. The result is the returned address (0 is \<^verbatim>\<open>nullptr\<close>), the bitmap and
  the new cursor.
\<close>

function inner_alloc_loop ::
  "u64 \<Rightarrow> u64 \<Rightarrow> u8 list \<Rightarrow> u64 \<Rightarrow> u64 \<Rightarrow> (u64 \<times> u8 list \<times> u64) result" where
  "inner_alloc_loop count limit buffer p i =
     (if i < limit
      then bindE (Bitmap_Get buffer i)
             (\<lambda>is_used.
                if \<not> is_used then
                  if p + 1 = count then
                    let page = i + 1 - count
                    in bindE (Bitmap_SetRange buffer page (i + 1) True)
                         (\<lambda>buffer'. Inr (page * 4096, buffer', i + 1))
                  else inner_alloc_loop count limit buffer (p + 1) (i + 1)
                else inner_alloc_loop count limit buffer 0 (i + 1))
      else Inr (0, buffer, i))"
  by pat_completeness auto
termination
  by (relation "measure (\<lambda>(count, limit, buffer, p, i). unat limit - unat i)")
    (auto simp: unat_plus1 word_less_nat_alt)

declare inner_alloc_loop.simps [simp del]

definition inner_alloc :: "phys \<Rightarrow> u64 \<Rightarrow> u64 \<Rightarrow> (u64 \<times> phys) result" where
  "inner_alloc s count limit =
     bindE (inner_alloc_loop count limit (bitmap s) 0 (lastI s))
       (\<lambda>(ret, buffer, i). Inr (ret, s\<lparr>bitmap := buffer, lastI := i\<rparr>))"

definition PhysicalMemory_alloc :: "phys \<Rightarrow> u64 \<Rightarrow> (u64 \<times> phys) result" where
  "PhysicalMemory_alloc s sz =
     (let i = lastI s in
      bindE (inner_alloc s sz (highest_addr s div 0x1000))
        (\<lambda>(ret, s1).
           if ret = 0 then
             bindE (inner_alloc (s1\<lparr>lastI := 0\<rparr>) sz i)
               (\<lambda>(ret, s2).
                  if ret = 0 then Inl Halted
                  else Inr (ret, s2\<lparr>ram := memset (ram s2) ret 0 (unat (sz * 4096)),
                                    usedRam := usedRam s2 + sz * 0x1000,
                                    freeRam := freeRam s2 - sz * 0x1000\<rparr>))
           else Inr (ret, s1)))"

definition PhysicalMemory_free :: "phys \<Rightarrow> u64 \<Rightarrow> u64 \<Rightarrow> phys result" where
  "PhysicalMemory_free s ptr sz =
     (let page = ptr div 0x1000 in
      bindE (Bitmap_SetRange (bitmap s) page (page + sz) False)
        (\<lambda>buffer. Inr (s\<lparr>bitmap := buffer,
                         lastI := (if lastI s > page then page else lastI s),
                         usedRam := usedRam s - sz * 0x1000,
                         freeRam := freeRam s + sz * 0x1000\<rparr>)))"

section \<open>Initialization from the boot loader's memory map\<close>

text \<open>First loop: total usable memory and the end of the highest usable region.\<close>

fun scan_usable :: "mmap_entry list \<Rightarrow> u64 \<Rightarrow> u64 \<Rightarrow> u64 \<times> u64" where
  "scan_usable [] free highest = (free, highest)"
| "scan_usable (e # es) free highest =
     (if mm_type e = LIMINE_MEMMAP_USABLE then
        let top = mm_base e + mm_length e
        in scan_usable es (free + mm_length e) (if top > highest then top else highest)
      else scan_usable es free highest)"

text \<open>
  Second loop: the first usable region that holds the bitmap gives it up. The result is
  the memory map as changed, and the bitmap's base when one was placed.
\<close>

fun place_bitmap :: "mmap_entry list \<Rightarrow> u64 \<Rightarrow> mmap_entry list \<times> u64 option" where
  "place_bitmap [] bitmapSize = ([], None)"
| "place_bitmap (e # es) bitmapSize =
     (if mm_type e \<noteq> LIMINE_MEMMAP_USABLE \<or> \<not> mm_length e \<ge> bitmapSize then
        let (es', at) = place_bitmap es bitmapSize in (e # es', at)
      else (e\<lparr>mm_length := mm_length e - bitmapSize, mm_base := mm_base e + bitmapSize\<rparr> # es,
            Some (mm_base e)))"

text \<open>
  Third loop, for one region. The counter \<open>t\<close> steps by 4096 from 0; when it wraps it starts
  again at 0 and the source loops for ever.
\<close>

function mark_region :: "u8 list \<Rightarrow> u64 \<Rightarrow> u64 \<Rightarrow> u64 \<Rightarrow> u8 list result" where
  "mark_region buffer b len t =
     (if t < len
      then bindE (Bitmap_Set buffer ((b + t) div 4096) False)
             (\<lambda>buffer'. if t + 4096 < t then Inl Diverges
                        else mark_region buffer' b len (t + 4096))
      else Inr buffer)"
  by pat_completeness auto
termination
proof (relation "measure (\<lambda>(buffer, b, len, t). unat len - unat t)")
  fix buffer :: "u8 list" and b len t :: u64 and x
  assume "t < len" and "\<not> t + 4096 < t"
  then show "((x, b, len, t + 4096), buffer, b, len, t)
      \<in> measure (\<lambda>(buffer, b, len, t). unat len - unat t)"
    using unat_step_less [of t len 4096] by simp
qed simp

declare mark_region.simps [simp del]

fun mark_usable :: "u8 list \<Rightarrow> mmap_entry list \<Rightarrow> u8 list result" where
  "mark_usable buffer [] = Inr buffer"
| "mark_usable buffer (e # es) =
     (if mm_type e \<noteq> LIMINE_MEMMAP_USABLE then mark_usable buffer es
      else bindE (mark_region buffer (mm_base e) (mm_length e) 0)
             (\<lambda>buffer'. mark_usable buffer' es))"

text \<open>
  The counters start at 0, as the static variables do; \<^verbatim>\<open>bitmap.buffer\<close> stays null when no
  region is large enough, and then the third loop writes through it.
\<close>

definition bitmap_size :: "u64 \<Rightarrow> u64" where
  "bitmap_size highest = ALIGN_UP ((highest div 4096) div 8) 4096"

definition PhysicalMemory_Initialize ::
  "mem \<Rightarrow> mmap_entry list \<Rightarrow> (phys \<times> mmap_entry list) result" where
  "PhysicalMemory_Initialize m entries =
     (let (free, highest) = scan_usable entries 0 0;
          bitmapSize = bitmap_size highest
      in case place_bitmap entries bitmapSize of
           (entries', Some at) \<Rightarrow>
             bindE (mark_usable (replicate (unat bitmapSize) 0xFF) entries')
               (\<lambda>buffer. Inr (\<lparr>bitmap = buffer, bitmap_at = at, lastI = 0,
                               highest_addr = highest, usedRam = 0,
                               freeRam = free - bitmapSize, ram = m\<rparr>, entries'))
         | (entries', None) \<Rightarrow>
             if (\<exists>e \<in> set entries'. mm_type e = LIMINE_MEMMAP_USABLE \<and> mm_length e \<noteq> 0)
             then Inl NullPointer
             else Inr (\<lparr>bitmap = [], bitmap_at = 0, lastI = 0, highest_addr = highest,
                        usedRam = 0, freeRam = free, ram = m\<rparr>, entries'))"

section \<open>Facts on the bitmap\<close>

definition page_bit :: "u8 list \<Rightarrow> nat \<Rightarrow> bool" where
  "page_bit b i = bit (b ! (i div 8)) (7 - i mod 8)"

lemma bitindexer_exp: "k < 8 \<Longrightarrow> drop_bit k (0b10000000 :: u8) = 2 ^ (7 - k)"
proof -
  assume "k < 8"
  then consider "k = 0" | "k = 1" | "k = 2" | "k = 3" | "k = 4" | "k = 5" | "k = 6" | "k = 7"
    by linarith
  then show ?thesis by cases simp_all
qed

lemma unat_div_mod_8:
  "unat ((i::u64) div 8) = unat i div 8" "unat ((i::u64) mod 8) = unat i mod 8"
  by (simp_all add: unat_div unat_mod)

lemma and_exp_nonzero: "(b::u8) AND 2 ^ k \<noteq> 0 \<longleftrightarrow> bit b k"
  by (simp add: and_exp_eq_0_iff_not_bit)

lemma Bitmap_Get_eq:
  "unat i < 8 * length b \<Longrightarrow> Bitmap_Get b i = Inr (page_bit b (unat i))"
  by (auto simp: Bitmap_Get_def Let_def unat_div_mod_8 bitindexer_exp and_exp_nonzero
      page_bit_def)

lemma byte_bit_index_inj:
  "j div 8 = i div 8 \<Longrightarrow> 7 - i mod 8 = 7 - j mod 8 \<Longrightarrow> i = (j::nat)"
proof -
  assume "j div 8 = i div 8" and "7 - i mod 8 = 7 - j mod 8"
  moreover have "i mod 8 < 8" and "j mod 8 < 8" by simp_all
  ultimately have "i div 8 * 8 + i mod 8 = j div 8 * 8 + j mod 8" by linarith
  then show "i = j" by simp
qed

lemma Bitmap_Set_eq:
  assumes "unat i < 8 * length b"
  obtains b' where "Bitmap_Set b i v = Inr b'" "length b' = length b"
    "\<And>j. page_bit b' j = (if j = unat i then v else page_bit b j)"
proof -
  let ?k = "7 - unat i mod 8"
  let ?c = "b ! (unat i div 8) AND NOT (2 ^ ?k)"
  let ?x = "if v then ?c OR 2 ^ ?k else ?c"
  let ?b' = "b[unat i div 8 := ?x]"
  have len: "unat i div 8 < length b" using assms by simp
  have "Bitmap_Set b i v = Inr ?b'"
    using len by (simp add: Bitmap_Set_def Let_def unat_div_mod_8 bitindexer_exp)
  moreover have "page_bit ?b' j = (if j = unat i then v else page_bit b j)" for j
  proof (cases "j div 8 = unat i div 8")
    case True
    have "bit ?x n = (if n = ?k then v else bit (b ! (unat i div 8)) n)" if "n < 8" for n
      using that by (auto simp: bit_simps)
    then show ?thesis
      using len byte_bit_index_inj [of j "unat i"] True by (auto simp: page_bit_def)
  next
    case False
    then show ?thesis by (auto simp: page_bit_def)
  qed
  ultimately show ?thesis by (intro that [of ?b']) simp_all
qed

text \<open>The pages the bitmap marks free: the allocator's abstract state.\<close>

definition free_pages :: "u8 list \<Rightarrow> nat set" where
  "free_pages b = {i. i < 8 * length b \<and> \<not> page_bit b i}"

lemma Bitmap_SetRange_eq:
  assumes "unat stop \<le> 8 * length b"
  shows "\<exists>b'. Bitmap_SetRange b i stop v = Inr b' \<and> length b' = length b \<and>
    (\<forall>j. page_bit b' j = (if unat i \<le> j \<and> j < unat stop then v else page_bit b j))"
  using assms
proof (induction b i stop v rule: Bitmap_SetRange.induct)
  case (1 b i stop v)
  show ?case
  proof (cases "i < stop")
    case True
    then have lt: "unat i < unat stop" by (simp add: word_less_nat_alt)
    with "1.prems" have "unat i < 8 * length b" by simp
    from Bitmap_Set_eq [OF this, of v]
    obtain b1 where b1: "Bitmap_Set b i v = Inr b1" "length b1 = length b"
      "\<And>j. page_bit b1 j = (if j = unat i then v else page_bit b j)"
      by blast
    obtain b2 where b2: "Bitmap_SetRange b1 (i + 1) stop v = Inr b2" "length b2 = length b1"
      "\<And>j. page_bit b2 j = (if unat (i + 1) \<le> j \<and> j < unat stop then v else page_bit b1 j)"
      using "1.IH" [OF True b1(1)] "1.prems" b1(2) by auto
    have "unat (i + 1) = Suc (unat i)" using True by (rule unat_plus1)
    then have "page_bit b2 j = (if unat i \<le> j \<and> j < unat stop then v else page_bit b j)" for j
      using lt by (auto simp: b2(3) b1(3))
    then show ?thesis
      using True b1 b2 by (simp add: Bitmap_SetRange.simps [of b i])
  next
    case False
    then show ?thesis
      by (auto simp: Bitmap_SetRange.simps [of b i] word_less_nat_alt)
  qed
qed

definition free_run :: "u8 list \<Rightarrow> nat \<Rightarrow> nat \<Rightarrow> nat \<Rightarrow> bool" where
  "free_run b lo hi n \<longleftrightarrow>
     (\<exists>page. lo \<le> page \<and> page + n \<le> hi \<and> {page..<page + n} \<subseteq> free_pages b)"

lemma free_run_skip:
  assumes "i \<notin> free_pages b" "lo + p = i" "p < n"
  shows "free_run b lo hi n \<longleftrightarrow> free_run b (Suc i) hi n"
proof
  assume "free_run b lo hi n"
  then obtain page where pg: "lo \<le> page" "page + n \<le> hi" "{page..<page + n} \<subseteq> free_pages b"
    by (auto simp: free_run_def)
  have "\<not> page \<le> i"
  proof
    assume "page \<le> i"
    then have "i \<in> {page..<page + n}" using pg(1) assms(2,3) by simp
    then show False using pg(3) assms(1) by blast
  qed
  then show "free_run b (Suc i) hi n"
    using pg by (auto simp: free_run_def intro!: exI [of _ page])
next
  assume "free_run b (Suc i) hi n"
  then obtain page where "Suc i \<le> page" "page + n \<le> hi" "{page..<page + n} \<subseteq> free_pages b"
    by (auto simp: free_run_def)
  then show "free_run b lo hi n"
    using assms(2) unfolding free_run_def by (intro exI [of _ page]) simp
qed

text \<open>
  The scan: with the \<open>p\<close> pages before \<open>i\<close> known free, it finds a run of \<open>count\<close> free
  pages whenever there is one before \<open>limit\<close>, takes it and nothing else, and otherwise
  changes only the cursor.
\<close>

definition takes_run ::
  "u8 list \<Rightarrow> nat \<Rightarrow> nat \<Rightarrow> nat \<Rightarrow> u64 \<times> u8 list \<times> u64 \<Rightarrow> bool" where
  "takes_run b lo hi n r \<longleftrightarrow>
     (\<exists>page. lo \<le> page \<and> page + n \<le> hi \<and> {page..<page + n} \<subseteq> free_pages b \<and>
       fst r = of_nat page * 4096 \<and> length (fst (snd r)) = length b \<and>
       free_pages (fst (snd r)) = free_pages b - {page..<page + n} \<and>
       unat (snd (snd r)) = page + n)"

lemma takes_run_mono: "takes_run b lo hi n r \<Longrightarrow> lo' \<le> lo \<Longrightarrow> takes_run b lo' hi n r"
  unfolding takes_run_def by (meson order_trans)

lemma inner_alloc_loop_spec:
  assumes "unat limit \<le> 8 * length b" "p < count" "unat p \<le> unat i"
    and "{unat i - unat p..<unat i} \<subseteq> free_pages b"
  shows "if free_run b (unat i - unat p) (unat limit) (unat count)
    then \<exists>r. inner_alloc_loop count limit b p i = Inr r \<and>
           takes_run b (unat i - unat p) (unat limit) (unat count) r
    else inner_alloc_loop count limit b p i = Inr (0, b, max i limit)"
  using assms
proof (induction count limit b p i rule: inner_alloc_loop.induct)
  case (1 count limit b p i)
  let ?lo = "unat i - unat p"
  show ?case
  proof (cases "i < limit")
    case False
    have "\<not> free_run b ?lo (unat limit) (unat count)"
      using False "1.prems" by (auto simp: free_run_def word_less_nat_alt)
    then show ?thesis
      using False by (simp add: inner_alloc_loop.simps [of count limit b] max_def)
  next
    case True
    have i1: "unat (i + 1) = Suc (unat i)" using True by (rule unat_plus1)
    have p1: "unat (p + 1) = Suc (unat p)" using "1.prems"(2) by (rule unat_plus1)
    have ilt: "unat i < unat limit" using True by (simp add: word_less_nat_alt)
    then have ib: "unat i < 8 * length b" using "1.prems"(1) by simp
    then have get: "Bitmap_Get b i = Inr (page_bit b (unat i))" by (rule Bitmap_Get_eq)
    have mx: "max (i + 1) limit = max i limit"
      using True i1 by (simp add: max_def word_le_nat_alt word_less_nat_alt) 
    show ?thesis
    proof (cases "page_bit b (unat i)")
      case usd: True
      then have nf: "unat i \<notin> free_pages b" by (simp add: free_pages_def)
      have eq: "inner_alloc_loop count limit b p i = inner_alloc_loop count limit b 0 (i + 1)"
        using True usd get by (simp add: inner_alloc_loop.simps [of count limit b p])
      have c0: "0 < count" using "1.prems"(2) by (simp add: word_less_nat_alt)
      have run: "free_run b ?lo (unat limit) (unat count)
          \<longleftrightarrow> free_run b (Suc (unat i)) (unat limit) (unat count)"
        using nf by (rule free_run_skip [of _ _ _ "unat p"])
          (use "1.prems"(2,3) in \<open>simp_all add: word_less_nat_alt\<close>)
      have weaken: "takes_run b ?lo (unat limit) (unat count) r"
        if "takes_run b (Suc (unat i)) (unat limit) (unat count) r" for r
        using that by (rule takes_run_mono) simp
      show ?thesis
        using "1.IH"(2) [OF True get] usd "1.prems"(1) c0 run weaken
        unfolding eq by (auto simp: i1 mx)
    next
      case fr: False
      then have fi: "unat i \<in> free_pages b" using ib by (simp add: free_pages_def)
      have sub: "{?lo..<Suc (unat i)} \<subseteq> free_pages b"
        using "1.prems"(4) fi by (auto simp: less_Suc_eq)
      show ?thesis
      proof (cases "p + 1 = count")
        case full: True
        then have cnt: "unat count = Suc (unat p)" using p1 by simp
        have le: "unat count \<le> unat (i + 1)" using cnt i1 "1.prems"(3) by simp
        have pg: "unat (i + 1 - count) = ?lo"
          by (subst unat_sub_nowrap [OF le]) (simp add: cnt i1)
        have stop: "unat (i + 1) \<le> 8 * length b" using i1 ib by simp
        obtain b' where b': "Bitmap_SetRange b (i + 1 - count) (i + 1) True = Inr b'"
          "length b' = length b"
          "\<And>j. page_bit b' j = (if ?lo \<le> j \<and> j < unat (i + 1) then True else page_bit b j)"
          using Bitmap_SetRange_eq [OF stop, of "i + 1 - count" True] unfolding pg by auto
        have res: "inner_alloc_loop count limit b p i = Inr ((i + 1 - count) * 4096, b', i + 1)"
          using True fr get full b'(1)
          by (simp add: inner_alloc_loop.simps [of count limit b p])
        have end_eq: "?lo + unat count = Suc (unat i)"
          using cnt "1.prems"(3) by simp
        have page: "of_nat ?lo = i + 1 - count" by (simp flip: pg)
        have fp: "free_pages b' = free_pages b - {?lo..<?lo + unat count}"
          by (auto simp: free_pages_def b'(2,3) end_eq i1)
        have "takes_run b ?lo (unat limit) (unat count) ((i + 1 - count) * 4096, b', i + 1)"
          unfolding takes_run_def
          by (rule exI [of _ ?lo]) (use end_eq ilt sub fp page b'(2) i1 in simp)
        moreover have "free_run b ?lo (unat limit) (unat count)"
          unfolding free_run_def by (rule exI [of _ ?lo]) (use end_eq ilt sub in simp)
        ultimately show ?thesis using res by auto
      next
        case more: False
        have eq: "inner_alloc_loop count limit b p i = inner_alloc_loop count limit b (p + 1) (i + 1)"
          using True fr get more by (simp add: inner_alloc_loop.simps [of count limit b p])
        have lo: "unat (i + 1) - unat (p + 1) = ?lo" by (simp add: i1 p1)
        have lt: "p + 1 < count"
          using more "1.prems"(2) p1 by (metis Suc_lessI word_less_nat_alt word_unat_eq_iff)
        have le: "unat (p + 1) \<le> unat (i + 1)" using i1 p1 "1.prems"(3) by simp
        show ?thesis
          using "1.IH"(1) [OF True get _ more "1.prems"(1) lt le] fr sub
          unfolding eq lo by (simp add: i1 mx del: split_paired_Ex)
      qed
    qed
  qed
qed

section \<open>What alloc and free do\<close>

lemma inner_alloc_loop_zero:
  assumes "unat limit \<le> 8 * length b" "unat p \<le> unat i"
  shows "inner_alloc_loop 0 limit b p i = Inr (0, b, max i limit)"
  using assms
proof (induction "0 :: u64" limit b p i rule: inner_alloc_loop.induct)
  case (1 limit b p i)
  show ?case
  proof (cases "i < limit")
    case False
    then show ?thesis by (simp add: inner_alloc_loop.simps [of 0 limit b] max_def)
  next
    case True
    have i1: "unat (i + 1) = Suc (unat i)" using True by (rule unat_plus1)
    have ilt: "unat i < unat limit" using True by (simp add: word_less_nat_alt)
    then have get: "Bitmap_Get b i = Inr (page_bit b (unat i))"
      using "1.prems"(1) by (intro Bitmap_Get_eq) simp
    have "p < limit" using ilt "1.prems"(2) by (simp add: word_less_nat_alt)
    then have p1: "unat (p + 1) = Suc (unat p)" by (rule unat_plus1)
    then have pnz: "p + 1 \<noteq> 0" by auto
    have mx: "max (i + 1) limit = max i limit"
      using True i1 by (simp add: max_def word_le_nat_alt word_less_nat_alt)
    show ?thesis
      using "1.hyps" [OF True get] "1.prems" pnz get True i1 p1
      by (simp add: inner_alloc_loop.simps [of 0 limit b p] mx)
  qed
qed

definition pm_free :: "phys \<Rightarrow> nat set" where
  "pm_free s = free_pages (bitmap s)"

definition page_limit :: "phys \<Rightarrow> nat" where
  "page_limit s = unat (highest_addr s) div 4096"

text \<open>
  The allocator's invariant: the bitmap covers every page below \<open>highest_addr\<close>, the cursor
  is within it, and page 0 is not free (Limine never reports it usable).
\<close>

definition pm_ok :: "phys \<Rightarrow> bool" where
  "pm_ok s \<longleftrightarrow> page_limit s \<le> 8 * length (bitmap s) \<and> unat (lastI s) \<le> page_limit s
     \<and> 0 \<notin> pm_free s"

lemma page_limit_bound: "page_limit s < 2 ^ 52"
  using unat_less_u64 [of "highest_addr s"] by (simp add: page_limit_def div_less_iff_less_mult)

lemma unat_limit_word: "unat (highest_addr s div 0x1000) = page_limit s"
  by (simp add: page_limit_def unat_div)

lemma page_addr:
  "page < 2 ^ 52 \<Longrightarrow> unat (of_nat page * 4096 :: u64) = page * 4096"
  by (simp add: unat_word_ariths unat_of_nat)

lemma page_addr_zero:
  "page < 2 ^ 52 \<Longrightarrow> (of_nat page * 4096 :: u64) = 0 \<longleftrightarrow> page = 0"
  using page_addr [of page] by (metis mult_eq_0_iff unat_eq_zero zero_neq_numeral)

lemma takes_run_nonnull:
  assumes "takes_run b lo hi n (ret, b', i)" "hi < 2 ^ 52" "0 \<notin> free_pages b" "0 < n"
  shows "ret \<noteq> 0"
proof -
  obtain page where pg: "page + n \<le> hi" "{page..<page + n} \<subseteq> free_pages b"
    "ret = of_nat page * 4096"
    using assms(1) by (auto simp: takes_run_def)
  have "page \<in> free_pages b" using pg(2) assms(4) by auto
  then have "page \<noteq> 0" using assms(3) by metis
  moreover have "page < 2 ^ 52" using pg(1) assms(2) by simp
  ultimately show ?thesis using page_addr_zero pg(3) by simp
qed

text \<open>
  One call of \<^verbatim>\<open>inner_alloc\<close> in a state that satisfies the invariant.
\<close>

lemma inner_alloc_cases:
  assumes "unat limit \<le> 8 * length (bitmap s)" "unat limit < 2 ^ 52" "0 \<notin> pm_free s"
  shows "if n \<noteq> 0 \<and> free_run (bitmap s) (unat (lastI s)) (unat limit) (unat n)
    then \<exists>ret b i. inner_alloc s n limit = Inr (ret, s\<lparr>bitmap := b, lastI := i\<rparr>) \<and> ret \<noteq> 0 \<and>
           takes_run (bitmap s) (unat (lastI s)) (unat limit) (unat n) (ret, b, i)
    else inner_alloc s n limit = Inr (0, s\<lparr>lastI := max (lastI s) limit\<rparr>)"
proof (cases "n = 0")
  case True
  then show ?thesis
    using inner_alloc_loop_zero [OF assms(1), of 0 "lastI s"] by (simp add: inner_alloc_def)
next
  case False
  then have n: "0 < n" and n': "0 < unat n" by (simp_all add: word_neq_0_conv unat_gt_0)
  note spec = inner_alloc_loop_spec [OF assms(1) n, of "lastI s"]
  show ?thesis
  proof (cases "free_run (bitmap s) (unat (lastI s)) (unat limit) (unat n)")
    case True
    then obtain r where r: "inner_alloc_loop n limit (bitmap s) 0 (lastI s) = Inr r"
      "takes_run (bitmap s) (unat (lastI s)) (unat limit) (unat n) r"
      using spec by (auto simp del: split_paired_Ex)
    obtain ret b i where ri: "r = (ret, b, i)" by (cases r)
    have "ret \<noteq> 0"
      using takes_run_nonnull [OF r(2) [unfolded ri] assms(2)] assms(3) n'
      by (simp add: pm_free_def)
    then show ?thesis using r ri True False by (auto simp: inner_alloc_def)
  next
    case none: False
    then show ?thesis using spec False by (simp add: inner_alloc_def)
  qed
qed

definition takes_pages :: "nat set \<Rightarrow> nat set \<Rightarrow> nat \<Rightarrow> u64 \<Rightarrow> nat \<Rightarrow> bool" where
  "takes_pages fr fr' n ptr hi \<longleftrightarrow>
     (\<exists>page. page \<noteq> 0 \<and> page + n \<le> hi \<and> ptr = of_nat page * 4096 \<and>
       {page..<page + n} \<subseteq> fr \<and> fr' = fr - {page..<page + n})"

lemma takes_pages_mono:
  assumes "takes_pages fr fr' n ptr hi" "hi \<le> hi'"
  shows "takes_pages fr fr' n ptr hi'"
proof -
  obtain page where "page \<noteq> 0" "page + n \<le> hi" "ptr = of_nat page * 4096"
    "{page..<page + n} \<subseteq> fr" "fr' = fr - {page..<page + n}"
    using assms(1) unfolding takes_pages_def by blast
  then show ?thesis
    unfolding takes_pages_def using assms(2) by (intro exI [of _ page]) simp
qed

lemma takes_run_pages:
  assumes "takes_run (bitmap s) lo hi n (ret, b, i)" "0 \<notin> pm_free s" "0 < n"
  shows "takes_pages (pm_free s) (free_pages b) n ret hi"
proof -
  obtain page where pg: "page + n \<le> hi" "{page..<page + n} \<subseteq> free_pages (bitmap s)"
    "ret = of_nat page * 4096" "free_pages b = free_pages (bitmap s) - {page..<page + n}"
    using assms(1) by (auto simp: takes_run_def)
  have "page \<in> free_pages (bitmap s)" using pg(2) assms(3) by auto
  then have "page \<noteq> 0" using assms(2) unfolding pm_free_def by metis
  then show ?thesis
    unfolding takes_pages_def pm_free_def using pg by (intro exI [of _ page]) simp
qed

text \<open>
  \<^verbatim>\<open>PhysicalMemory::alloc\<close> looks from the cursor to the end and then from 0 to the
  cursor. It halts the machine exactly when neither part holds a run of the size asked.
\<close>

definition alloc_possible :: "phys \<Rightarrow> nat \<Rightarrow> bool" where
  "alloc_possible s n \<longleftrightarrow> 0 < n \<and>
     (free_run (bitmap s) (unat (lastI s)) (page_limit s) n \<or>
      free_run (bitmap s) 0 (unat (lastI s)) n)"

lemma alloc_cases:
  assumes ok: "pm_ok s"
  shows "if alloc_possible s (unat n)
    then \<exists>ptr s'. PhysicalMemory_alloc s n = Inr (ptr, s') \<and>
      takes_pages (pm_free s) (pm_free s') (unat n) ptr (page_limit s) \<and>
      highest_addr s' = highest_addr s \<and> length (bitmap s') = length (bitmap s) \<and>
      unat (lastI s') \<le> page_limit s \<and> bitmap_at s' = bitmap_at s \<and>
      (if free_run (bitmap s) (unat (lastI s)) (page_limit s) (unat n)
       then ram s' = ram s \<and> usedRam s' = usedRam s \<and> freeRam s' = freeRam s
       else ram s' = memset (ram s) ptr 0 (unat (n * 4096)) \<and>
            usedRam s' = usedRam s + n * 4096 \<and> freeRam s' = freeRam s - n * 4096)
    else PhysicalMemory_alloc s n = Inl Halted"
proof -
  have hi: "unat (highest_addr s div 0x1000) \<le> 8 * length (bitmap s)"
    "unat (highest_addr s div 0x1000) < 2 ^ 52" and z: "0 \<notin> pm_free s"
    and cur: "unat (lastI s) \<le> page_limit s"
    using ok page_limit_bound [of s] by (simp_all add: pm_ok_def unat_limit_word)
  note first = inner_alloc_cases [OF hi z, of n, unfolded unat_limit_word]
  show ?thesis
  proof (cases "n \<noteq> 0 \<and> free_run (bitmap s) (unat (lastI s)) (page_limit s) (unat n)")
    case True
    then obtain ret b i where r: "inner_alloc s n (highest_addr s div 0x1000)
        = Inr (ret, s\<lparr>bitmap := b, lastI := i\<rparr>)" "ret \<noteq> 0"
      "takes_run (bitmap s) (unat (lastI s)) (page_limit s) (unat n) (ret, b, i)"
      using first by auto
    have n: "0 < unat n" using True by (simp add: unat_gt_0)
    have "alloc_possible s (unat n)" using True n by (simp add: alloc_possible_def)
    moreover have "PhysicalMemory_alloc s n = Inr (ret, s\<lparr>bitmap := b, lastI := i\<rparr>)"
      using r(1,2) by (simp add: PhysicalMemory_alloc_def)
    moreover have "takes_pages (pm_free s) (free_pages b) (unat n) ret (page_limit s)"
      using r(3) z n by (rule takes_run_pages)
    moreover have "length b = length (bitmap s)" "unat i \<le> page_limit s"
      using r(3) by (auto simp: takes_run_def)
    ultimately show ?thesis using True by (simp add: pm_free_def)
  next
    case none: False
    let ?s1 = "s\<lparr>lastI := max (lastI s) (highest_addr s div 0x1000)\<rparr>"
    let ?s2 = "?s1\<lparr>lastI := 0\<rparr>"
    have one: "inner_alloc s n (highest_addr s div 0x1000) = Inr (0, ?s1)"
      using first none by simp
    have lo: "unat (lastI s) \<le> 8 * length (bitmap ?s2)" "unat (lastI s) < 2 ^ 52"
      "0 \<notin> pm_free ?s2"
      using ok cur page_limit_bound [of s] z by (simp_all add: pm_ok_def pm_free_def)
    note second = inner_alloc_cases [OF lo, of n]
    show ?thesis
    proof (cases "n \<noteq> 0 \<and> free_run (bitmap s) 0 (unat (lastI s)) (unat n)")
      case True
      then obtain ret b i where r: "inner_alloc ?s2 n (lastI s)
          = Inr (ret, ?s2\<lparr>bitmap := b, lastI := i\<rparr>)" "ret \<noteq> 0"
        "takes_run (bitmap s) 0 (unat (lastI s)) (unat n) (ret, b, i)"
        using second by auto
      have n: "0 < unat n" using True by (simp add: unat_gt_0)
      have "alloc_possible s (unat n)" using True n by (simp add: alloc_possible_def)
      moreover have tp: "takes_pages (pm_free s) (free_pages b) (unat n) ret (unat (lastI s))"
        using r(3) z n by (rule takes_run_pages)
      then have "takes_pages (pm_free s) (free_pages b) (unat n) ret (page_limit s)"
        using cur by (rule takes_pages_mono)
      moreover have "length b = length (bitmap s)" "unat i \<le> page_limit s"
        using r(3) cur by (auto simp: takes_run_def)
      moreover have "PhysicalMemory_alloc s n =
          Inr (ret, s\<lparr>bitmap := b, lastI := i, ram := memset (ram s) ret 0 (unat (n * 4096)),
            usedRam := usedRam s + n * 4096, freeRam := freeRam s - n * 4096\<rparr>)"
        using one r(1,2) by (simp add: PhysicalMemory_alloc_def)
      ultimately show ?thesis using True none by (simp add: pm_free_def)
    next
      case False
      have "\<not> alloc_possible s (unat n)"
        using none False by (auto simp: alloc_possible_def)
      moreover have "inner_alloc ?s2 n (lastI s) = Inr (0, ?s2\<lparr>lastI := max 0 (lastI s)\<rparr>)"
        using second False by simp
      ultimately show ?thesis using one by (simp add: PhysicalMemory_alloc_def)
    qed
  qed
qed


text \<open>
  \<^verbatim>\<open>PhysicalMemory::free\<close> of a block inside the bitmap.
\<close>

lemma free_eq:
  assumes "unat (p div 0x1000) + unat n \<le> 8 * length (bitmap s)" "unat (p div 0x1000) + unat n < 2 ^ 64"
  shows "\<exists>b. PhysicalMemory_free s p n =
      Inr (s\<lparr>bitmap := b, lastI := min (lastI s) (p div 0x1000),
             usedRam := usedRam s - n * 0x1000, freeRam := freeRam s + n * 0x1000\<rparr>) \<and>
    length b = length (bitmap s) \<and>
    free_pages b = pm_free s \<union> {unat p div 4096..<unat p div 4096 + unat n}"
proof -
  have pd: "unat (p div 0x1000) = unat p div 4096" by (simp add: unat_div)
  have stop: "unat (p div 0x1000 + n) = unat p div 4096 + unat n"
    using assms(2) unfolding pd [symmetric] by (intro unat_add_nowrap) simp
  have le: "unat (p div 0x1000 + n) \<le> 8 * length (bitmap s)" using assms(1) stop pd by simp
  obtain b where b: "Bitmap_SetRange (bitmap s) (p div 0x1000) (p div 0x1000 + n) False = Inr b"
    "length b = length (bitmap s)"
    "\<And>j. page_bit b j = (if unat p div 4096 \<le> j \<and> j < unat p div 4096 + unat n
            then False else page_bit (bitmap s) j)"
    using Bitmap_SetRange_eq [OF le, of "p div 0x1000" False] unfolding stop pd by auto
  have "free_pages b = pm_free s \<union> {unat p div 4096..<unat p div 4096 + unat n}"
    using assms(1) by (auto simp: free_pages_def pm_free_def b(2,3) pd)
  moreover have "min (lastI s) (p div 0x1000)
      = (if lastI s > p div 0x1000 then p div 0x1000 else lastI s)"
    by (auto simp: min_def)
  ultimately show ?thesis
    using b(1,2) by (intro exI [of _ b]) (simp add: PhysicalMemory_free_def Let_def)
qed

section \<open>The page allocator as an interface\<close>

text \<open>
  What the clients (page tables, heap, threads, ELF loader) rely on: \<open>fr\<close> are the free
  pages, and a block handed out is made of free pages that are free no more.
\<close>

definition page_of :: "u64 \<Rightarrow> nat" where
  "page_of p = unat p div 4096"

definition page_aligned :: "u64 \<Rightarrow> bool" where
  "page_aligned p \<longleftrightarrow> unat p mod 4096 = 0"

lemma page_addr_facts:
  assumes "page < 2 ^ 52"
  shows "page_of (of_nat page * 4096) = page" "page_aligned (of_nat page * 4096)"
  using page_addr [OF assms] by (simp_all add: page_of_def page_aligned_def)

locale page_allocator =
  fixes alloc :: "'s \<Rightarrow> u64 \<Rightarrow> (u64 \<times> 's) result"
    and fr :: "'s \<Rightarrow> nat set"
    and ok :: "'s \<Rightarrow> bool"
  assumes alloc_takes: "ok s \<Longrightarrow> alloc s n = Inr (ptr, s') \<Longrightarrow>
      \<exists>hi. takes_pages (fr s) (fr s') (unat n) ptr hi \<and> hi < 2 ^ 52"
    and alloc_ok: "ok s \<Longrightarrow> alloc s n = Inr (ptr, s') \<Longrightarrow> ok s'"
    and alloc_err: "ok s \<Longrightarrow> alloc s n = Inl e \<Longrightarrow> e = Halted"
begin

lemma alloc_block:
  assumes "ok s" "alloc s n = Inr (ptr, s')"
  shows "page_of ptr \<noteq> 0" "page_aligned ptr"
    "{page_of ptr..<page_of ptr + unat n} \<subseteq> fr s"
    "fr s' = fr s - {page_of ptr..<page_of ptr + unat n}"
    "page_of ptr + unat n < 2 ^ 52"
proof -
  obtain hi page where pg: "hi < 2 ^ 52" "page \<noteq> 0" "page + unat n \<le> hi"
    "ptr = of_nat page * 4096" "{page..<page + unat n} \<subseteq> fr s"
    "fr s' = fr s - {page..<page + unat n}"
    using alloc_takes [OF assms] unfolding takes_pages_def by blast
  have "page < 2 ^ 52" using pg(1,3) by simp
  note f = page_addr_facts [OF this]
  show "page_of ptr \<noteq> 0" "page_aligned ptr"
    "{page_of ptr..<page_of ptr + unat n} \<subseteq> fr s"
    "fr s' = fr s - {page_of ptr..<page_of ptr + unat n}"
    "page_of ptr + unat n < 2 ^ 52"
    using pg f by simp_all
qed

lemma alloc_one:
  assumes "ok s" "alloc s 1 = Inr (ptr, s')"
  shows "page_of ptr \<in> fr s" "fr s' = fr s - {page_of ptr}"
  using alloc_block [OF assms] by auto

text \<open>A page in use stays in use, and is never part of a later block.\<close>

lemma used_stays_used:
  assumes "ok s" "alloc s n = Inr (ptr, s')" "U \<inter> fr s = {}"
  shows "U \<inter> fr s' = {}" "U \<inter> {page_of ptr..<page_of ptr + unat n} = {}"
    "{page_of ptr..<page_of ptr + unat n} \<inter> fr s' = {}"
  using alloc_block(3,4) [OF assms(1,2)] assms(3) by auto

lemma two_blocks_disjoint:
  assumes "ok s" "alloc s n = Inr (p, s1)" "alloc s1 m = Inr (q, s2)"
  shows "{page_of p..<page_of p + unat n} \<inter> {page_of q..<page_of q + unat m} = {}"
  using used_stays_used(3) [OF assms(1,2)] alloc_block(3) [OF alloc_ok [OF assms(1,2)] assms(3)]
  by blast

end

locale page_allocator_free = page_allocator +
  fixes release :: "'s \<Rightarrow> u64 \<Rightarrow> u64 \<Rightarrow> 's result"
    and total :: "'s \<Rightarrow> nat"
  assumes release_frees: "ok s \<Longrightarrow> page_of p \<noteq> 0 \<Longrightarrow> page_of p + unat n \<le> total s \<Longrightarrow>
      \<exists>s'. release s p n = Inr s' \<and> fr s' = fr s \<union> {page_of p..<page_of p + unat n} \<and>
           ok s' \<and> total s' = total s"
    and alloc_total: "ok s \<Longrightarrow> alloc s n = Inr (ptr, s') \<Longrightarrow>
      total s' = total s \<and> page_of ptr + unat n \<le> total s"
begin

lemma alloc_then_release:
  assumes "ok s" "alloc s n = Inr (ptr, s1)"
  shows "\<exists>s2. release s1 ptr n = Inr s2 \<and> fr s2 = fr s \<and> ok s2"
proof -
  note blk = alloc_block [OF assms] and tot = alloc_total [OF assms]
  obtain s2 where "release s1 ptr n = Inr s2"
    "fr s2 = fr s1 \<union> {page_of ptr..<page_of ptr + unat n}" "ok s2"
    using release_frees [OF alloc_ok [OF assms] blk(1), of n] tot by auto
  then show ?thesis using blk(3,4) by auto
qed

end

lemma pm_alloc_ok:
  assumes "pm_ok s" "PhysicalMemory_alloc s n = Inr (ptr, s')"
  shows "pm_ok s'" "takes_pages (pm_free s) (pm_free s') (unat n) ptr (page_limit s)"
    "page_limit s' = page_limit s" "length (bitmap s') = length (bitmap s)"
proof -
  have facts: "takes_pages (pm_free s) (pm_free s') (unat n) ptr (page_limit s) \<and>
      highest_addr s' = highest_addr s \<and> length (bitmap s') = length (bitmap s) \<and>
      unat (lastI s') \<le> page_limit s"
    using alloc_cases [OF assms(1), of n] assms(2) by (auto split: if_splits)
  then show "takes_pages (pm_free s) (pm_free s') (unat n) ptr (page_limit s)"
    "page_limit s' = page_limit s" "length (bitmap s') = length (bitmap s)"
    by (simp_all add: page_limit_def)
  moreover from this(1) have "pm_free s' \<subseteq> pm_free s" by (auto simp: takes_pages_def)
  ultimately show "pm_ok s'" using assms(1) facts by (auto simp: pm_ok_def)
qed

definition pm_total :: "phys \<Rightarrow> nat" where
  "pm_total s = min (8 * length (bitmap s)) (2 ^ 64 - 1)"

interpretation pm: page_allocator_free PhysicalMemory_alloc pm_free pm_ok
  PhysicalMemory_free pm_total
proof unfold_locales
  fix s n ptr s'
  assume a: "pm_ok s" "PhysicalMemory_alloc s n = Inr (ptr, s')"
  show "\<exists>hi. takes_pages (pm_free s) (pm_free s') (unat n) ptr hi \<and> hi < 2 ^ 52"
    using pm_alloc_ok(2) [OF a] page_limit_bound [of s] by blast
  show "pm_ok s'" by (rule pm_alloc_ok(1) [OF a])
  obtain page where pg: "page + unat n \<le> page_limit s" "ptr = of_nat page * 4096"
    using pm_alloc_ok(2) [OF a] unfolding takes_pages_def by blast
  then have "page_of ptr = page" using page_limit_bound [of s] by (simp add: page_addr_facts)
  then show "pm_total s' = pm_total s \<and> page_of ptr + unat n \<le> pm_total s"
    using pg(1) a(1) pm_alloc_ok(4) [OF a] page_limit_bound [of s]
    by (simp add: pm_total_def pm_ok_def)
next
  fix s n e
  assume "pm_ok s" "PhysicalMemory_alloc s n = Inl e"
  then show "e = Halted" using alloc_cases [of s n] by (auto split: if_splits)
next
  fix s p and n :: u64
  assume a: "pm_ok s" "page_of p \<noteq> 0" "page_of p + unat n \<le> pm_total s"
  show "\<exists>s'. PhysicalMemory_free s p n = Inr s' \<and>
      pm_free s' = pm_free s \<union> {page_of p..<page_of p + unat n} \<and>
      pm_ok s' \<and> pm_total s' = pm_total s"
  proof -
    have pd: "unat (p div 0x1000) = page_of p" by (simp add: page_of_def unat_div)
    have "unat (p div 0x1000) + unat n \<le> 8 * length (bitmap s)"
      "unat (p div 0x1000) + unat n < 2 ^ 64"
      using a(3) by (simp_all add: pd pm_total_def)
    from free_eq [OF this] obtain b where b: "PhysicalMemory_free s p n =
        Inr (s\<lparr>bitmap := b, lastI := min (lastI s) (p div 0x1000),
          usedRam := usedRam s - n * 0x1000, freeRam := freeRam s + n * 0x1000\<rparr>)"
      "length b = length (bitmap s)"
      "free_pages b = pm_free s \<union> {page_of p..<page_of p + unat n}"
      by (auto simp: page_of_def)
    have "unat (min (lastI s) (p div 0x1000)) \<le> page_limit s"
      using a(1) by (simp add: pm_ok_def min_def word_le_nat_alt)
    then show ?thesis
      using a(1,2) b by (simp add: pm_ok_def pm_free_def page_limit_def pm_total_def)
  qed
qed

section \<open>What Initialize establishes\<close>

definition usable :: "mmap_entry \<Rightarrow> bool" where
  "usable e \<longleftrightarrow> mm_type e = LIMINE_MEMMAP_USABLE"

definition region_pages :: "mmap_entry \<Rightarrow> nat set" where
  "region_pages e = {page_of (mm_base e)..<(unat (mm_base e) + unat (mm_length e)) div 4096}"

definition usable_pages :: "mmap_entry list \<Rightarrow> nat set" where
  "usable_pages es = (\<Union>e \<in> {e \<in> set es. usable e}. region_pages e)"

text \<open>
  What the Limine protocol promises of usable entries: page aligned, inside the address
  space, and pairwise disjoint.
\<close>

definition wf_region :: "mmap_entry \<Rightarrow> bool" where
  "wf_region e \<longleftrightarrow> page_aligned (mm_base e) \<and> page_aligned (mm_length e) \<and>
     unat (mm_base e) + unat (mm_length e) < 2 ^ 64"

fun wf_memmap :: "mmap_entry list \<Rightarrow> bool" where
  "wf_memmap [] = True"
| "wf_memmap (e # es) =
     ((usable e \<longrightarrow> wf_region e \<and> region_pages e \<inter> usable_pages es = {}) \<and> wf_memmap es)"

lemma usable_pages_simps [simp]:
  "usable_pages [] = {}"
  "usable_pages (e # es) = (if usable e then region_pages e else {}) \<union> usable_pages es"
  by (auto simp: usable_pages_def)

lemma wf_memmap_region: "wf_memmap es \<Longrightarrow> e \<in> set es \<Longrightarrow> usable e \<Longrightarrow> wf_region e"
  by (induction es) auto

lemma aligned_div: "page_aligned p \<Longrightarrow> unat p div 4096 * 4096 = unat p"
  by (auto simp: page_aligned_def)

lemma aligned_step:
  assumes "page_aligned t" "page_aligned len" "unat t < unat len"
  shows "unat t + 4096 \<le> unat len"
proof -
  have "4096 dvd unat len - unat t"
    using assms(1,2) by (auto simp: page_aligned_def mod_eq_0_iff_dvd)
  then have "4096 \<le> unat len - unat t" 
    by (rule dvd_imp_le) (use assms(3) in linarith)
  then show ?thesis using assms(3) by simp
qed

lemma mark_region_eq:
  assumes "page_aligned b" "page_aligned len" "page_aligned t"
    and "unat b + unat len < 2 ^ 64" "(unat b + unat len) div 4096 \<le> 8 * length buf"
  shows "\<exists>buf'. mark_region buf b len t = Inr buf' \<and> length buf' = length buf \<and>
    (\<forall>j. page_bit buf' j =
       (if (unat b + unat t) div 4096 \<le> j \<and> j < (unat b + unat len) div 4096
        then False else page_bit buf j))"
  using assms
proof (induction buf b len t rule: mark_region.induct)
  case (1 buf b len t)
  show ?case
  proof (cases "t < len")
    case False
    then have "(unat b + unat len) div 4096 \<le> (unat b + unat t) div 4096"
      by (simp add: word_less_nat_alt div_le_mono)
    then show ?thesis using False by (auto simp: mark_region.simps [of buf b])
  next
    case True
    then have lt: "unat t < unat len" by (simp add: word_less_nat_alt)
    have step: "unat t + 4096 \<le> unat len"
      using "1.prems"(3,2) lt by (rule aligned_step)
    have t1: "unat (t + 4096) = unat t + 4096"
      using step "1.prems"(4) by (simp add: unat_word_ariths)
    have nw: "\<not> t + 4096 < t" using t1 by (simp add: word_less_nat_alt)
    have al: "page_aligned (t + 4096)" using "1.prems"(3) t1 by (simp add: page_aligned_def)
    have bt: "unat (b + t) = unat b + unat t"
      using lt "1.prems"(4) by (intro unat_add_nowrap) simp
    then have ix: "unat ((b + t) div 4096) = (unat b + unat t) div 4096"
      by (simp add: unat_div)
    have nxt: "(unat b + (unat t + 4096)) div 4096 = Suc ((unat b + unat t) div 4096)"
      by (simp flip: add.assoc)
    have "Suc ((unat b + unat t) div 4096) \<le> (unat b + unat len) div 4096"
      unfolding nxt [symmetric] using step by (intro div_le_mono) simp
    then have inb: "unat ((b + t) div 4096) < 8 * length buf"
      and lt': "(unat b + unat t) div 4096 < (unat b + unat len) div 4096"
      using "1.prems"(5) ix by simp_all
    from Bitmap_Set_eq [OF inb, of False] obtain b1 where
      b1: "Bitmap_Set buf ((b + t) div 4096) False = Inr b1" "length b1 = length buf"
      "\<And>j. page_bit b1 j = (if j = (unat b + unat t) div 4096 then False else page_bit buf j)"
      unfolding ix by blast
    obtain b2 where b2: "mark_region b1 b len (t + 4096) = Inr b2" "length b2 = length b1"
      "\<And>j. page_bit b2 j = (if (unat b + (unat t + 4096)) div 4096 \<le> j \<and>
          j < (unat b + unat len) div 4096 then False else page_bit b1 j)"
      using "1.IH" [OF True b1(1) nw "1.prems"(1,2) al "1.prems"(4)] "1.prems"(5) b1(2) t1
      by auto
    have "page_bit b2 j = (if (unat b + unat t) div 4096 \<le> j \<and>
          j < (unat b + unat len) div 4096 then False else page_bit buf j)" for j
      unfolding b2(3) b1(3) nxt using lt' by auto
    then show ?thesis using True nw b1 b2 by (simp add: mark_region.simps [of buf b])
  qed
qed

lemma mark_usable_eq:
  assumes "wf_memmap es" "usable_pages es \<subseteq> {..<8 * length buf}"
  shows "\<exists>buf'. mark_usable buf es = Inr buf' \<and> length buf' = length buf \<and>
    free_pages buf' = free_pages buf \<union> usable_pages es"
  using assms
proof (induction es arbitrary: buf)
  case Nil
  then show ?case by simp
next
  case (Cons e es)
  show ?case
  proof (cases "usable e")
    case False
    then show ?thesis using Cons by (simp add: usable_def)
  next
    case True
    then have wf: "wf_region e" and sub: "region_pages e \<subseteq> {..<8 * length buf}"
      using Cons.prems by auto
    let ?top = "unat (mm_base e) + unat (mm_length e)"
    obtain b1 where b1: "mark_region buf (mm_base e) (mm_length e) 0 = Inr b1"
      "length b1 = length buf" "free_pages b1 = free_pages buf \<union> region_pages e"
    proof (cases "region_pages e = {}")
      case empty: True
      have "mm_length e = 0"
      proof (rule ccontr)
        assume "mm_length e \<noteq> 0"
        then have "0 < unat (mm_length e)" by (simp add: unat_gt_0)
        then have "4096 \<le> unat (mm_length e)"
          using wf aligned_step [of 0 "mm_length e"] by (simp add: wf_region_def page_aligned_def)
        then have "page_of (mm_base e) \<in> region_pages e"
          by (simp add: region_pages_def page_of_def div_less_iff_less_mult)
        then show False using empty by blast
      qed
      then show ?thesis using empty by (intro that [of buf]) (simp_all add: mark_region.simps)
    next
      case False
      then have "?top div 4096 - 1 \<in> region_pages e"
        by (auto simp: region_pages_def)
      then have "?top div 4096 \<le> 8 * length buf" using sub by auto
      from mark_region_eq [OF _ _ _ _ this, of 0] obtain b1 where
        b1: "mark_region buf (mm_base e) (mm_length e) 0 = Inr b1" "length b1 = length buf"
        "\<And>j. page_bit b1 j = (if unat (mm_base e) div 4096 \<le> j \<and> j < ?top div 4096
           then False else page_bit buf j)"
        using wf by (auto simp: wf_region_def page_aligned_def)
      have "free_pages b1 = free_pages buf \<union> region_pages e"
        using sub by (auto simp: free_pages_def b1(2,3) region_pages_def page_of_def)
      then show ?thesis using b1 by (intro that)
    qed
    have "usable_pages es \<subseteq> {..<8 * length b1}" using Cons.prems(2) b1(2) by simp
    then obtain b2 where b2: "mark_usable b1 es = Inr b2" "length b2 = length b1"
      "free_pages b2 = free_pages b1 \<union> usable_pages es"
      using Cons.IH [of b1] Cons.prems(1) by auto
    then show ?thesis using True b1 by (auto simp: usable_def)
  qed
qed


lemma wf_memmap_Cons_iff:
  "wf_memmap (e # es) \<longleftrightarrow>
     (usable e \<longrightarrow> wf_region e \<and> region_pages e \<inter> usable_pages es = {}) \<and> wf_memmap es"
  by simp

text \<open>The entry that gives up its first \<open>bs\<close> bytes to the bitmap.\<close>

lemma carve_region:
  assumes "wf_region e" "page_aligned bs" "bs \<le> mm_length e"
  defines "e' \<equiv> e\<lparr>mm_length := mm_length e - bs, mm_base := mm_base e + bs\<rparr>"
  shows "wf_region e'"
    "region_pages e = {page_of (mm_base e)..<page_of (mm_base e) + unat bs div 4096} \<union> region_pages e'"
    "{page_of (mm_base e)..<page_of (mm_base e) + unat bs div 4096} \<inter> region_pages e' = {}"
proof -
  have le: "unat bs \<le> unat (mm_length e)" using assms(3) by (simp add: word_le_nat_alt)
  have len: "unat (mm_length e') = unat (mm_length e) - unat bs"
    unfolding e'_def using le by (simp add: unat_sub_nowrap)
  have bse: "unat (mm_base e') = unat (mm_base e) + unat bs"
    unfolding e'_def using le assms(1) by (simp add: wf_region_def unat_add_nowrap)
  have al: "4096 dvd unat (mm_base e)" "4096 dvd unat (mm_length e)" "4096 dvd unat bs"
    using assms(1,2) by (simp_all add: wf_region_def page_aligned_def mod_eq_0_iff_dvd)
  show "wf_region e'"
    using al assms(1) le by (simp add: wf_region_def page_aligned_def len bse mod_eq_0_iff_dvd)
  have page: "page_of (mm_base e') = page_of (mm_base e) + unat bs div 4096"
    using al by (simp add: page_of_def bse div_plus_div_distrib_dvd_left)
  have top: "unat (mm_base e') + unat (mm_length e') = unat (mm_base e) + unat (mm_length e)"
    using le by (simp add: len bse)
  have "page_of (mm_base e) + unat bs div 4096
      \<le> (unat (mm_base e) + unat (mm_length e)) div 4096"
  proof -
    have "page_of (mm_base e) + unat bs div 4096 = (unat (mm_base e) + unat bs) div 4096"
      using al by (simp add: page_of_def div_plus_div_distrib_dvd_left)
    then show ?thesis using le by (simp add: div_le_mono)
  qed
  then show "region_pages e
      = {page_of (mm_base e)..<page_of (mm_base e) + unat bs div 4096} \<union> region_pages e'"
    unfolding region_pages_def top page by auto
  show "{page_of (mm_base e)..<page_of (mm_base e) + unat bs div 4096} \<inter> region_pages e' = {}"
    unfolding region_pages_def page by auto
qed

lemma place_bitmap_spec:
  assumes "wf_memmap es" "page_aligned bs" "\<exists>e \<in> set es. usable e \<and> bs \<le> mm_length e"
  shows "\<exists>es' at. place_bitmap es bs = (es', Some at) \<and> wf_memmap es' \<and>
    usable_pages es = {page_of at..<page_of at + unat bs div 4096} \<union> usable_pages es' \<and>
    {page_of at..<page_of at + unat bs div 4096} \<inter> usable_pages es' = {}"
  using assms
proof (induction es)
  case Nil
  then show ?case by simp
next
  case (Cons e es)
  show ?case
  proof (cases "usable e \<and> bs \<le> mm_length e")
    case True
    let ?e' = "e\<lparr>mm_length := mm_length e - bs, mm_base := mm_base e + bs\<rparr>"
    have wf: "wf_region e" using True Cons.prems(1) by simp
    note carve = carve_region [OF wf Cons.prems(2) conjunct2 [OF True]]
    have "place_bitmap (e # es) bs = (?e' # es, Some (mm_base e))"
      using True by (simp add: usable_def)
    moreover have "usable ?e'" using True by (simp add: usable_def)
    ultimately show ?thesis using carve Cons.prems(1) True by auto
  next
    case False
    then have "\<exists>e \<in> set es. usable e \<and> bs \<le> mm_length e" using Cons.prems(3) by auto
    then obtain es' at where IH: "place_bitmap es bs = (es', Some at)" "wf_memmap es'"
      "usable_pages es = {page_of at..<page_of at + unat bs div 4096} \<union> usable_pages es'"
      "{page_of at..<page_of at + unat bs div 4096} \<inter> usable_pages es' = {}"
      using Cons.IH Cons.prems(1,2) by auto
    have "place_bitmap (e # es) bs = (e # es', Some at)"
      using False IH(1) by (auto simp: usable_def)
    then show ?thesis using IH Cons.prems(1) by auto
  qed
qed

lemma scan_usable_highest:
  "snd (scan_usable es f h) \<ge> h"
  by (induction es f h rule: scan_usable.induct) (auto simp: Let_def split: if_splits)

lemma scan_usable_bound:
  assumes "wf_memmap es"
  shows "usable_pages es \<subseteq> {..<unat (snd (scan_usable es f h)) div 4096}"
  using assms
proof (induction es arbitrary: f h)
  case Nil
  then show ?case by simp
next
  case (Cons e es)
  show ?case
  proof (cases "usable e")
    case False
    then show ?thesis using Cons by (simp add: usable_def)
  next
    case True
    let ?top = "mm_base e + mm_length e"
    let ?f = "f + mm_length e" and ?h = "if ?top > h then ?top else h"
    have eq: "scan_usable (e # es) f h = scan_usable es ?f ?h"
      using True by (simp add: usable_def Let_def)
    have "unat ?top = unat (mm_base e) + unat (mm_length e)"
      using Cons.prems True by (simp add: wf_region_def unat_add_nowrap)
    moreover have "?top \<le> snd (scan_usable es ?f ?h)"
      using scan_usable_highest [of ?h es ?f] by (auto split: if_splits)
    ultimately have "(unat (mm_base e) + unat (mm_length e)) div 4096
        \<le> unat (snd (scan_usable es ?f ?h)) div 4096"
      by (simp add: word_le_nat_alt div_le_mono)
    then have "region_pages e \<subseteq> {..<unat (snd (scan_usable es ?f ?h)) div 4096}"
      by (auto simp: region_pages_def)
    then show ?thesis using Cons.IH [of ?f ?h] Cons.prems True unfolding eq by simp
  qed
qed

lemma replicate_used: "free_pages (replicate n 0xFF) = {}"
proof -
  have "bit (255 :: u8) k" if "k < 8" for k
  proof -
    have "(255 :: u8) = mask 8" by (simp add: mask_eq_exp_minus_1)
    then show ?thesis using that by (simp only: bit_mask_iff) simp
  qed
  then show ?thesis by (auto simp: free_pages_def page_bit_def)
qed

text \<open>
  The bitmap's size in bytes: \<open>ALIGN_UP\<close> of the number of pages divided by 8, rounded
  down. It does not wrap, and it has a bit for every page unless the pages fill whole
  bytes of whole 4 KiB blocks and a few more pages follow.
\<close>

lemma unat_bitmap_size:
  "unat (bitmap_size h) = (unat h div 4096 div 8 + 4095) div 4096 * 4096"
proof -
  have b: "unat h div 4096 div 8 \<le> 2 ^ 49"
    using unat_less_u64 [of h] by (simp add: div_le_mono flip: div_mult2_eq)
  have d: "unat (h div 4096 div 8) = unat h div 4096 div 8" by (simp add: unat_div)
  have s: "unat (h div 4096 div 8 + 4095) = unat h div 4096 div 8 + 4095"
    using b d by (simp add: unat_word_ariths)
  have q: "unat ((h div 4096 div 8 + 4095) div 4096) = (unat h div 4096 div 8 + 4095) div 4096"
    unfolding unat_div s by simp
  have "(unat h div 4096 div 8 + 4095) div 4096 * 4096 \<le> unat h div 4096 div 8 + 4095" by simp
  then have "(unat h div 4096 div 8 + 4095) div 4096 * 4096 < 2 ^ 64" using b by simp
  then show ?thesis
    unfolding bitmap_size_def ALIGN_UP_def DIV_ROUNDUP_def
    by (simp add: unat_word_ariths(2) q)
qed

lemma bitmap_size_aligned: "page_aligned (bitmap_size h)"
  by (simp add: page_aligned_def unat_bitmap_size)

lemma bitmap_bits:
  fixes n :: nat
  shows "n \<le> 8 * ((n div 8 + 4095) div 4096 * 4096)
    \<longleftrightarrow> n mod 8 = 0 \<or> n div 8 mod 4096 \<noteq> 0"
proof -
  define q where "q = n div 8"
  have n: "n = 8 * q + n mod 8" and m: "n mod 8 < 8" by (simp_all add: q_def)
  have qq: "q = 4096 * (q div 4096) + q mod 4096" and qm: "q mod 4096 < 4096" by simp_all
  show ?thesis
  proof (cases "q mod 4096 = 0")
    case True
    then obtain k where k: "q = 4096 * k" by (auto simp: mod_eq_0_iff_dvd dvd_def)
    have "(q + 4095) div 4096 * 4096 = q" unfolding k by simp
    then show ?thesis using n True by (simp flip: q_def) linarith
  next
    case False
    obtain k r where k: "q = 4096 * k + r" "0 < r" "r < 4096"
      using False qq qm by blast
    have "(q + 4095) div 4096 = k + 1" and "q div 4096 = k"
      using k by (auto intro!: div_nat_eqI)
    then have "q + 1 \<le> (q + 4095) div 4096 * 4096" using k by simp
    then show ?thesis using n m False by (simp flip: q_def)
  qed
qed

lemma Initialize_eq:
  assumes wf: "wf_memmap es"
    and scan: "scan_usable es 0 0 = (free, highest)"
    and room: "\<exists>e \<in> set es. usable e \<and> bitmap_size highest \<le> mm_length e"
    and cover: "unat highest div 4096 \<le> 8 * unat (bitmap_size highest)"
  shows "\<exists>s es'. PhysicalMemory_Initialize m es = Inr (s, es') \<and>
    highest_addr s = highest \<and> lastI s = 0 \<and> length (bitmap s) = unat (bitmap_size highest) \<and>
    freeRam s = free - bitmap_size highest \<and> usedRam s = 0 \<and>
    pm_free s = usable_pages es' \<and>
    usable_pages es = {page_of (bitmap_at s)..<page_of (bitmap_at s)
        + unat (bitmap_size highest) div 4096} \<union> usable_pages es' \<and>
    {page_of (bitmap_at s)..<page_of (bitmap_at s) + unat (bitmap_size highest) div 4096}
      \<inter> usable_pages es' = {}"
proof -
  let ?bs = "bitmap_size highest"
  obtain es' at where pl: "place_bitmap es ?bs = (es', Some at)" "wf_memmap es'"
    "usable_pages es = {page_of at..<page_of at + unat ?bs div 4096} \<union> usable_pages es'"
    "{page_of at..<page_of at + unat ?bs div 4096} \<inter> usable_pages es' = {}"
    using place_bitmap_spec [OF wf bitmap_size_aligned room] by blast
  have "usable_pages es \<subseteq> {..<unat highest div 4096}"
    using scan_usable_bound [OF wf, of 0 0] scan by simp
  then have "usable_pages es' \<subseteq> {..<8 * length (replicate (unat ?bs) (0xFF :: u8))}"
    using pl(3) cover by auto
  from mark_usable_eq [OF pl(2) this] obtain buf where
    buf: "mark_usable (replicate (unat ?bs) 0xFF) es' = Inr buf" "length buf = unat ?bs"
    "free_pages buf = usable_pages es'"
    by (auto simp: replicate_used)
  show ?thesis
    using pl(3,4) buf
    by (simp add: PhysicalMemory_Initialize_def scan pl(1) pm_free_def)
qed

section \<open>Properties\<close>

text \<open>A small machine for the witnesses: eight pages, of which 0, 1 and 4 are in use.\<close>

definition demo_pm :: phys where
  "demo_pm = \<lparr>bitmap = [0b11001000], bitmap_at = 0x1000, lastI = 0, highest_addr = 0x8000,
     usedRam = 0, freeRam = 0x5000, ram = (\<lambda>_. 0)\<rparr>"

lemma demo_free: "pm_free demo_pm = {2, 3, 5, 6, 7}"
proof -
  have "pm_free demo_pm = set (filter (\<lambda>i. \<not> page_bit [0b11001000] i) [0..<8])"
    by (auto simp: pm_free_def free_pages_def demo_pm_def)
  also have "filter (\<lambda>i. \<not> page_bit [0b11001000] i) [0..<8] = [2, 3, 5, 6, 7]"
    by code_simp
  finally show ?thesis by simp
qed

lemma demo_pm_ok: "pm_ok demo_pm"
  by (simp add: pm_ok_def page_limit_def demo_free) (simp add: demo_pm_def)

lemma demo_alloc2:
  "PhysicalMemory_alloc demo_pm 2 = Inr (0x2000, demo_pm\<lparr>bitmap := [0b11111000], lastI := 4\<rparr>)"
  by (simp add: PhysicalMemory_alloc_def inner_alloc_def demo_pm_def inner_alloc_loop.simps
      Bitmap_SetRange.simps Bitmap_Get_def Bitmap_Set_def Let_def)

lemma demo_alloc3:
  "PhysicalMemory_alloc (demo_pm\<lparr>bitmap := [0b11111000], lastI := 4\<rparr>) 3
    = Inr (0x5000, demo_pm\<lparr>bitmap := [0b11111111], lastI := 8\<rparr>)"
  by (simp add: PhysicalMemory_alloc_def inner_alloc_def demo_pm_def inner_alloc_loop.simps
      Bitmap_SetRange.simps Bitmap_Get_def Bitmap_Set_def Let_def)

text \<open>C1. A successful \<^verbatim>\<open>PhysicalMemory::alloc\<close> returns the address of a run of \<open>n\<close> pages, all of
  them free before, below \<open>highest_addr\<close> and never page 0; exactly these pages stop being
  free, and the allocator's invariant holds again.\<close>

theorem alloc_hands_out_free_pages:
  assumes "pm_ok s" and "PhysicalMemory_alloc s n = Inr (ptr, s')"
  shows "\<exists>page. page \<noteq> 0 \<and> ptr = of_nat page * 4096 \<and> page + unat n \<le> page_limit s \<and>
    {page..<page + unat n} \<subseteq> pm_free s \<and>
    pm_free s' = pm_free s - {page..<page + unat n} \<and> pm_ok s'"
  using pm_alloc_ok(1,2) [OF assms] unfolding takes_pages_def by blast

theorem alloc_hands_out_free_pages_witness:
  "\<exists>page. page \<noteq> 0 \<and> (0x2000 :: u64) = of_nat page * 4096 \<and>
    page + 2 \<le> page_limit demo_pm \<and> {page..<page + 2} \<subseteq> pm_free demo_pm \<and>
    pm_free (demo_pm\<lparr>bitmap := [0b11111000], lastI := 4\<rparr>) = pm_free demo_pm - {page..<page + 2} \<and>
    pm_ok (demo_pm\<lparr>bitmap := [0b11111000], lastI := 4\<rparr>)"
  using alloc_hands_out_free_pages [OF demo_pm_ok demo_alloc2] by simp

text \<open>C2. \<^verbatim>\<open>PhysicalMemory::alloc\<close> fails in one way only, by halting the machine, and it does so
  exactly when the request is empty or there is no run of \<open>n\<close> free pages between the
  cursor and the end nor between 0 and the cursor (a run across the cursor is not seen).\<close>

theorem alloc_halts_iff:
  assumes "pm_ok s"
  shows "PhysicalMemory_alloc s n = Inl e \<longleftrightarrow>
    e = Halted \<and> (n = 0 \<or> \<not> (free_run (bitmap s) (unat (lastI s)) (page_limit s) (unat n) \<or>
                              free_run (bitmap s) 0 (unat (lastI s)) (unat n)))"
  using alloc_cases [OF assms, of n]
  by (auto simp: alloc_possible_def unat_gt_0 split: if_splits)

theorem alloc_halts_iff_witness:
  "PhysicalMemory_alloc demo_pm 4 = Inl Halted \<longleftrightarrow>
    Halted = Halted \<and> ((4 :: u64) = 0 \<or>
      \<not> (free_run (bitmap demo_pm) (unat (lastI demo_pm)) (page_limit demo_pm) (unat (4 :: u64)) \<or>
         free_run (bitmap demo_pm) 0 (unat (lastI demo_pm)) (unat (4 :: u64))))"
  by (rule alloc_halts_iff [OF demo_pm_ok])

text \<open>Two successful allocations one after the other never share a page.\<close>

theorem allocations_disjoint:
  assumes "pm_ok s" and "PhysicalMemory_alloc s n = Inr (p, s1)"
    and "PhysicalMemory_alloc s1 m = Inr (q, s2)"
  shows "{page_of p..<page_of p + unat n} \<inter> {page_of q..<page_of q + unat m} = {}"
  by (rule pm.two_blocks_disjoint [OF assms])

theorem allocations_disjoint_witness:
  "{page_of 0x2000..<page_of 0x2000 + 2} \<inter> {page_of 0x5000..<page_of 0x5000 + 3} = {}"
  using allocations_disjoint [OF demo_pm_ok demo_alloc2 demo_alloc3] by simp

text \<open>C3. Freeing a block just allocated succeeds and gives back the set of free pages from before
  the allocation, with the invariant intact.\<close>

theorem alloc_free_roundtrip:
  assumes "pm_ok s" and "PhysicalMemory_alloc s n = Inr (ptr, s1)"
  shows "\<exists>s2. PhysicalMemory_free s1 ptr n = Inr s2 \<and> pm_free s2 = pm_free s \<and> pm_ok s2"
  by (rule pm.alloc_then_release [OF assms])

theorem alloc_free_roundtrip_witness:
  "\<exists>s2. PhysicalMemory_free (demo_pm\<lparr>bitmap := [0b11111000], lastI := 4\<rparr>) 0x2000 2 = Inr s2 \<and>
    pm_free s2 = {2, 3, 5, 6, 7} \<and> pm_ok s2"
  using alloc_free_roundtrip [OF demo_pm_ok demo_alloc2] by (simp add: demo_free)

text \<open>The counters do not follow the bitmap. An allocation served between the cursor and the
  end neither clears the pages nor counts them, so allocating and freeing the same block
  leaves the free pages as they were but lowers \<open>usedRam\<close> by the size of the block
  (below 0, modulo \<open>2^64\<close>) and raises \<open>freeRam\<close> by it.\<close>

theorem cursor_alloc_uncounted:
  assumes "pm_ok s" and "0 < n"
    and "free_run (bitmap s) (unat (lastI s)) (page_limit s) (unat n)"
  shows "\<exists>ptr s1 s2. PhysicalMemory_alloc s n = Inr (ptr, s1) \<and> ram s1 = ram s \<and>
    usedRam s1 = usedRam s \<and> PhysicalMemory_free s1 ptr n = Inr s2 \<and> pm_free s2 = pm_free s \<and>
    usedRam s2 = usedRam s - n * 4096 \<and> freeRam s2 = freeRam s + n * 4096"
proof -
  have "alloc_possible s (unat n)"
    using assms(2,3) by (simp add: alloc_possible_def unat_gt_0 word_greater_zero_iff)
  note cases = alloc_cases [OF assms(1), of n, unfolded if_P [OF this] if_P [OF assms(3)]]
  then obtain ptr s1 where a: "PhysicalMemory_alloc s n = Inr (ptr, s1)"
    "ram s1 = ram s" "usedRam s1 = usedRam s" "freeRam s1 = freeRam s"
    by blast
  obtain s2 where r: "PhysicalMemory_free s1 ptr n = Inr s2" "pm_free s2 = pm_free s"
    using pm.alloc_then_release [OF assms(1) a(1)] by blast
  have "usedRam s2 = usedRam s1 - n * 4096 \<and> freeRam s2 = freeRam s1 + n * 4096"
    using r(1) by (auto simp: PhysicalMemory_free_def Let_def bindE_eq_Inr)
  then show ?thesis using a r by auto
qed

lemma demo_run: "free_run (bitmap demo_pm) (unat (lastI demo_pm)) (page_limit demo_pm) 2"
proof -
  have "{2..<2 + 2} = {2, 3 :: nat}" by auto
  then have "{2..<2 + 2} \<subseteq> free_pages (bitmap demo_pm)"
    using demo_free by (simp add: pm_free_def)
  moreover have "unat (lastI demo_pm) \<le> 2" "2 + 2 \<le> page_limit demo_pm"
    by (simp_all add: demo_pm_def page_limit_def)
  ultimately show ?thesis unfolding free_run_def by blast
qed

theorem cursor_alloc_uncounted_witness:
  "\<exists>ptr s1 s2. PhysicalMemory_alloc demo_pm 2 = Inr (ptr, s1) \<and> ram s1 = ram demo_pm \<and>
    usedRam s1 = usedRam demo_pm \<and> PhysicalMemory_free s1 ptr 2 = Inr s2 \<and>
    pm_free s2 = pm_free demo_pm \<and>
    usedRam s2 = usedRam demo_pm - 2 * 4096 \<and> freeRam s2 = freeRam demo_pm + 2 * 4096"
  using cursor_alloc_uncounted [OF demo_pm_ok, of 2] demo_run by simp



text \<open>A memory map with a reserved first page and 16 usable pages.\<close>

definition demo_map :: "mmap_entry list" where
  "demo_map = [\<lparr>mm_base = 0, mm_length = 0x1000, mm_type = 1\<rparr>,
               \<lparr>mm_base = 0x10000, mm_length = 0x10000, mm_type = 0\<rparr>]"

lemma demo_map_facts:
  "wf_memmap demo_map" "scan_usable demo_map 0 0 = (0x10000, 0x20000)"
  "\<exists>e \<in> set demo_map. usable e \<and> bitmap_size 0x20000 \<le> mm_length e"
  "unat (0x20000 :: u64) div 4096 \<le> 8 * unat (bitmap_size 0x20000)"
  "usable_pages demo_map = {16..<32}" "bitmap_size 0x20000 = 0x1000"
  by (simp_all add: demo_map_def usable_def wf_region_def page_aligned_def page_of_def
      LIMINE_MEMMAP_USABLE_def bitmap_size_def ALIGN_UP_def DIV_ROUNDUP_def region_pages_def)


text \<open>The bitmap that \<^verbatim>\<open>Initialize\<close> sizes has a bit for every page below the highest usable
  address exactly when the number of pages is a multiple of 8 or does not fill a whole number
  of 4 KiB blocks of the bitmap; the size in bytes never wraps.\<close>

theorem bitmap_covers_iff:
  "unat highest div 4096 \<le> 8 * unat (bitmap_size highest) \<longleftrightarrow>
    unat highest div 4096 mod 8 = 0 \<or> unat highest div 4096 div 8 mod 4096 \<noteq> 0"
  unfolding unat_bitmap_size by (rule bitmap_bits)

theorem bitmap_covers_iff_witness:
  "unat (0x8001000 :: u64) div 4096 \<le> 8 * unat (bitmap_size 0x8001000) \<longleftrightarrow>
    unat (0x8001000 :: u64) div 4096 mod 8 = 0 \<or> unat (0x8001000 :: u64) div 4096 div 8 mod 4096 \<noteq> 0"
  by (rule bitmap_covers_iff)

text \<open>Where it does not, marking the last page free writes past the bitmap: with usable memory
  up to 128 MiB and one page, \<^verbatim>\<open>Initialize\<close> goes out of bounds.\<close>

theorem initialize_out_of_bounds:
  "PhysicalMemory_Initialize m
    [\<lparr>mm_base = 0x10000, mm_length = 0x2000, mm_type = 0\<rparr>,
     \<lparr>mm_base = 0x8000000, mm_length = 0x1000, mm_type = 0\<rparr>] = Inl OutOfBounds"
  by (simp add: PhysicalMemory_Initialize_def LIMINE_MEMMAP_USABLE_def bitmap_size_def
      ALIGN_UP_def DIV_ROUNDUP_def mark_region.simps Bitmap_Set_def)

end
