(* ===== verification/Vmm.thy ===== *)
theory Vmm
  imports Pmm
begin

text \<open>
  Four-level page tables, \<^verbatim>\<open>src/src/mm/vmm.cpp\<close> and \<^verbatim>\<open>src/src/include/mm/vmm.h\<close>: \<^verbatim>\<open>MapPage\<close>
  walks from the root table to the last-level table, allocating and clearing a page for
  each table that is missing, and stores the entry. Tables live in the physical memory
  \<open>ram\<close> of the page allocator's state and are named by their physical address (the code adds
  the direct map's offset before each access). The second half of the theory shows
  that \<^verbatim>\<open>MapPage\<close> is the update of one page of an abstract address space, and that the walk of
  an x86-64 memory management unit sees exactly that.
\<close>

section \<open>Page flags\<close>

definition PF_present :: u64 where "PF_present = 1"
definition PF_readwrite :: u64 where "PF_readwrite = 2"
definition PF_user :: u64 where "PF_user = 4"
definition PF_pagewritethrough :: u64 where "PF_pagewritethrough = 8"
definition PF_cachedisable :: u64 where "PF_cachedisable = 16"
definition PF_xd :: u64 where "PF_xd = push_bit 63 1"

definition FLAG_MASK :: u64 where "FLAG_MASK = 0x800000000000007F"

lemmas page_flags = PF_present_def PF_readwrite_def PF_user_def PF_pagewritethrough_def
  PF_cachedisable_def PF_xd_def FLAG_MASK_def

section \<open>MapPage\<close>

text \<open>The address of the entry \<open>table->entries[i]\<close> of a table of 64-bit entries.\<close>

definition slot :: "u64 \<Rightarrow> u64 \<Rightarrow> u64" where
  "slot table i = table + 8 * i"

text \<open>
  One step down: make sure the entry at index \<open>i\<close> is there, and return the address of the
  table it points to. The source writes this block three times, once for each upper level.
\<close>

definition ensure_table :: "phys \<Rightarrow> u64 \<Rightarrow> u64 \<Rightarrow> phys result" where
  "ensure_table s table i =
     (if ld64 (ram s) (slot table i) = 0 then
        bindE (PhysicalMemory_alloc s 1)
          (\<lambda>(addr, s1).
             let m = memset (ram s1) addr 0 4096;
                 entry = addr OR (PF_present OR PF_readwrite OR PF_user)
             in Inr (s1\<lparr>ram := st64 m (slot table i) entry\<rparr>))
      else Inr s)"

definition next_table :: "phys \<Rightarrow> u64 \<Rightarrow> u64 \<Rightarrow> (u64 \<times> phys) result" where
  "next_table s table i =
     bindE (ensure_table s table i)
       (\<lambda>s'. Inr (ld64 (ram s') (slot table i) AND NOT FLAG_MASK, s'))"

definition VirtualMemory_MapPage ::
  "phys \<Rightarrow> u64 \<Rightarrow> u64 \<Rightarrow> u64 \<Rightarrow> u64 \<Rightarrow> phys result" where
  "VirtualMemory_MapPage s root vaddr paddr flags =
     (let pml4index = drop_bit 39 vaddr AND 0x1ff;
          dirptrindex = drop_bit 30 vaddr AND 0x1ff;
          dirindex = drop_bit 21 vaddr AND 0x1ff;
          tableindex = drop_bit 12 vaddr AND 0x1ff
      in bindE (next_table s root pml4index) (\<lambda>(pdpt, s1).
         bindE (next_table s1 pdpt dirptrindex) (\<lambda>(pdt, s2).
         bindE (next_table s2 pdt dirindex) (\<lambda>(pt, s3).
         Inr (s3\<lparr>ram := st64 (ram s3) (slot pt tableindex) (paddr OR flags)\<rparr>)))))"

text \<open>
  The loop \<^verbatim>\<open>for (i = 0; i < len; i += 4096) MapPage(root, vaddr + i, paddr + i, flags)\<close>, which the
  kernel uses for its image, the direct map, the framebuffer and thread stacks. When the
  counter wraps, the loop starts again at 0 and never ends.
\<close>

function map_range ::
  "phys \<Rightarrow> u64 \<Rightarrow> u64 \<Rightarrow> u64 \<Rightarrow> u64 \<Rightarrow> u64 \<Rightarrow> u64 \<Rightarrow> phys result" where
  "map_range s root vaddr paddr len flags i =
     (if i < len
      then bindE (VirtualMemory_MapPage s root (vaddr + i) (paddr + i) flags)
             (\<lambda>s'. if i + 4096 < i then Inl Diverges
                   else map_range s' root vaddr paddr len flags (i + 4096))
      else Inr s)"
  by pat_completeness auto
termination
proof (relation "measure (\<lambda>(s, root, vaddr, paddr, len, flags, i). unat len - unat i)")
  fix s s' :: phys and root vaddr paddr len flags i :: u64
  assume "i < len" and "\<not> i + 4096 < i"
  then show "((s', root, vaddr, paddr, len, flags, i + 4096), s, root, vaddr, paddr, len, flags, i)
      \<in> measure (\<lambda>(s, root, vaddr, paddr, len, flags, i). unat len - unat i)"
    using unat_step_less [of i len 4096] by simp
qed simp

declare map_range.simps [simp del]

section \<open>The kernel's address space\<close>

record vmm =
  vm_phys :: phys
  kernelDir :: u64
  currentDir :: u64
  cr3 :: u64

definition GetCurrentPML4 :: "vmm \<Rightarrow> u64" where
  "GetCurrentPML4 v = currentDir v"

definition SetCurrentPML4 :: "vmm \<Rightarrow> u64 \<Rightarrow> vmm" where
  "SetCurrentPML4 v table = v\<lparr>currentDir := table\<rparr>"

definition SwapToPageTable :: "vmm \<Rightarrow> u64 \<Rightarrow> vmm" where
  "SwapToPageTable v page = v\<lparr>currentDir := page, cr3 := page\<rparr>"

definition SwapToKernelPT :: "vmm \<Rightarrow> vmm" where
  "SwapToKernelPT v = SwapToPageTable v (kernelDir v)"

text \<open>
  What \<^verbatim>\<open>Initialize\<close> reads from the boot loader: where the kernel image lies, the direct
  map's offset, and the address of the framebuffer.
\<close>

record boot_info =
  physical_base :: u64
  virtual_base :: u64
  kernel_size :: u64
  hhdm_offset :: u64
  fb_address :: u64

fun find_framebuffer :: "mmap_entry list \<Rightarrow> u64 \<times> u64" where
  "find_framebuffer [] = (0, 0)"
| "find_framebuffer (e # es) =
     (if mm_type e \<noteq> LIMINE_MEMMAP_FRAMEBUFFER then find_framebuffer es
      else (mm_base e, mm_length e))"

definition VirtualMemory_Initialize ::
  "boot_info \<Rightarrow> mmap_entry list \<Rightarrow> vmm \<Rightarrow> vmm result" where
  "VirtualMemory_Initialize b mmap v =
     bindE (PhysicalMemory_alloc (vm_phys v) (4096 div 4096)) (\<lambda>(dir, s0).
     let s1 = s0\<lparr>ram := memset (ram s0) dir 0 4096\<rparr>;
         rw = PF_present OR PF_readwrite
     in bindE (map_range s1 dir (virtual_base b) (physical_base b) (kernel_size b) rw 0) (\<lambda>s2.
        bindE (map_range s2 dir (hhdm_offset b) 0 0x100000000 rw 0) (\<lambda>s3.
        let (phyAddr, len) = find_framebuffer mmap
        in if phyAddr = 0 then Inl Halted
           else bindE (map_range s3 dir (fb_address b) phyAddr len rw 0) (\<lambda>s4.
                Inr (SwapToPageTable (v\<lparr>vm_phys := s4, kernelDir := dir\<rparr>) dir)))))"

section \<open>Slots of page-sized tables\<close>

lemma page_alignedE:
  assumes "page_aligned p"
  obtains q where "unat p = 4096 * q"
  using assms by (auto simp: page_aligned_def)

lemma unat_slot:
  assumes "page_aligned t" "i < 512"
  shows "unat (slot t i) = unat t + 8 * unat i"
proof -
  have i: "unat i < 512" using assms(2) by (simp add: word_less_nat_alt)
  obtain k where k: "unat t = 4096 * k" using assms(1) by (rule page_alignedE)
  have "k < 2 ^ 52" using k unat_less_u64 [of t] by simp
  then have "unat t + 8 * unat i < 2 ^ 64" using k i by simp
  moreover have "unat (8 * i) = 8 * unat i" using i by (simp add: unat_word_ariths)
  ultimately show ?thesis unfolding slot_def by (simp add: unat_add_nowrap)
qed

lemma page_of_slot:
  assumes "page_aligned t" "i < 512" "k < 8"
  shows "page_of (slot t i + k) = page_of t" "unat (slot t i + k) = unat t + 8 * unat i + unat k"
proof -
  have i: "unat i < 512" and k: "unat k < 8"
    using assms(2,3) by (simp_all add: word_less_nat_alt)
  obtain q where q: "unat t = 4096 * q" using assms(1) by (rule page_alignedE)
  have "q < 2 ^ 52" using q unat_less_u64 [of t] by simp
  then have "unat (slot t i) + unat k < 2 ^ 64" using q i k unat_slot [OF assms(1,2)] by simp
  then show u: "unat (slot t i + k) = unat t + 8 * unat i + unat k"
    using unat_slot [OF assms(1,2)] by (simp add: unat_add_nowrap)
  have "(4096 * q + (8 * unat i + unat k)) div 4096 = q" using i k by simp
  then show "page_of (slot t i + k) = page_of t"
    using u q by (simp add: page_of_def add.assoc)
qed

lemma slot_inj:
  assumes "page_aligned t" "page_aligned u" "i < 512" "j < 512" "slot t i = slot u j"
  shows "t = u \<and> i = j"
proof -
  obtain q where q: "unat t = 4096 * q" using assms(1) by (rule page_alignedE)
  obtain r where r: "unat u = 4096 * r" using assms(2) by (rule page_alignedE)
  have lt: "unat i < 512" "unat j < 512" using assms(3,4) by (simp_all add: word_less_nat_alt)
  have eq: "4096 * q + 8 * unat i = 4096 * r + 8 * unat j"
    using unat_slot [OF assms(1,3)] unat_slot [OF assms(2,4)] assms(5) q r by simp
  then have "512 * q + unat i = 512 * r + unat j" by simp
  then have "(512 * q + unat i) div 512 = (512 * r + unat j) div 512" by simp
  then have "q = r" using lt by simp
  then have "unat t = unat u" "unat i = unat j" using q r eq by simp_all
  then show ?thesis by (simp add: word_unat_eq_iff)
qed

lemma dist_8:
  fixes a b :: u64
  assumes "unat a mod 8 = 0" "unat b mod 8 = 0" "a \<noteq> b"
  shows "8 \<le> unat (a - b)"
proof -
  have "8 dvd unat (a - b)"
  proof (cases "unat b \<le> unat a")
    case True
    then show ?thesis using assms(1,2) by (simp add: unat_sub_nowrap mod_eq_0_iff_dvd)
  next
    case False
    have "unat (a - b) = 2 ^ 64 - (unat b - unat a)"
      using False unat_less_u64 [of b] by (simp add: unat_sub_if_size word_size)
    moreover have "8 dvd unat b - unat a" and "(8::nat) dvd 2 ^ 64"
      using assms(1,2) by (simp_all add: mod_eq_0_iff_dvd)
    ultimately show ?thesis by (simp add: dvd_diff_nat)
  qed
  moreover have "0 < unat (a - b)" using assms(3) by (simp add: unat_gt_0)
  ultimately show ?thesis by (rule dvd_imp_le)
qed

lemma slot_aligned8: "page_aligned t \<Longrightarrow> i < 512 \<Longrightarrow> unat (slot t i) mod 8 = 0"
  by (auto simp: unat_slot page_aligned_def mod_eq_0_iff_dvd)

lemma ld64_st64_slot:
  assumes "page_aligned t" "page_aligned u" "i < 512" "j < 512"
  shows "ld64 (st64 m (slot t i) v) (slot u j) = (if u = t \<and> j = i then v else ld64 m (slot u j))"
proof (cases "u = t \<and> j = i")
  case True
  then show ?thesis by (simp add: ld64_st64)
next
  case False
  then have "slot u j \<noteq> slot t i" using slot_inj [OF assms(2,1,4,3)] by auto
  then have "8 \<le> unat (slot u j - slot t i)" "8 \<le> unat (slot t i - slot u j)"
    using assms by (auto intro!: dist_8 simp: slot_aligned8)
  then have "ld64 (st64 m (slot t i) v) (slot u j) = ld64 m (slot u j)"
    by (rule ld64_st64_other)
  then show ?thesis using False by auto
qed

text \<open>Clearing a whole page.\<close>

lemma in_page_iff:
  assumes "page_aligned p"
  shows "unat (x - p) < 4096 \<longleftrightarrow> page_of x = page_of p"
proof -
  obtain q where q: "unat p = 4096 * q" using assms by (rule page_alignedE)
  have pq: "page_of p = q" using q by (simp add: page_of_def)
  note lt = unat_less_u64 [of p] unat_less_u64 [of x]
  show ?thesis
  proof (cases "unat p \<le> unat x")
    case True
    then have "unat (x - p) = unat x - 4096 * q" using q by (simp add: unat_sub_nowrap)
    moreover obtain r where "unat x = 4096 * q + r" using True q le_Suc_ex by auto
    ultimately show ?thesis by (simp add: page_of_def pq [unfolded page_of_def] div_eq_0_iff)
  next
    case False
    have "unat (x - p) = 2 ^ 64 - (unat p - unat x)"
      using False lt by (simp add: unat_sub_if_size word_size)
    moreover have "4096 \<le> 2 ^ 64 - unat p"
      using lt q by simp
    ultimately have "\<not> unat (x - p) < 4096" using False by simp
    moreover have "page_of x \<noteq> page_of p"
      using False q by (simp add: page_of_def less_mult_imp_div_less mult.commute)
    ultimately show ?thesis by simp
  qed
qed

lemma memset_page:
  assumes "page_aligned p"
  shows "memset m p v 4096 x = (if page_of x = page_of p then v else m x)"
  using memset_apply [of 4096 m p v x] in_page_iff [OF assms] by simp

lemma ld64_memset_page:
  assumes "page_aligned p" "page_aligned t" "i < 512"
  shows "ld64 (memset m p 0 4096) (slot t i) = (if page_of t = page_of p then 0 else ld64 m (slot t i))"
proof (cases "page_of t = page_of p")
  case True
  then show ?thesis
    using assms by (auto intro!: ld64_zero simp: memset_page page_of_slot)
next
  case False
  then have "ld64 (memset m p 0 4096) (slot t i) = ld64 m (slot t i)"
    using assms by (intro ld64_cong) (simp add: memset_page page_of_slot)
  then show ?thesis using False by simp
qed


section \<open>Tables reachable from a root\<close>

definition ent :: "mem \<Rightarrow> u64 \<Rightarrow> u64 \<Rightarrow> u64" where
  "ent m t i = ld64 m (slot t i)"

text \<open>The table at the end of a path of indices, following the code's own masking.\<close>

fun tbl :: "mem \<Rightarrow> u64 \<Rightarrow> u64 list \<Rightarrow> u64 option" where
  "tbl m t [] = Some t"
| "tbl m t (i # is) =
     (if ent m t i = 0 then None else tbl m (ent m t i AND NOT FLAG_MASK) is)"

definition valid_path :: "u64 list \<Rightarrow> bool" where
  "valid_path p \<longleftrightarrow> length p \<le> 3 \<and> (\<forall>i \<in> set p. i < 512)"

text \<open>The entry for a page: 0 when a table on the way is missing.\<close>

definition leaf :: "mem \<Rightarrow> u64 \<Rightarrow> u64 list \<Rightarrow> u64 \<Rightarrow> u64" where
  "leaf m root p i = (case tbl m root p of None \<Rightarrow> 0 | Some t \<Rightarrow> ent m t i)"

lemma tbl_snoc:
  "tbl m t (p @ [i]) = (case tbl m t p of None \<Rightarrow> None | Some u \<Rightarrow>
     if ent m u i = 0 then None else Some (ent m u i AND NOT FLAG_MASK))"
  by (induction p arbitrary: t) simp_all

lemma tbl_snoc_Some:
  "tbl m t (p @ [i]) = Some v \<longleftrightarrow>
     (\<exists>u. tbl m t p = Some u \<and> ent m u i \<noteq> 0 \<and> v = ent m u i AND NOT FLAG_MASK)"
  by (auto simp: tbl_snoc split: option.splits)

lemma valid_path_snoc:
  "valid_path (p @ [i]) \<longleftrightarrow> valid_path p \<and> length p < 3 \<and> i < 512"
  by (auto simp: valid_path_def)

text \<open>
  The invariant of a tree of tables: every table is a page of its own that the allocator
  does not hold free, and an upper level's entry carries the permissions present,
  read-write and user (the processor may set the accessed bit, which \<open>FLAG_MASK\<close> strips).
\<close>

definition good_table :: "phys \<Rightarrow> u64 \<Rightarrow> bool" where
  "good_table s t \<longleftrightarrow> page_aligned t \<and> page_of t \<notin> pm_free s \<and> page_of t < 2 ^ 40"

definition pt_inv :: "phys \<Rightarrow> u64 \<Rightarrow> bool" where
  "pt_inv s root \<longleftrightarrow>
     (\<forall>p t. valid_path p \<longrightarrow> tbl (ram s) root p = Some t \<longrightarrow> good_table s t) \<and>
     (\<forall>p q t. valid_path p \<longrightarrow> valid_path q \<longrightarrow> tbl (ram s) root p = Some t \<longrightarrow>
        tbl (ram s) root q = Some t \<longrightarrow> p = q) \<and>
     (\<forall>p t i. valid_path p \<longrightarrow> length p < 3 \<longrightarrow> tbl (ram s) root p = Some t \<longrightarrow> i < 512 \<longrightarrow>
        ent (ram s) t i \<noteq> 0 \<longrightarrow> ent (ram s) t i AND 7 = 7)"

text \<open>Physical addresses of x86-64 have at most 52 bits, so there are at most \<open>2^40\<close> pages.\<close>

definition vm_ok :: "phys \<Rightarrow> u64 \<Rightarrow> bool" where
  "vm_ok s root \<longleftrightarrow> pm_ok s \<and> page_limit s \<le> 2 ^ 40 \<and> pt_inv s root"

lemma pt_invD:
  assumes "pt_inv s root" "valid_path p" "tbl (ram s) root p = Some t"
  shows "good_table s t"
    and "valid_path q \<Longrightarrow> tbl (ram s) root q = Some t \<Longrightarrow> p = q"
    and "length p < 3 \<Longrightarrow> i < 512 \<Longrightarrow> ent (ram s) t i \<noteq> 0 \<Longrightarrow> ent (ram s) t i AND 7 = 7"
  using assms unfolding pt_inv_def by blast+

section \<open>Addresses and flags\<close>

lemma aligned_bits: "page_aligned a \<Longrightarrow> n < 12 \<Longrightarrow> \<not> bit a n"
proof -
  assume "page_aligned a" "n < 12"
  then have "unat (take_bit 12 a) = 0"
    by (simp add: take_bit_eq_mod page_aligned_def unat_mod)
  then have "take_bit 12 a = 0" by (simp add: unat_eq_zero)
  then have "\<not> bit (take_bit 12 a) n" by simp
  then show ?thesis using \<open>n < 12\<close> by (simp add: bit_take_bit_iff)
qed

lemma low_page_bits: "page_of a < 2 ^ 40 \<Longrightarrow> 52 \<le> n \<Longrightarrow> \<not> bit a n"
proof -
  assume "page_of a < 2 ^ 40" "52 \<le> n"
  then have "unat a < 2 ^ 52" by (simp add: page_of_def div_less_iff_less_mult)
  then have "unat (drop_bit 52 a) = 0" by (simp add: drop_bit_eq_div unat_div)
  then have "drop_bit 52 a = 0" by (simp add: unat_eq_zero)
  then have "\<not> bit (drop_bit 52 a) (n - 52)" by simp
  then show ?thesis using \<open>52 \<le> n\<close> by (simp add: bit_drop_bit_eq)
qed

lemma flag_mask_bits: "bit FLAG_MASK n \<longleftrightarrow> n < 7 \<or> n = 63"
proof -
  have e: "FLAG_MASK = mask 7 OR push_bit 63 1"
    by (simp add: FLAG_MASK_def mask_eq_exp_minus_1)
  show ?thesis
    unfolding e by (simp only: bit_or_iff bit_mask_iff bit_push_bit_iff bit_1_iff) auto
qed

lemma seven_bits: "bit (7 :: u64) n \<longleftrightarrow> n < 3"
proof -
  have e: "(7 :: u64) = mask 3" by (simp add: mask_eq_exp_minus_1)
  show ?thesis unfolding e by (simp only: bit_mask_iff) auto
qed

lemma entry_roundtrip:
  assumes "page_aligned a" "page_of a < 2 ^ 40"
  shows "(a OR 7) AND NOT FLAG_MASK = a"
proof (rule bit_word_eqI)
  fix n assume "n < LENGTH(64)"
  then show "bit ((a OR 7) AND NOT FLAG_MASK) n \<longleftrightarrow> bit a n"
    using aligned_bits [OF assms(1), of n] low_page_bits [OF assms(2), of n]
    by (simp only: bit_and_iff bit_or_iff bit_not_iff flag_mask_bits seven_bits) auto
qed

lemma entry_nonzero: "(a :: u64) OR 7 \<noteq> 0"
proof
  assume "a OR 7 = 0"
  then have "\<not> bit (a OR 7) 0" by simp
  then show False by (simp add: bit_simps seven_bits)
qed

lemma or_seven_and: "((a :: u64) OR 7) AND 7 = 7"
  by (rule bit_word_eqI) (auto simp: bit_and_iff bit_or_iff)

lemma permissions_seven: "PF_present OR PF_readwrite OR PF_user = 7"
  by (simp add: page_flags)

section \<open>One page from the allocator\<close>

lemma alloc_page:
  assumes "pm_ok s" "PhysicalMemory_alloc s 1 = Inr (a, s1)"
  shows "page_aligned a" "page_of a \<in> pm_free s" "page_of a < page_limit s"
    "pm_free s1 = pm_free s - {page_of a}" "pm_ok s1" "page_limit s1 = page_limit s"
    "memset (ram s1) a 0 4096 = memset (ram s) a 0 4096"
proof -
  note blk = pm.alloc_block [OF assms] pm.alloc_one [OF assms]
  show al: "page_aligned a" and "page_of a \<in> pm_free s" "pm_free s1 = pm_free s - {page_of a}"
    using blk by blast+
  show "pm_ok s1" "page_limit s1 = page_limit s"
    using pm_alloc_ok [OF assms] by simp_all
  obtain page where pg: "page + 1 \<le> page_limit s" "a = of_nat page * 4096"
    using pm_alloc_ok(2) [OF assms] by (auto simp: takes_pages_def)
  then have "page_of a = page" using page_limit_bound [of s] by (simp add: page_addr_facts)
  then show "page_of a < page_limit s" using pg(1) by simp
  have "ram s1 = ram s \<or> ram s1 = memset (ram s) a 0 4096"
    using alloc_cases [OF assms(1), of 1] assms(2) by (auto split: if_splits)
  then show "memset (ram s1) a 0 4096 = memset (ram s) a 0 4096"
    by (auto simp: fun_eq_iff memset_page [OF al])
qed


section \<open>One level down\<close>

text \<open>
  Abstractly, adding the table \<open>a\<close> at entry \<open>i\<close> of the table \<open>t\<close> changes that entry and
  clears the row \<open>a\<close>.
\<close>

definition adds_table :: "mem \<Rightarrow> mem \<Rightarrow> u64 \<Rightarrow> u64 \<Rightarrow> u64 \<Rightarrow> bool" where
  "adds_table m m' t i a \<longleftrightarrow> page_of a \<noteq> page_of t \<and> (a OR 7) AND NOT FLAG_MASK = a \<and>
     (\<forall>u j. page_aligned u \<longrightarrow> j < 512 \<longrightarrow>
        ent m' u j = (if u = t \<and> j = i then a OR 7
                      else if page_of u = page_of a then 0 else ent m u j))"

lemma adds_tableD:
  "adds_table m m' t i a \<Longrightarrow> page_aligned u \<Longrightarrow> j < 512 \<Longrightarrow>
     ent m' u j = (if u = t \<and> j = i then a OR 7
                   else if page_of u = page_of a then 0 else ent m u j)"
  unfolding adds_table_def by blast

lemma adds_table_keeps:
  assumes "adds_table m m' t i a" "ent m t i = 0"
    and "\<And>q u. valid_path q \<Longrightarrow> tbl m root q = Some u \<Longrightarrow> page_aligned u \<and> page_of u \<noteq> page_of a"
    and "valid_path q" "tbl m root q = Some u"
  shows "tbl m' root q = Some u"
  using assms(4,5)
proof (induction q arbitrary: u rule: rev_induct)
  case Nil
  then show ?case by simp
next
  case (snoc k q)
  then obtain w where w: "tbl m root q = Some w" "ent m w k \<noteq> 0"
    "u = ent m w k AND NOT FLAG_MASK" and v: "valid_path q" "k < 512"
    by (auto simp: tbl_snoc_Some valid_path_snoc)
  have "ent m' w k = ent m w k"
    using adds_tableD [OF assms(1), of w k] assms(2) assms(3) [OF v(1) w(1)] v(2) w(2) by auto
  then show ?case using snoc.IH [OF v(1) w(1)] w by (simp add: tbl_snoc_Some)
qed

lemma adds_table_tables:
  assumes "adds_table m m' t i a" "ent m t i = 0"
    and fresh: "\<And>q u. valid_path q \<Longrightarrow> tbl m root q = Some u \<Longrightarrow>
      page_aligned u \<and> page_of u \<noteq> page_of a"
    and inj: "\<And>q. valid_path q \<Longrightarrow> tbl m root q = Some t \<Longrightarrow> q = p"
    and "page_aligned a" "valid_path q" "tbl m' root q = Some u"
  shows "tbl m root q = Some u \<or> (q = p @ [i] \<and> u = a)"
  using assms(6,7)
proof (induction q arbitrary: u rule: rev_induct)
  case Nil
  then show ?case by simp
next
  case (snoc k q)
  then obtain w where w: "tbl m' root q = Some w" "ent m' w k \<noteq> 0"
    "u = ent m' w k AND NOT FLAG_MASK" and v: "valid_path q" "k < 512"
    by (auto simp: tbl_snoc_Some valid_path_snoc)
  have "w \<noteq> a"
  proof
    assume "w = a"
    then have "ent m' w k = 0"
      using adds_tableD [OF assms(1,5) v(2)] assms(1) by (auto simp: adds_table_def)
    then show False using w(2) by simp
  qed
  then have old: "tbl m root q = Some w" using snoc.IH [OF v(1) w(1)] by blast
  note e = adds_tableD [OF assms(1) conjunct1 [OF fresh [OF v(1) old]] v(2)]
  show ?case
  proof (cases "w = t \<and> k = i")
    case True
    then show ?thesis
      using e w(3) inj [OF v(1)] old assms(1) by (auto simp: adds_table_def)
  next
    case False
    then have "ent m' w k = ent m w k" using e fresh [OF v(1) old] by auto
    then show ?thesis using old w(2,3) by (simp add: tbl_snoc_Some)
  qed
qed

definition keeps_tables :: "mem \<Rightarrow> mem \<Rightarrow> u64 \<Rightarrow> bool" where
  "keeps_tables m m' root \<longleftrightarrow>
     (\<forall>q u. valid_path q \<longrightarrow> tbl m root q = Some u \<longrightarrow> tbl m' root q = Some u) \<and>
     (\<forall>q j. valid_path q \<longrightarrow> length q = 3 \<longrightarrow> j < 512 \<longrightarrow> leaf m' root q j = leaf m root q j)"

lemma keeps_tables_refl: "keeps_tables m m root"
  by (simp add: keeps_tables_def)

lemma keeps_tables_trans:
  "keeps_tables m m1 root \<Longrightarrow> keeps_tables m1 m2 root \<Longrightarrow> keeps_tables m m2 root"
  by (auto simp: keeps_tables_def)

lemma adds_table_inv:
  assumes inv: "pt_inv s root" and p: "valid_path p" "length p < 3" "i < 512"
    and t: "tbl (ram s) root p = Some t" "ent (ram s) t i = 0"
    and a: "page_aligned a" "page_of a \<in> pm_free s" "page_of a < 2 ^ 40"
    and add: "adds_table (ram s) (ram s') t i a"
    and free: "pm_free s' = pm_free s - {page_of a}"
  shows "pt_inv s' root" "keeps_tables (ram s) (ram s') root"
    "tbl (ram s') root (p @ [i]) = Some a"
    "\<And>q u. valid_path q \<Longrightarrow> tbl (ram s') root q = Some u \<Longrightarrow> tbl (ram s) root q = Some u \<or> u = a"
proof -
  have fresh: "page_aligned u \<and> page_of u \<noteq> page_of a"
    if "valid_path q" "tbl (ram s) root q = Some u" for q u
    using pt_invD(1) [OF inv that] a(2) by (auto simp: good_table_def)
  have inj: "q = p" if "valid_path q" "tbl (ram s) root q = Some t" for q
    using pt_invD(2) [OF inv that p(1) t(1)] by simp
  have keep: "tbl (ram s') root q = Some u"
    if "valid_path q" "tbl (ram s) root q = Some u" for q u
    by (rule adds_table_keeps [OF add t(2) _ that]) (rule fresh)
  have tabs: "tbl (ram s) root q = Some u \<or> q = p @ [i] \<and> u = a"
    if "valid_path q" "tbl (ram s') root q = Some u" for q u
    by (rule adds_table_tables [OF add t(2) _ _ a(1) that]) (use fresh inj in blast)+
  have na: "tbl (ram s) root q \<noteq> Some a" if "valid_path q" for q
    using fresh [OF that, of a] by auto
  have vp: "valid_path (p @ [i])" using p by (simp add: valid_path_snoc)
  have et: "ent (ram s') t i = a OR 7"
    using adds_tableD [OF add _ p(3)] fresh [OF p(1) t(1)] by simp
  show new: "tbl (ram s') root (p @ [i]) = Some a"
    using keep [OF p(1) t(1)] et add entry_nonzero [of a]
    by (simp add: tbl_snoc_Some adds_table_def)
  show "tbl (ram s) root q = Some u \<or> u = a" if "valid_path q" "tbl (ram s') root q = Some u" for q u
    using tabs [OF that] by blast
  show "keeps_tables (ram s) (ram s') root"
    unfolding keeps_tables_def
  proof (intro conjI allI impI)
    fix q u assume "valid_path q" "tbl (ram s) root q = Some u"
    then show "tbl (ram s') root q = Some u" by (rule keep)
  next
    fix q and j :: u64 assume q: "valid_path q" "length q = 3" "j < 512"
    show "leaf (ram s') root q j = leaf (ram s) root q j"
    proof (cases "tbl (ram s) root q")
      case (Some u)
      have "u \<noteq> t" using Some inj [OF q(1)] q(2) p(2) by auto
      then show ?thesis
        using Some keep [OF q(1) Some] adds_tableD [OF add _ q(3), of u] fresh [OF q(1) Some]
        by (simp add: leaf_def)
    next
      case None
      have "ent (ram s') a j = 0"
        using adds_tableD [OF add a(1) q(3)] add by (auto simp: adds_table_def)
      then show ?thesis
        using None tabs [OF q(1)] by (auto simp: leaf_def split: option.splits)
    qed
  qed
  show "pt_inv s' root"
    unfolding pt_inv_def
  proof (intro conjI allI impI)
    fix q u assume q: "valid_path q" "tbl (ram s') root q = Some u"
    then show "good_table s' u"
      using tabs [OF q] pt_invD(1) [OF inv q(1)] a free by (auto simp: good_table_def)
  next
    fix q r u
    assume q: "valid_path q" "valid_path r" "tbl (ram s') root q = Some u" "tbl (ram s') root r = Some u"
    then show "q = r"
      using tabs [OF q(1,3)] tabs [OF q(2,4)] na pt_invD(2) [OF inv q(1) _ q(2)] by metis
  next
    fix q u and j :: u64
    assume q: "valid_path q" "length q < 3" "tbl (ram s') root q = Some u" "j < 512"
      "ent (ram s') u j \<noteq> 0"
    from tabs [OF q(1,3)] show "ent (ram s') u j AND 7 = 7"
    proof
      assume old: "tbl (ram s) root q = Some u"
      note e = adds_tableD [OF add conjunct1 [OF fresh [OF q(1) old]] q(4)]
      show ?thesis
        using e q(5) fresh [OF q(1) old] pt_invD(3) [OF inv q(1) old q(2,4)]
        by (auto simp: or_seven_and split: if_splits)
    next
      assume "q = p @ [i] \<and> u = a"
      then have "ent (ram s') u j = 0"
        using adds_tableD [OF add a(1) q(4)] add by (auto simp: adds_table_def)
      then show ?thesis using q(5) by simp
    qed
  qed
qed

lemma ensure_table_new:
  assumes ok: "vm_ok s root" and p: "valid_path p" "i < 512"
    and t: "tbl (ram s) root p = Some t" "ent (ram s) t i = 0" and run: "ensure_table s t i = Inr s'"
  obtains a where "page_aligned a" "page_of a \<in> pm_free s" "page_of a < 2 ^ 40"
    "adds_table (ram s) (ram s') t i a" "pm_free s' = pm_free s - {page_of a}"
    "pm_ok s'" "page_limit s' = page_limit s"
    "ram s' = st64 (memset (ram s) a 0 4096) (slot t i) (a OR 7)"
proof -
  have okD: "pm_ok s" "page_limit s \<le> 2 ^ 40" "pt_inv s root"
    using ok by (simp_all add: vm_ok_def)
  have good: "good_table s t" using pt_invD(1) [OF okD(3) p(1) t(1)] .
  obtain a s1 where al: "PhysicalMemory_alloc s 1 = Inr (a, s1)"
    and s': "s' = s1\<lparr>ram := st64 (memset (ram s1) a 0 4096) (slot t i) (a OR 7)\<rparr>"
    using run permissions_seven t(2)
    by (auto simp: ensure_table_def ent_def bindE_eq_Inr Let_def)
  note a = alloc_page [OF okD(1) al]
  have a40: "page_of a < 2 ^ 40" using a(3) okD(2) by simp
  have ne: "page_of a \<noteq> page_of t" using good a(2) by (auto simp: good_table_def)
  have ram: "ram s' = st64 (memset (ram s) a 0 4096) (slot t i) (a OR 7)"
    using a(7) by (simp add: s')
  have add: "adds_table (ram s) (ram s') t i a"
    unfolding adds_table_def
  proof (intro conjI allI impI)
    fix u and j :: u64 assume u: "page_aligned u" "j < 512"
    show "ent (ram s') u j = (if u = t \<and> j = i then a OR 7
        else if page_of u = page_of a then 0 else ent (ram s) u j)"
      using good u a(1) p(2) ne
      by (auto simp: ram ent_def good_table_def ld64_st64_slot ld64_memset_page)
  qed (use ne entry_roundtrip [OF a(1) a40] in simp_all)
  have free: "pm_free s' = pm_free s - {page_of a}" using a(4) by (simp add: s' pm_free_def)
  have pmok: "pm_ok s'" "page_limit s' = page_limit s"
    using a(5,6) by (simp_all add: s' pm_ok_def page_limit_def pm_free_def)
  show thesis by (rule that [OF a(1,2) a40 add free pmok ram])
qed

lemma ensure_table_inv:
  assumes ok: "vm_ok s root" and p: "valid_path p" "length p < 3" "i < 512"
    and t: "tbl (ram s) root p = Some t" and run: "ensure_table s t i = Inr s'"
  shows "vm_ok s' root" "keeps_tables (ram s) (ram s') root" "pm_free s' \<subseteq> pm_free s"
    "tbl (ram s') root (p @ [i]) = Some (ld64 (ram s') (slot t i) AND NOT FLAG_MASK)"
proof -
  have okD: "page_limit s \<le> 2 ^ 40" "pt_inv s root"
    using ok by (simp_all add: vm_ok_def)
  have good: "good_table s t" using pt_invD(1) [OF okD(2) p(1) t] .
  have "vm_ok s' root \<and> keeps_tables (ram s) (ram s') root \<and> pm_free s' \<subseteq> pm_free s \<and>
      tbl (ram s') root (p @ [i]) = Some (ld64 (ram s') (slot t i) AND NOT FLAG_MASK)"
  proof (cases "ent (ram s) t i = 0")
    case False
    then have "s' = s" using run by (simp add: ensure_table_def ent_def)
    then show ?thesis
      using ok False t by (simp add: keeps_tables_refl tbl_snoc_Some) (simp add: ent_def)
  next
    case True
    obtain a where a: "page_aligned a" "page_of a \<in> pm_free s" "page_of a < 2 ^ 40"
      "adds_table (ram s) (ram s') t i a" "pm_free s' = pm_free s - {page_of a}"
      "pm_ok s'" "page_limit s' = page_limit s"
      by (rule ensure_table_new [OF ok p(1,3) t True run])
    note inv = adds_table_inv [OF okD(2) p t True a(1-5)]
    have "ld64 (ram s') (slot t i) = a OR 7"
      using adds_tableD [OF a(4) _ p(3), of t] good by (simp add: ent_def good_table_def)
    then show ?thesis
      using inv a(5-7) okD(1) entry_roundtrip [OF a(1,3)] by (auto simp: vm_ok_def)
  qed
  then show "vm_ok s' root" "keeps_tables (ram s) (ram s') root" "pm_free s' \<subseteq> pm_free s"
    "tbl (ram s') root (p @ [i]) = Some (ld64 (ram s') (slot t i) AND NOT FLAG_MASK)"
    by blast+
qed

section \<open>MapPage updates one page of the address space\<close>

definition va_path :: "u64 \<Rightarrow> u64 list" where
  "va_path va = [drop_bit 39 va AND 0x1ff, drop_bit 30 va AND 0x1ff, drop_bit 21 va AND 0x1ff]"

definition va_index :: "u64 \<Rightarrow> u64" where
  "va_index va = drop_bit 12 va AND 0x1ff"

definition pte :: "mem \<Rightarrow> u64 \<Rightarrow> u64 \<Rightarrow> u64" where
  "pte m root va = leaf m root (va_path va) (va_index va)"

text \<open>Two addresses are in the same virtual page when their bits 12 to 47 agree.\<close>

definition same_vpage :: "u64 \<Rightarrow> u64 \<Rightarrow> bool" where
  "same_vpage va vb \<longleftrightarrow> take_bit 36 (drop_bit 12 va) = take_bit 36 (drop_bit 12 vb)"

lemma index_take_bit: "(w :: u64) AND 0x1ff = take_bit 9 w"
proof -
  have "(0x1ff :: u64) = mask 9" by (simp add: mask_eq_exp_minus_1)
  then show ?thesis by (simp only: take_bit_eq_mask)
qed

lemma index_less: "(w :: u64) AND 0x1ff < 512"
  unfolding index_take_bit take_bit_eq_mod word_less_nat_alt by (simp add: unat_mod)

lemma va_path_valid: "valid_path (va_path va)" "length (va_path va) = 3" "va_index va < 512"
  by (simp_all add: valid_path_def va_path_def va_index_def index_less)

lemma bit_index: "bit (take_bit 9 (drop_bit k (w :: u64))) n \<longleftrightarrow> n < 9 \<and> bit w (k + n)"
  by (simp add: bit_take_bit_iff bit_drop_bit_eq)

lemma same_vpage_iff:
  "same_vpage va vb \<longleftrightarrow> va_path va = va_path vb \<and> va_index va = va_index vb"
proof
  assume s: "same_vpage va vb"
  have b: "bit va (12 + n) = bit vb (12 + n)" if "n < 36" for n
  proof -
    have "bit (take_bit 36 (drop_bit 12 va)) n = bit (take_bit 36 (drop_bit 12 vb)) n"
      using s by (simp add: same_vpage_def)
    then show ?thesis using that by (simp add: bit_take_bit_iff bit_drop_bit_eq)
  qed
  have "take_bit 9 (drop_bit (12 + k) va) = take_bit 9 (drop_bit (12 + k) vb)" if "k \<le> 27" for k
  proof (rule bit_word_eqI)
    fix n assume "n < LENGTH(64)"
    show "bit (take_bit 9 (drop_bit (12 + k) va)) n = bit (take_bit 9 (drop_bit (12 + k) vb)) n"
      using b [of "k + n"] that by (auto simp: bit_index add.assoc)
  qed
  from this [of 27] this [of 18] this [of 9] this [of 0]
  show "va_path va = va_path vb \<and> va_index va = va_index vb"
    by (simp add: va_path_def va_index_def index_take_bit)
next
  assume e: "va_path va = va_path vb \<and> va_index va = va_index vb"
  have b: "bit va (k + n) = bit vb (k + n)" if "k \<in> {12, 21, 30, 39}" "n < 9" for k n
  proof -
    have "take_bit 9 (drop_bit k va) = take_bit 9 (drop_bit k vb)"
      using e that(1) by (auto simp: va_path_def va_index_def index_take_bit)
    then have "bit (take_bit 9 (drop_bit k va)) n = bit (take_bit 9 (drop_bit k vb)) n" by simp
    then show ?thesis using that(2) by (simp add: bit_index)
  qed
  show "same_vpage va vb" unfolding same_vpage_def
  proof (rule bit_word_eqI)
    fix n assume "n < LENGTH(64)"
    have "bit va (12 + n) = bit vb (12 + n)" if small: "n < 36"
    proof -
      consider "n < 9" | "9 \<le> n \<and> n < 18" | "18 \<le> n \<and> n < 27" | "27 \<le> n \<and> n < 36"
        using small by linarith
      then show ?thesis
        using b [of 12 n] b [of 21 "n - 9"] b [of 30 "n - 18"] b [of 39 "n - 27"]
        by cases (auto simp: less_diff_conv2)
    qed
    then show "bit (take_bit 36 (drop_bit 12 va)) n = bit (take_bit 36 (drop_bit 12 vb)) n"
      by (auto simp: bit_take_bit_iff bit_drop_bit_eq)
  qed
qed

lemma next_table_inv:
  assumes "vm_ok s root" "valid_path p" "length p < 3" "i < 512"
    and "tbl (ram s) root p = Some t" and "next_table s t i = Inr (u, s')"
  shows "vm_ok s' root" "keeps_tables (ram s) (ram s') root" "pm_free s' \<subseteq> pm_free s"
    "tbl (ram s') root (p @ [i]) = Some u" "valid_path (p @ [i])"
proof -
  have e: "ensure_table s t i = Inr s'" "u = ld64 (ram s') (slot t i) AND NOT FLAG_MASK"
    using assms(6) by (auto simp: next_table_def bindE_eq_Inr)
  show "vm_ok s' root" "keeps_tables (ram s) (ram s') root" "pm_free s' \<subseteq> pm_free s"
    "tbl (ram s') root (p @ [i]) = Some u"
    using ensure_table_inv [OF assms(1-5) e(1)] e(2) by simp_all
  show "valid_path (p @ [i])" using assms(2-4) by (simp add: valid_path_snoc)
qed

text \<open>The final store: an entry of a last-level table.\<close>

lemma leaf_store_inv:
  assumes ok: "vm_ok s root" and p: "valid_path p" "length p = 3" "i < 512"
    and t: "tbl (ram s) root p = Some t"
    and s': "s' = s\<lparr>ram := st64 (ram s) (slot t i) v\<rparr>"
  shows "vm_ok s' root"
    and "valid_path q \<Longrightarrow> tbl (ram s') root q = tbl (ram s) root q"
    and "valid_path q \<Longrightarrow> length q = 3 \<Longrightarrow> j < 512 \<Longrightarrow>
      leaf (ram s') root q j = (if q = p \<and> j = i then v else leaf (ram s) root q j)"
proof -
  have inv: "pt_inv s root" using ok by (simp add: vm_ok_def)
  have good: "page_aligned u" if "valid_path q" "tbl (ram s) root q = Some u" for q u
    using pt_invD(1) [OF inv that] by (simp add: good_table_def)
  have e: "ent (ram s') u j = (if u = t \<and> j = i then v else ent (ram s) u j)"
    if "page_aligned u" "j < 512" for u j
    using that good [OF p(1) t] p(3) by (simp add: s' ent_def ld64_st64_slot)
  have other: "ent (ram s') u j = ent (ram s) u j"
    if "valid_path q" "length q < 3" "tbl (ram s) root q = Some u" "j < 512" for q u j
    using e [OF good [OF that(1,3)] that(4)] pt_invD(2) [OF inv p(1) t that(1)] that(2,3) p(2)
    by auto
  have tables: "tbl (ram s') root q = tbl (ram s) root q" if "valid_path q" for q
    using that
  proof (induction q rule: rev_induct)
    case (snoc k q)
    then have q: "valid_path q" "length q < 3" "k < 512" by (simp_all add: valid_path_snoc)
    then show ?case
      using snoc.IH [OF q(1)] other [OF q(1,2) _ q(3)]
      by (simp add: tbl_snoc split: option.splits)
  qed simp
  then show "valid_path q \<Longrightarrow> tbl (ram s') root q = tbl (ram s) root q" .
  show "vm_ok s' root"
  proof -
    have "good_table s' = good_table s" "pm_ok s' = pm_ok s" "page_limit s' = page_limit s"
      by (simp_all add: s' good_table_def pm_free_def pm_ok_def page_limit_def fun_eq_iff)
    moreover have "pt_inv s' root"
      unfolding pt_inv_def
      using pt_invD [OF inv] tables other calculation(1) by (auto simp del: One_nat_def)
    ultimately show ?thesis using ok by (simp add: vm_ok_def)
  qed
  show "leaf (ram s') root q j = (if q = p \<and> j = i then v else leaf (ram s) root q j)"
    if q: "valid_path q" "length q = 3" "j < 512"
  proof (cases "tbl (ram s) root q")
    case None
    then show ?thesis using tables [OF q(1)] t by (auto simp: leaf_def)
  next
    case (Some u)
    have "u = t \<longleftrightarrow> q = p"
      using Some t pt_invD(2) [OF inv q(1) Some p(1)] by auto
    then show ?thesis
      using Some tables [OF q(1)] e [OF good [OF q(1) Some] q(3)] by (simp add: leaf_def)
  qed
qed

lemma length_lt3: "length [] < 3" "length [a] < 3" "length [a, b] < 3"
  by simp_all

lemma length_3: "length [a, b, c] = 3"
  by simp

lemma MapPage_inv:
  assumes ok: "vm_ok s root" and run: "VirtualMemory_MapPage s root va pa fl = Inr s'"
  shows "vm_ok s' root" "pm_free s' \<subseteq> pm_free s"
    "pte (ram s') root vb = (if same_vpage va vb then pa OR fl else pte (ram s) root vb)"
    "tbl (ram s') root (va_path va) \<noteq> None"
    "valid_path q \<Longrightarrow> tbl (ram s) root q = Some t \<Longrightarrow> tbl (ram s') root q = Some t"
proof -
  define i j k l where idx: "i = drop_bit 39 va AND 0x1ff" "j = drop_bit 30 va AND 0x1ff"
    "k = drop_bit 21 va AND 0x1ff" "l = drop_bit 12 va AND 0x1ff"
  have lt: "i < 512" "j < 512" "k < 512" "l < 512" by (simp_all add: idx index_less)
  obtain pdpt s1 pdt s2 pt s3 where st: "next_table s root i = Inr (pdpt, s1)"
    "next_table s1 pdpt j = Inr (pdt, s2)" "next_table s2 pdt k = Inr (pt, s3)"
    and s': "s' = s3\<lparr>ram := st64 (ram s3) (slot pt l) (pa OR fl)\<rparr>"
    using run by (auto simp: VirtualMemory_MapPage_def Let_def bindE_eq_Inr idx [symmetric])
  have v0: "valid_path []" by (simp add: valid_path_def)
  note n1 = next_table_inv [OF ok v0 length_lt3(1) lt(1) tbl.simps(1) st(1), unfolded append.simps]
  note n2 = next_table_inv [OF n1(1) n1(5) length_lt3(2) lt(2) n1(4) st(2), unfolded append.simps]
  note n3 = next_table_inv [OF n2(1) n2(5) length_lt3(3) lt(3) n2(4) st(3), unfolded append.simps]
  have path: "va_path va = [i, j, k]" "va_index va = l" by (simp_all add: va_path_def va_index_def idx)
  have keep: "keeps_tables (ram s) (ram s3) root"
    using n1(2) n2(2) n3(2) keeps_tables_trans by blast
  note fin = leaf_store_inv [OF n3(1) n3(5) length_3 lt(4) n3(4) s']
  show "vm_ok s' root" by (rule fin(1))
  show "pm_free s' \<subseteq> pm_free s" using n1(3) n2(3) n3(3) by (auto simp: s' pm_free_def)
  show "pte (ram s') root vb = (if same_vpage va vb then pa OR fl else pte (ram s) root vb)"
    using fin(3) [OF va_path_valid [of vb]] keep va_path_valid [of vb]
    by (auto simp: pte_def same_vpage_iff path keeps_tables_def)
  show "tbl (ram s') root (va_path va) \<noteq> None"
    using fin(2) [OF n3(5)] n3(4) by (simp add: path)
  show "valid_path q \<Longrightarrow> tbl (ram s) root q = Some t \<Longrightarrow> tbl (ram s') root q = Some t"
    using keep fin(2) [of q] by (auto simp: keeps_tables_def)
qed

section \<open>The walk of the processor\<close>

text \<open>
  What a 4-level x86-64 memory management unit does with an address: each level's entry must
  have the present bit, its bits 12 to 51 are the next table; bit 7 of an upper entry would
  make it a large page, which the kernel never makes, so the walk stops there.
\<close>

definition ADDR_MASK :: u64 where "ADDR_MASK = 0x000FFFFFFFFFF000"

fun mmu_tables :: "mem \<Rightarrow> u64 \<Rightarrow> u64 list \<Rightarrow> u64 option" where
  "mmu_tables m t [] = Some t"
| "mmu_tables m t (i # is) =
     (let e = ent m t i
      in if bit e 0 \<and> \<not> bit e 7 then mmu_tables m (e AND ADDR_MASK) is else None)"

definition mmu_walk :: "mem \<Rightarrow> u64 \<Rightarrow> u64 \<Rightarrow> u64 option" where
  "mmu_walk m root va =
     (case mmu_tables m root (va_path va) of None \<Rightarrow> None
      | Some t \<Rightarrow> let e = ent m t (va_index va)
                  in if bit e 0 then Some ((e AND ADDR_MASK) OR (va AND 0xFFF)) else None)"

lemma addr_mask_bits: "bit ADDR_MASK n \<longleftrightarrow> 12 \<le> n \<and> n < 52"
proof -
  have e: "ADDR_MASK = push_bit 12 (mask 40)"
    by (simp add: ADDR_MASK_def mask_eq_exp_minus_1)
  show ?thesis
    unfolding e by (simp only: bit_push_bit_iff bit_mask_iff) auto
qed

lemma masks_agree:
  assumes "page_aligned (e AND NOT FLAG_MASK)" "page_of (e AND NOT FLAG_MASK) < 2 ^ 40"
  shows "e AND ADDR_MASK = e AND NOT FLAG_MASK" "\<not> bit e 7"
proof -
  have m: "bit (e AND NOT FLAG_MASK) n \<longleftrightarrow> n < 64 \<and> bit e n \<and> \<not> (n < 7 \<or> n = 63)" for n
    by (auto simp: bit_and_iff bit_not_iff flag_mask_bits dest: bit_imp_le_length)
  show "\<not> bit e 7" using aligned_bits [OF assms(1), of 7] m [of 7] by simp
  show "e AND ADDR_MASK = e AND NOT FLAG_MASK"
  proof (rule bit_word_eqI)
    fix n assume "n < LENGTH(64)"
    then show "bit (e AND ADDR_MASK) n \<longleftrightarrow> bit (e AND NOT FLAG_MASK) n"
      using aligned_bits [OF assms(1), of n] low_page_bits [OF assms(2), of n] m [of n]
      by (cases "n < 12"; cases "52 \<le> n") (auto simp: bit_and_iff addr_mask_bits)
  qed
qed

lemma and_seven_present: "e AND 7 = (7 :: u64) \<Longrightarrow> bit e 0 \<and> e \<noteq> 0"
proof -
  assume "e AND 7 = 7"
  then have "bit (e AND 7) 0" by simp
  then show "bit e 0 \<and> e \<noteq> 0" by (auto simp only: bit_and_iff bit_0_eq)
qed

lemma mmu_tables_snoc:
  "mmu_tables m t (p @ [i]) = (case mmu_tables m t p of None \<Rightarrow> None | Some u \<Rightarrow>
     if bit (ent m u i) 0 \<and> \<not> bit (ent m u i) 7 then Some (ent m u i AND ADDR_MASK) else None)"
  by (induction p arbitrary: t) (simp_all add: Let_def)

text \<open>Under the invariant the processor reaches the same tables as the kernel's own walk.\<close>

lemma mmu_tables_eq:
  assumes "pt_inv s root"
  shows "valid_path p \<Longrightarrow> mmu_tables (ram s) root p = tbl (ram s) root p"
proof (induction p rule: rev_induct)
  case (snoc i p)
  then have p: "valid_path p" "length p < 3" "i < 512" by (simp_all add: valid_path_snoc)
  show ?case
  proof (cases "tbl (ram s) root p")
    case None
    then show ?thesis using snoc.IH [OF p(1)] by (simp add: mmu_tables_snoc tbl_snoc)
  next
    case (Some t)
    let ?e = "ent (ram s) t i"
    show ?thesis
    proof (cases "?e = 0")
      case True
      then show ?thesis using Some snoc.IH [OF p(1)] by (simp add: mmu_tables_snoc tbl_snoc)
    next
      case False
      then have "tbl (ram s) root (p @ [i]) = Some (?e AND NOT FLAG_MASK)"
        using Some by (simp add: tbl_snoc)
      note g = pt_invD(1) [OF assms snoc.prems this, unfolded good_table_def]
      have "bit ?e 0" using pt_invD(3) [OF assms p(1) Some p(2,3) False] and_seven_present by blast
      then show ?thesis
        using Some snoc.IH [OF p(1)] False g masks_agree [of ?e]
        by (simp add: mmu_tables_snoc tbl_snoc)
    qed
  qed
qed simp

lemma mmu_walk_eq:
  assumes "vm_ok s root"
  shows "mmu_walk (ram s) root va = (let e = pte (ram s) root va in
    if bit e 0 then Some ((e AND ADDR_MASK) OR (va AND 0xFFF)) else None)"
  using mmu_tables_eq [OF _ va_path_valid(1), of s root va] assms
  by (simp add: mmu_walk_def pte_def leaf_def vm_ok_def split: option.splits)

section \<open>MapPage succeeds while pages are left\<close>

definition avail :: "phys \<Rightarrow> nat set" where
  "avail s = pm_free s \<inter> {..<page_limit s}"

lemma finite_avail: "finite (avail s)"
  by (simp add: avail_def)

lemma alloc_one_possible: "alloc_possible s 1 \<longleftrightarrow> avail s \<noteq> {}" if "pm_ok s"
proof
  assume "alloc_possible s 1"
  then show "avail s \<noteq> {}"
    using that by (auto simp: alloc_possible_def free_run_def avail_def pm_free_def pm_ok_def)
next
  assume "avail s \<noteq> {}"
  then obtain p where p: "p \<in> pm_free s" "p < page_limit s" by (auto simp: avail_def)
  then have "free_run (bitmap s) (unat (lastI s)) (page_limit s) 1 \<or>
      free_run (bitmap s) 0 (unat (lastI s)) 1"
    unfolding free_run_def pm_free_def
    by (cases "unat (lastI s) \<le> p") (auto intro!: exI [of _ p])
  then show "alloc_possible s 1" by (simp add: alloc_possible_def)
qed

lemma alloc_page_total:
  assumes "pm_ok s"
  shows "if avail s = {} then PhysicalMemory_alloc s 1 = Inl Halted
    else \<exists>a s1. PhysicalMemory_alloc s 1 = Inr (a, s1) \<and> card (avail s) = Suc (card (avail s1))"
proof (cases "avail s = {}")
  case True
  then show ?thesis using alloc_cases [OF assms, of 1] alloc_one_possible [OF assms] by simp
next
  case False
  then obtain a s1 where al: "PhysicalMemory_alloc s 1 = Inr (a, s1)"
    using alloc_cases [OF assms, of 1] alloc_one_possible [OF assms] by auto
  note a = alloc_page [OF assms al]
  have "avail s = insert (page_of a) (avail s1)" "page_of a \<notin> avail s1"
    using a(2,3,4,6) by (auto simp: avail_def)
  then have "card (avail s) = Suc (card (avail s1))" by (simp add: finite_avail)
  then show ?thesis using al False by auto
qed

lemma next_table_total:
  assumes "vm_ok s root"
  shows "next_table s t i = Inl e \<Longrightarrow> e = Halted \<and> avail s = {}"
    and "next_table s t i = Inr (u, s') \<Longrightarrow>
      page_limit s' = page_limit s \<and> card (avail s) \<le> Suc (card (avail s'))"
proof -
  have ok: "pm_ok s" using assms by (simp add: vm_ok_def)
  note tot = alloc_page_total [OF ok]
  show "next_table s t i = Inl e \<Longrightarrow> e = Halted \<and> avail s = {}"
    using tot by (auto simp: next_table_def ensure_table_def Let_def bindE_eq_Inl split: if_splits)
  assume "next_table s t i = Inr (u, s')"
  then show "page_limit s' = page_limit s \<and> card (avail s) \<le> Suc (card (avail s'))"
    using tot alloc_page(6) [OF ok]
    by (auto simp: next_table_def ensure_table_def Let_def bindE_eq_Inr avail_def pm_free_def
        page_limit_def split: if_splits)
qed

lemma MapPage_total:
  assumes ok: "vm_ok s root"
  shows "VirtualMemory_MapPage s root va pa fl = Inl e \<Longrightarrow> e = Halted \<and> card (avail s) < 3"
    and "VirtualMemory_MapPage s root va pa fl = Inr s' \<Longrightarrow> card (avail s) \<le> 3 + card (avail s')"
proof -
  define i j k where idx: "i = drop_bit 39 va AND 0x1ff" "j = drop_bit 30 va AND 0x1ff"
    "k = drop_bit 21 va AND 0x1ff"
  have lt: "i < 512" "j < 512" "k < 512" by (simp_all add: idx index_less)
  have v0: "valid_path []" by (simp add: valid_path_def)
  note t1 = next_table_total [OF ok, of root i]
  have t2: "next_table s1 t j = Inl e \<Longrightarrow> e = Halted \<and> card (avail s) < 3"
    "next_table s1 t j = Inr (u, s2) \<Longrightarrow> card (avail s) \<le> 2 + card (avail s2)"
    "next_table s1 t j = Inr (u, s2) \<Longrightarrow> vm_ok s2 root"
    if "next_table s root i = Inr (t, s1)" for t s1 u s2 e
    using t1(2) [OF that] next_table_inv [OF ok v0 length_lt3(1) lt(1) tbl.simps(1) that]
      next_table_total [of s1 root t j] next_table_inv [of s1 root "[i]" j t u s2] lt by auto
  have t3: "next_table s2 u k = Inl e \<Longrightarrow> e = Halted \<and> card (avail s) < 3"
    "next_table s2 u k = Inr (w, s3) \<Longrightarrow> card (avail s) \<le> 3 + card (avail s3)"
    if "next_table s root i = Inr (t, s1)" "next_table s1 t j = Inr (u, s2)" for t s1 u s2 w s3 e
    using t2(2,3) [OF that] next_table_total [of s2 root u k] by fastforce+
  show "VirtualMemory_MapPage s root va pa fl = Inl e \<Longrightarrow> e = Halted \<and> card (avail s) < 3"
    using t1(1) t2(1) t3(1)
    by (fastforce simp: VirtualMemory_MapPage_def Let_def bindE_eq_Inl idx [symmetric])
  show "VirtualMemory_MapPage s root va pa fl = Inr s' \<Longrightarrow> card (avail s) \<le> 3 + card (avail s')"
    using t3(2)
    by (fastforce simp: VirtualMemory_MapPage_def Let_def bindE_eq_Inr idx [symmetric]
        avail_def pm_free_def page_limit_def)
qed

section \<open>Mapping a range\<close>

lemma vpage_nat: "unat (take_bit 36 (drop_bit 12 (va :: u64))) = unat va div 4096 mod 2 ^ 36"
  by (simp add: take_bit_eq_mod drop_bit_eq_div unat_mod unat_div)

lemma same_vpage_nat: "same_vpage va vb \<longleftrightarrow> unat va div 4096 mod 2 ^ 36 = unat vb div 4096 mod 2 ^ 36"
  by (simp only: same_vpage_def word_unat_eq_iff vpage_nat)

lemma same_vpage_refl [simp]: "same_vpage va va"
  by (simp add: same_vpage_def)

lemma vpage_shift:
  "unat (va + of_nat (4096 * m) :: u64) div 4096 mod 2 ^ 36 = (unat va div 4096 + m) mod 2 ^ 36"
proof -
  have "unat (va + of_nat (4096 * m) :: u64) = (unat va + 4096 * m) mod (4096 * 2 ^ 52)"
    by (simp add: unat_word_ariths unat_of_nat mod_simps)
  then have "unat (va + of_nat (4096 * m) :: u64) div 4096 = (unat va + 4096 * m) div 4096 mod 2 ^ 52"
    by (simp only: mod_mult2_eq)
  also have "\<dots> mod 2 ^ 36 = (unat va + 4096 * m) div 4096 mod 2 ^ 36"
    by (rule mod_mod_cancel) simp
  also have "(unat va + 4096 * m) div 4096 = unat va div 4096 + m" by simp
  finally show ?thesis .
qed

lemma same_vpage_shift:
  assumes "0 < m" "m < 2 ^ 36"
  shows "\<not> same_vpage (va + of_nat (4096 * m)) va"
proof
  let ?v = "unat va div 4096"
  assume "same_vpage (va + of_nat (4096 * m)) va"
  then have "(?v + m) mod 2 ^ 36 = (?v + 0) mod 2 ^ 36"
    by (simp only: same_vpage_nat vpage_shift add_0_right)
  then have "(2 :: nat) ^ 36 dvd m" by (subst (asm) mod_eq_dvd_iff_nat) simp_all
  then show False using assms by (auto dest: dvd_imp_le)
qed

text \<open>Address \<open>vb\<close> is in one of the pages the range covers.\<close>

definition in_range :: "u64 \<Rightarrow> nat \<Rightarrow> u64 \<Rightarrow> bool" where
  "in_range va len vb \<longleftrightarrow> (\<exists>k. 4096 * k < len \<and> same_vpage (va + of_nat (4096 * k)) vb)"

lemma in_range_step:
  assumes "0 < len"
  shows "in_range va len vb \<longleftrightarrow> same_vpage va vb \<or> in_range (va + 4096) (len - 4096) vb"
proof -
  have s: "va + of_nat (4096 * Suc k) = (va + 4096) + of_nat (4096 * k)" for k
    by (simp add: algebra_simps)
  have ex0: "(\<exists>k. P k) \<longleftrightarrow> P 0 \<or> (\<exists>k. P (Suc k))" for P :: "nat \<Rightarrow> bool"
    by (metis not0_implies_Suc)
  have "in_range va len vb \<longleftrightarrow> same_vpage va vb \<or>
      (\<exists>k. 4096 * Suc k < len \<and> same_vpage (va + of_nat (4096 * Suc k)) vb)"
    unfolding in_range_def ex0 [of "\<lambda>k. 4096 * k < len \<and> _ k"] using assms by simp
  also have "\<dots> \<longleftrightarrow> same_vpage va vb \<or> in_range (va + 4096) (len - 4096) vb"
    unfolding in_range_def s by (auto simp: less_diff_conv)
  finally show ?thesis .
qed


lemma range_ahead:
  assumes "len \<le> 2 ^ 48 - 4096"
  shows "\<not> in_range (va + 4096) len va"
proof
  assume "in_range (va + 4096) len va"
  then obtain k where k: "4096 * k < len" "same_vpage (va + 4096 + of_nat (4096 * k)) va"
    by (auto simp: in_range_def)
  have e: "va + 4096 + of_nat (4096 * k) = va + of_nat (4096 * Suc k)"
    by (simp add: algebra_simps)
  have "Suc k < 2 ^ 36" using k(1) assms by simp
  then show False using k(2) same_vpage_shift [of "Suc k" va] by (simp only: e zero_less_Suc simp_thms)
qed

text \<open>
  The loop from \<open>i\<close> on: every page of the range gets its entry, no other page's entry changes,
  and it goes through while three pages are left for each page to map.
\<close>

lemma map_range_inv:
  assumes "vm_ok s root" "map_range s root va pa len fl i = Inr s'"
  shows "vm_ok s' root" "pm_free s' \<subseteq> pm_free s"
    "\<not> in_range (va + i) (unat len - unat i) vb \<Longrightarrow> pte (ram s') root vb = pte (ram s) root vb"
    "unat len \<le> 2 ^ 48 \<Longrightarrow> unat i + 4096 * k < unat len \<Longrightarrow>
       pte (ram s') root (va + i + of_nat (4096 * k)) = (pa + i + of_nat (4096 * k)) OR fl"
proof -
  have "vm_ok s' root \<and> pm_free s' \<subseteq> pm_free s \<and>
    (\<forall>vb. \<not> in_range (va + i) (unat len - unat i) vb \<longrightarrow>
       pte (ram s') root vb = pte (ram s) root vb) \<and>
    (unat len \<le> 2 ^ 48 \<longrightarrow> (\<forall>k. unat i + 4096 * k < unat len \<longrightarrow>
       pte (ram s') root (va + i + of_nat (4096 * k)) = (pa + i + of_nat (4096 * k)) OR fl))"
    using assms
  proof (induction s root va pa len fl i rule: map_range.induct)
    case (1 s root va pa len fl i)
    show ?case
    proof (cases "i < len")
      case False
      then show ?thesis using 1(2,3) by (auto simp: map_range.simps word_less_nat_alt)
    next
      case True
      then obtain s1 where s1: "VirtualMemory_MapPage s root (va + i) (pa + i) fl = Inr s1"
        and nw: "\<not> i + 4096 < i" and rest: "map_range s1 root va pa len fl (i + 4096) = Inr s'"
        using 1(3) by (auto simp: map_range.simps [of s root va pa len fl i] bindE_eq_Inr split: if_splits)
      note m = MapPage_inv [OF 1(2) s1]
      note IH = 1(1) [OF True s1 nw m(1) rest]
      have lt: "unat i < unat len" using True by (simp add: word_less_nat_alt)
      have i': "unat (i + 4096) = unat i + 4096"
        using nw by (simp add: unat_add_mono)
      have e: "va + (i + 4096) = va + i + 4096" "pa + (i + 4096) = pa + i + 4096"
        by (simp_all add: algebra_simps)
      have step: "in_range (va + i) (unat len - unat i) vb \<longleftrightarrow>
          same_vpage (va + i) vb \<or> in_range (va + (i + 4096)) (unat len - unat (i + 4096)) vb" for vb
        using in_range_step [of "unat len - unat i" "va + i" vb] lt by (simp add: i' e)
      have entry: "pte (ram s') root (va + i + of_nat (4096 * k)) = (pa + i + of_nat (4096 * k)) OR fl"
        if small: "unat len \<le> 2 ^ 48" and k: "unat i + 4096 * k < unat len" for k
      proof (cases k)
        case 0
        have "\<not> in_range (va + i + 4096) (unat len - unat (i + 4096)) (va + i)"
          using small range_ahead [of "unat len - unat (i + 4096)" "va + i"] i' by simp
        then show ?thesis using IH m(3) [of "va + i"] by (simp add: 0 e)
      next
        case (Suc n)
        then have "pte (ram s') root (va + (i + 4096) + of_nat (4096 * n)) =
            (pa + (i + 4096) + of_nat (4096 * n)) OR fl"
          using IH small k by (simp add: i')
        then show ?thesis by (simp add: Suc algebra_simps)
      qed
      show ?thesis
        using IH m(2,3) step entry by auto
    qed
  qed
  then show "vm_ok s' root" "pm_free s' \<subseteq> pm_free s"
    "\<not> in_range (va + i) (unat len - unat i) vb \<Longrightarrow> pte (ram s') root vb = pte (ram s) root vb"
    "unat len \<le> 2 ^ 48 \<Longrightarrow> unat i + 4096 * k < unat len \<Longrightarrow>
       pte (ram s') root (va + i + of_nat (4096 * k)) = (pa + i + of_nat (4096 * k)) OR fl"
    by blast+
qed

definition pages_left :: "u64 \<Rightarrow> u64 \<Rightarrow> nat" where
  "pages_left len i = (unat len - unat i + 4095) div 4096"

lemma map_range_total:
  assumes "vm_ok s root" "unat len + 4096 < 2 ^ 64" "3 * pages_left len i \<le> card (avail s)"
  shows "\<exists>s'. map_range s root va pa len fl i = Inr s' \<and>
    card (avail s) \<le> 3 * pages_left len i + card (avail s')"
  using assms
proof (induction s root va pa len fl i rule: map_range.induct)
  case (1 s root va pa len fl i)
  show ?case
  proof (cases "i < len")
    case False
    then show ?thesis by (simp add: map_range.simps)
  next
    case True
    then have lt: "unat i < unat len" by (simp add: word_less_nat_alt)
    have i': "unat (i + 4096) = unat i + 4096"
      using lt 1(3) by (subst unat_add_nowrap) simp_all
    then have nw: "\<not> i + 4096 < i" by (simp add: word_less_nat_alt)
    have "pages_left len i = (unat len - unat i - 1 + 4096) div 4096"
      using lt by (simp add: pages_left_def)
    also have "\<dots> = Suc ((unat len - unat i - 1) div 4096)" by simp
    also have "(unat len - unat i - 1) div 4096 = pages_left len (i + 4096)"
    proof (cases "unat i + 4096 \<le> unat len")
      case True
      then have "unat len - unat i - 1 = unat len - unat (i + 4096) + 4095" using i' by simp
      then show ?thesis by (simp add: pages_left_def)
    qed (simp add: pages_left_def i')
    finally have left: "pages_left len i = Suc (pages_left len (i + 4096))" .
    obtain s1 where s1: "VirtualMemory_MapPage s root (va + i) (pa + i) fl = Inr s1"
      using MapPage_total(1) [OF 1(2), of "va + i" "pa + i" fl] 1(4) left
      by (cases "VirtualMemory_MapPage s root (va + i) (pa + i) fl") auto
    have used: "card (avail s) \<le> 3 + card (avail s1)" by (rule MapPage_total(2) [OF 1(2) s1])
    have "3 * pages_left len (i + 4096) \<le> card (avail s1)" using used 1(4) left by simp
    then obtain s' where "map_range s1 root va pa len fl (i + 4096) = Inr s'"
      "card (avail s1) \<le> 3 * pages_left len (i + 4096) + card (avail s')"
      using 1(1) [OF True s1 nw MapPage_inv(1) [OF 1(2) s1] 1(3)] by blast
    then show ?thesis
      using True s1 nw used left by (simp add: map_range.simps [of s root va pa len fl i])
  qed
qed

section \<open>The kernel's address space\<close>

lemma fresh_root:
  assumes "good_table s root" "\<And>i. i < 512 \<Longrightarrow> ent (ram s) root i = 0"
  shows "pt_inv s root" "pte (ram s) root va = 0"
proof -
  have t: "p = [] \<and> t = root" if "valid_path p" "tbl (ram s) root p = Some t" for p t
    using that assms(2) by (cases p) (auto simp: valid_path_def split: if_splits)
  show "pt_inv s root"
    unfolding pt_inv_def using t assms by blast
  show "pte (ram s) root va = 0"
    using t [OF va_path_valid(1) [of va]] va_path_valid(2) [of va]
    by (auto simp: pte_def leaf_def split: option.splits)
qed

lemma cleared_root:
  assumes "pm_ok s" "page_limit s \<le> 2 ^ 40" "PhysicalMemory_alloc s 1 = Inr (dir, s0)"
  shows "vm_ok (s0\<lparr>ram := memset (ram s0) dir 0 4096\<rparr>) dir"
    "pte (ram (s0\<lparr>ram := memset (ram s0) dir 0 4096\<rparr>)) dir va = 0"
    "avail (s0\<lparr>ram := memset (ram s0) dir 0 4096\<rparr>) = avail s0"
proof -
  let ?s = "s0\<lparr>ram := memset (ram s0) dir 0 4096\<rparr>"
  note a = alloc_page [OF assms(1,3)]
  have good: "good_table ?s dir"
    using a assms(2) by (auto simp: good_table_def pm_free_def)
  have zero: "ent (ram ?s) dir i = 0" if "i < 512" for i
    using that a(1) by (simp add: ent_def ld64_memset_page)
  have "pm_ok ?s" "page_limit ?s \<le> 2 ^ 40"
    using a(5,6) assms(2) by (simp_all add: pm_ok_def page_limit_def pm_free_def)
  then show "vm_ok ?s dir" "pte (ram ?s) dir va = 0"
    using fresh_root [OF good zero] by (simp_all add: vm_ok_def)
  show "avail ?s = avail s0" by (simp add: avail_def pm_free_def page_limit_def)
qed

text \<open>A mapped range, as the page walk sees it.\<close>

definition maps_to :: "phys \<Rightarrow> u64 \<Rightarrow> u64 \<Rightarrow> nat \<Rightarrow> u64 \<Rightarrow> u64 \<Rightarrow> bool" where
  "maps_to s root va k pa fl \<longleftrightarrow>
     pte (ram s) root (va + of_nat (4096 * k)) = (pa + of_nat (4096 * k)) OR fl"

lemma rw_flags: "PF_present OR PF_readwrite = 3"
  by (simp add: page_flags)

lemma Initialize_split:
  assumes "VirtualMemory_Initialize b mmap v = Inr v'"
  obtains dir s0 s2 s3 s4 phyAddr len where
    "PhysicalMemory_alloc (vm_phys v) 1 = Inr (dir, s0)"
    "map_range (s0\<lparr>ram := memset (ram s0) dir 0 4096\<rparr>) dir (virtual_base b) (physical_base b)
       (kernel_size b) 3 0 = Inr s2"
    "map_range s2 dir (hhdm_offset b) 0 0x100000000 3 0 = Inr s3"
    "find_framebuffer mmap = (phyAddr, len)" "phyAddr \<noteq> 0"
    "map_range s3 dir (fb_address b) phyAddr len 3 0 = Inr s4"
    "v' = \<lparr>vm_phys = s4, kernelDir = dir, currentDir = dir, cr3 = dir\<rparr>"
proof -
  have one: "(4096 :: u64) div 4096 = 1" by simp
  obtain phyAddr len where fb: "find_framebuffer mmap = (phyAddr, len)" by fastforce
  from assms show ?thesis
    unfolding VirtualMemory_Initialize_def Let_def rw_flags one fb prod.case
    by (cases v) (auto simp: bindE_eq_Inr SwapToPageTable_def fb split: if_splits intro: that)
qed

text \<open>Memory with \<open>2^23\<close> free pages, enough for the tables of the direct map.\<close>

definition big_pm :: phys where
  "big_pm = \<lparr>bitmap = 0xFF # replicate (2 ^ 20) 0, bitmap_at = 0x1000, lastI = 0,
     highest_addr = 0x800008000, usedRam = 0, freeRam = 0x800000000, ram = (\<lambda>_. 0)\<rparr>"

lemma big_page_bit: "page_bit (0xFF # replicate n 0) i \<longleftrightarrow> i < 8" if "i < 8 * Suc n"
proof (cases "i < 8")
  case True
  then have "i \<in> {0, 1, 2, 3, 4, 5, 6, 7}" by auto
  then show ?thesis by (auto simp: page_bit_def)
next
  case False
  then have "i div 8 - 1 < n" "i div 8 \<noteq> 0" using that by auto
  then show ?thesis using False by (simp add: page_bit_def nth_Cons')
qed

lemma big_free: "pm_free big_pm = {8..<8 * Suc (2 ^ 20)}"
  using big_page_bit [of _ "2 ^ 20"]
  by (auto simp: pm_free_def free_pages_def big_pm_def simp del: replicate.simps)

lemma big_limit: "page_limit big_pm = 8 * Suc (2 ^ 20)"
  by (simp add: page_limit_def big_pm_def)

lemma big_ok: "pm_ok big_pm"
  using big_limit big_free by (simp add: pm_ok_def) (simp add: big_pm_def)

lemma big_avail: "card (avail big_pm) = 2 ^ 23"
proof -
  have "avail big_pm = {8..<8 * Suc (2 ^ 20)}"
    unfolding avail_def big_free big_limit by auto
  then show ?thesis by (simp only: card_atLeastLessThan) simp
qed

definition demo_boot :: boot_info where
  "demo_boot = \<lparr>physical_base = 0x100000, virtual_base = 0xffffffff80000000,
     kernel_size = 0x3000, hhdm_offset = 0xffff800000000000, fb_address = 0xffff8000fd000000\<rparr>"

definition demo_fb :: "mmap_entry list" where
  "demo_fb = [\<lparr>mm_base = 0x8000, mm_length = 0x800000000, mm_type = 0\<rparr>,
     \<lparr>mm_base = 0xfd000000, mm_length = 0x2000, mm_type = 7\<rparr>]"

definition demo_vmm :: vmm where
  "demo_vmm = \<lparr>vm_phys = big_pm, kernelDir = 0, currentDir = 0, cr3 = 0\<rparr>"

lemma demo_initialize: "\<exists>v'. VirtualMemory_Initialize demo_boot demo_fb demo_vmm = Inr v'"
proof -
  have lim: "page_limit big_pm \<le> 2 ^ 40" by (simp add: big_limit)
  have "avail big_pm \<noteq> {}" using big_avail by auto
  then obtain dir s0 where al: "PhysicalMemory_alloc big_pm 1 = Inr (dir, s0)"
    and c0: "card (avail big_pm) = Suc (card (avail s0))"
    using alloc_page_total [OF big_ok] by auto
  let ?s1 = "s0\<lparr>ram := memset (ram s0) dir 0 4096\<rparr>"
  note root = cleared_root [OF big_ok lim al]
  have left: "pages_left 0x3000 0 = 3" "pages_left 0x100000000 0 = 2 ^ 20" "pages_left 0x2000 0 = 2"
    by (simp_all add: pages_left_def)
  obtain s2 where s2: "map_range ?s1 dir 0xffffffff80000000 0x100000 0x3000 3 0 = Inr s2"
    "card (avail ?s1) \<le> 3 * 3 + card (avail s2)"
    using map_range_total [OF root(1), of "0x3000" 0] root(3) c0 big_avail left by fastforce
  note ok2 = map_range_inv(1) [OF root(1) s2(1)]
  obtain s3 where s3: "map_range s2 dir 0xffff800000000000 0 0x100000000 3 0 = Inr s3"
    "card (avail s2) \<le> 3 * 2 ^ 20 + card (avail s3)"
    using map_range_total [OF ok2, of "0x100000000" 0] s2(2) root(3) c0 big_avail left by fastforce
  note ok3 = map_range_inv(1) [OF ok2 s3(1)]
  obtain s4 where s4: "map_range s3 dir 0xffff8000fd000000 0xfd000000 0x2000 3 0 = Inr s4"
    using map_range_total [OF ok3, of "0x2000" 0] s2(2) s3(2) root(3) c0 big_avail left by fastforce
  have one: "(4096 :: u64) div 4096 = 1" by simp
  have fb: "find_framebuffer demo_fb = (0xfd000000, 0x2000)"
    by (simp add: demo_fb_def LIMINE_MEMMAP_FRAMEBUFFER_def)
  show ?thesis
    unfolding VirtualMemory_Initialize_def Let_def rw_flags one fb prod.case
    using al s2(1) s3(1) s4 by (simp add: demo_boot_def demo_vmm_def)
qed

lemma demo_root: "vm_ok demo_pm 0x4000" "pte (ram demo_pm) 0x4000 va = 0"
proof -
  have "good_table demo_pm 0x4000"
    by (simp add: good_table_def page_aligned_def page_of_def demo_free)
  moreover have "ent (ram demo_pm) 0x4000 i = 0" for i
    unfolding ent_def by (rule ld64_zero) (simp add: demo_pm_def)
  ultimately show "vm_ok demo_pm 0x4000" "pte (ram demo_pm) 0x4000 va = 0"
    using fresh_root demo_pm_ok by (simp_all add: vm_ok_def page_limit_def) (simp add: demo_pm_def)
qed

lemma demo_avail: "card (avail demo_pm) = 5"
proof -
  have "avail demo_pm = {2, 3, 5, 6, 7}"
    by (auto simp: avail_def demo_free) (simp_all add: page_limit_def demo_pm_def)
  then show ?thesis by simp
qed

lemma demo_map_page: "\<exists>s'. VirtualMemory_MapPage demo_pm 0x4000 va pa fl = Inr s'"
  using MapPage_total(1) [OF demo_root(1), of va pa fl] demo_avail
  by (cases "VirtualMemory_MapPage demo_pm 0x4000 va pa fl") auto

lemma demo_map_range: "\<exists>s'. map_range demo_pm 0x4000 va pa 0x1000 fl 0 = Inr s'"
  using map_range_total [OF demo_root(1), of "0x1000" 0 va pa fl] demo_avail
  by (auto simp: pages_left_def)

section \<open>Properties\<close>

lemma map_page_walk:
  assumes "vm_ok s root" and "VirtualMemory_MapPage s root va pa fl = Inr s'"
    and "page_aligned pa" and "page_of pa < 2 ^ 40" and "fl AND ADDR_MASK = 0" and "bit fl 0"
  shows "vm_ok s' root \<and> pm_free s' \<subseteq> pm_free s \<and>
    (\<forall>vb. mmu_walk (ram s') root vb =
      (if same_vpage va vb then Some (pa OR (vb AND 0xFFF)) else mmu_walk (ram s) root vb))"
proof -
  note m = MapPage_inv [OF assms(1,2)]
  have "pa AND ADDR_MASK = pa"
  proof (rule bit_word_eqI)
    fix n assume "n < LENGTH(64)"
    show "bit (pa AND ADDR_MASK) n = bit pa n"
      using aligned_bits [OF assms(3), of n] low_page_bits [OF assms(4), of n]
      by (cases "n < 12"; cases "52 \<le> n") (auto simp: bit_and_iff addr_mask_bits)
  qed
  then have e: "(pa OR fl) AND ADDR_MASK = pa"
    using assms(5) by (simp add: word_ao_dist)
  have "bit (pa OR fl) 0" using assms(6) by (simp add: bit_or_iff)
  then show ?thesis
    using m(1-3) e by (simp add: mmu_walk_eq [OF m(1)] mmu_walk_eq [OF assms(1)] Let_def)
qed

text \<open>C5. \<^verbatim>\<open>MapPage\<close> implements the update of one page: after mapping a page-aligned physical
  address below \<open>2^52\<close> with present flags, the processor's walk from the same root translates
  every address of that virtual page to it and every other address as before, the tables
  stay well formed, and no page became free.\<close>

theorem map_page_translates:
  assumes "vm_ok s root" and "VirtualMemory_MapPage s root va pa fl = Inr s'"
    and "page_aligned pa" and "page_of pa < 2 ^ 40" and "fl AND ADDR_MASK = 0" and "bit fl 0"
  shows "vm_ok s' root \<and> pm_free s' \<subseteq> pm_free s \<and>
    (\<forall>vb. mmu_walk (ram s') root vb =
      (if same_vpage va vb then Some (pa OR (vb AND 0xFFF)) else mmu_walk (ram s) root vb))"
  by (rule map_page_walk [OF assms])

theorem map_page_translates_witness:
  "\<exists>s'. VirtualMemory_MapPage demo_pm 0x4000 0xffff800000201000 0xabc000 3 = Inr s' \<and>
    mmu_walk (ram s') 0x4000 0xffff800000201234 = Some 0xabc234"
proof -
  obtain s' where s': "VirtualMemory_MapPage demo_pm 0x4000 0xffff800000201000 0xabc000 3 = Inr s'"
    using demo_map_page by blast
  have "same_vpage 0xffff800000201000 0xffff800000201234" by (simp add: same_vpage_nat)
  then show ?thesis
    using map_page_translates [OF demo_root(1) s'] s'
    by (simp add: page_aligned_def page_of_def ADDR_MASK_def)
qed

text \<open>C6. \<^verbatim>\<open>MapPage\<close> fails in one way only, by halting the machine, and only when fewer than
  three pages are free: one for each level below the root.\<close>

theorem map_page_succeeds:
  assumes "vm_ok s root"
  shows "(VirtualMemory_MapPage s root va pa fl = Inl e \<longrightarrow> e = Halted \<and> card (avail s) < 3) \<and>
    (3 \<le> card (avail s) \<longrightarrow> (\<exists>s'. VirtualMemory_MapPage s root va pa fl = Inr s'))"
  using MapPage_total(1) [OF assms, of va pa fl]
  by (cases "VirtualMemory_MapPage s root va pa fl") auto

theorem map_page_succeeds_witness:
  "\<exists>s'. VirtualMemory_MapPage demo_pm 0x4000 0x7fffff000 0xabc000 3 = Inr s'"
  using map_page_succeeds [OF demo_root(1), of "0x7fffff000" "0xabc000" 3 Halted] demo_avail by simp

text \<open>The mapping loop: each page \<open>va + 4096 k\<close> of the range gets the entry for
  \<open>pa + 4096 k\<close>, although later iterations work on the same tables, and the entries of all
  pages outside the range are as before. The range may span up to \<open>2^48\<close> bytes.\<close>

theorem map_range_maps:
  assumes "vm_ok s root" and "map_range s root va pa len fl 0 = Inr s'" and "unat len \<le> 2 ^ 48"
  shows "vm_ok s' root \<and>
    (\<forall>k. 4096 * k < unat len \<longrightarrow> maps_to s' root va k pa fl) \<and>
    (\<forall>vb. \<not> in_range va (unat len) vb \<longrightarrow> pte (ram s') root vb = pte (ram s) root vb)"
  using map_range_inv [OF assms(1,2)] assms(3) by (simp add: maps_to_def)

theorem map_range_maps_witness:
  "\<exists>s'. map_range demo_pm 0x4000 0xffff800000201000 0xabc000 0x1000 3 0 = Inr s' \<and>
    pte (ram s') 0x4000 0xffff800000201000 = 0xabc003 \<and>
    pte (ram s') 0x4000 0xffff800000202000 = 0"
proof -
  obtain s' where s': "map_range demo_pm 0x4000 0xffff800000201000 0xabc000 0x1000 3 0 = Inr s'"
    using demo_map_range by blast
  have "\<not> in_range 0xffff800000201000 (unat (0x1000 :: u64)) 0xffff800000202000"
    by (simp add: in_range_def same_vpage_nat)
  then show ?thesis
    using map_range_maps [OF demo_root(1) s'] s' demo_root(2)
    by (auto simp: maps_to_def dest: spec [of _ 0])
qed

text \<open>C7. After \<^verbatim>\<open>VirtualMemory::Initialize\<close> the new root is the kernel's and the current one and
  is loaded in \<open>cr3\<close>; in its address space the framebuffer is mapped to the physical range of
  the memory map's first framebuffer region, the direct map covers the first 4 GiB of
  physical memory outside the framebuffer's range, and the kernel image is mapped where the
  other two do not lie.\<close>

theorem initialize_address_space:
  assumes "pm_ok (vm_phys v)" and "page_limit (vm_phys v) \<le> 2 ^ 40"
    and "VirtualMemory_Initialize b mmap v = Inr v'"
    and "find_framebuffer mmap = (phyAddr, len)" and "unat len \<le> 2 ^ 48"
    and "unat (kernel_size b) \<le> 2 ^ 48"
  shows "let s = vm_phys v'; root = kernelDir v';
             outside_fb = (\<lambda>va k. \<not> in_range (fb_address b) (unat len) (va + of_nat (4096 * k)));
             outside_hhdm = (\<lambda>va k. \<not> in_range (hhdm_offset b) (2 ^ 32) (va + of_nat (4096 * k)))
         in vm_ok s root \<and> currentDir v' = root \<and> cr3 v' = root \<and>
            (\<forall>k. 4096 * k < unat len \<longrightarrow> maps_to s root (fb_address b) k phyAddr 3) \<and>
            (\<forall>k. 4096 * k < 2 ^ 32 \<longrightarrow> outside_fb (hhdm_offset b) k \<longrightarrow>
               maps_to s root (hhdm_offset b) k 0 3) \<and>
            (\<forall>k. 4096 * k < unat (kernel_size b) \<longrightarrow> outside_fb (virtual_base b) k \<longrightarrow>
               outside_hhdm (virtual_base b) k \<longrightarrow>
               maps_to s root (virtual_base b) k (physical_base b) 3)"
proof -
  obtain dir s0 s2 s3 s4 p' l' where al: "PhysicalMemory_alloc (vm_phys v) 1 = Inr (dir, s0)"
    and m2: "map_range (s0\<lparr>ram := memset (ram s0) dir 0 4096\<rparr>) dir (virtual_base b)
       (physical_base b) (kernel_size b) 3 0 = Inr s2"
    and m3: "map_range s2 dir (hhdm_offset b) 0 0x100000000 3 0 = Inr s3"
    and fb: "find_framebuffer mmap = (p', l')" "p' \<noteq> 0"
    and m4': "map_range s3 dir (fb_address b) p' l' 3 0 = Inr s4"
    and v': "v' = \<lparr>vm_phys = s4, kernelDir = dir, currentDir = dir, cr3 = dir\<rparr>"
    by (rule Initialize_split [OF assms(3)])
  have m4: "map_range s3 dir (fb_address b) phyAddr len 3 0 = Inr s4"
    using m4' fb(1) assms(4) by simp
  note root = cleared_root [OF assms(1,2) al]
  note r2 = map_range_inv [OF root(1) m2]
  note r3 = map_range_inv [OF r2(1) m3]
  note r4 = map_range_inv [OF r3(1) m4]
  show ?thesis
    using r4(1) r4(4) [OF assms(5)] r4(3) r3(4) r3(3) r2(4) [OF assms(6)]
    by (simp add: v' maps_to_def Let_def)
qed

theorem initialize_address_space_witness:
  "\<exists>v'. VirtualMemory_Initialize demo_boot demo_fb demo_vmm = Inr v' \<and> cr3 v' = kernelDir v' \<and>
    pte (ram (vm_phys v')) (kernelDir v') 0xffff8000fd001000 = 0xfd001003"
proof -
  obtain v' where v': "VirtualMemory_Initialize demo_boot demo_fb demo_vmm = Inr v'"
    using demo_initialize by blast
  have pre: "pm_ok (vm_phys demo_vmm)" "page_limit (vm_phys demo_vmm) \<le> 2 ^ 40"
    "find_framebuffer demo_fb = (0xfd000000, 0x2000)" "unat (0x2000 :: u64) \<le> 2 ^ 48"
    "unat (kernel_size demo_boot) \<le> 2 ^ 48"
    by (simp_all add: demo_vmm_def big_ok big_limit demo_fb_def LIMINE_MEMMAP_FRAMEBUFFER_def
        demo_boot_def)
  note t = initialize_address_space [OF pre(1,2) v' pre(3,4,5), unfolded Let_def]
  have "maps_to (vm_phys v') (kernelDir v') (fb_address demo_boot) 1 0xfd000000 3"
    using t by simp
  then show ?thesis using t v' by (simp add: maps_to_def demo_boot_def)
qed

end
