(* ===== verification/CString.thy ===== *)
theory CString
  imports Prelude "HOL-Library.Sublist"
begin

text \<open>
  The string routines of \<^verbatim>\<open>src/src/include/util.h\<close> and \<^verbatim>\<open>strremove\<close> of \<^verbatim>\<open>src/src/fs/initrd.cpp\<close>.
  A \<^verbatim>\<open>char*\<close> is the list of bytes from the pointer to the end of the object it points into, so
  that advancing the pointer drops the head and reading past the object is the error
  \<open>OutOfBounds\<close>; \<^verbatim>\<open>memmove\<close> works on one object with offsets for its two pointers, since what it
  does depends on how they overlap.
\<close>

section \<open>Comparison\<close>

fun strncmp :: "u8 list \<Rightarrow> u8 list \<Rightarrow> nat \<Rightarrow> int result" where
  "strncmp s1 s2 0 = Inr 0"
| "strncmp (u1 # s1) (u2 # s2) (Suc n) =
     (if u1 = 0 \<or> u2 = 0 then Inr 0
      else if u1 \<noteq> u2 then Inr (uint u1 - uint u2)
      else strncmp s1 s2 n)"
| "strncmp _ _ (Suc n) = Inl OutOfBounds"

fun strcmp :: "u8 list \<Rightarrow> u8 list \<Rightarrow> int result" where
  "strcmp (u1 # s1) (u2 # s2) =
     (if u1 = 0 \<or> u2 = 0 then Inr 0
      else if u1 \<noteq> u2 then Inr (uint u1 - uint u2)
      else strcmp s1 s2)"
| "strcmp _ _ = Inl OutOfBounds"

fun strlen :: "u8 list \<Rightarrow> nat result" where
  "strlen [] = Inl OutOfBounds"
| "strlen (c # s) = (if c \<noteq> 0 then bindE (strlen s) (\<lambda>i. Inr (Suc i)) else Inr 0)"

text \<open>
  \<^verbatim>\<open>compare\<close>: the loop stops when either string ends, and the answer is whether \<open>Y\<close> did. \<^verbatim>\<open>*Y\<close> is
  read only when \<^verbatim>\<open>*X\<close> is not 0, and once more at the end.
\<close>

fun compare :: "u8 list \<Rightarrow> u8 list \<Rightarrow> bool result" where
  "compare (x # X) (y # Y) =
     (if x \<noteq> 0 \<and> y \<noteq> 0
      then (if x \<noteq> y then Inr False else compare X Y)
      else Inr (y = 0))"
| "compare _ _ = Inl OutOfBounds"

text \<open>\<^verbatim>\<open>strstr\<close> answers the offset of the match in \<open>X\<close>, \<open>None\<close> for the null pointer.\<close>

fun strstr :: "u8 list \<Rightarrow> u8 list \<Rightarrow> nat option result" where
  "strstr [] Y = Inl OutOfBounds"
| "strstr (x # X) Y =
     (if x = 0 then Inr None
      else case Y of [] \<Rightarrow> Inl OutOfBounds
           | y # _ \<Rightarrow>
               bindE (if x = y then compare (x # X) Y else Inr False)
                 (\<lambda>found. if found then Inr (Some 0)
                          else bindE (strstr X Y) (\<lambda>r. Inr (map_option Suc r))))"

section \<open>memmove\<close>

text \<open>\<^verbatim>\<open>while (n--) *pd++ = *ps++\<close>\<close>

fun move_forward :: "u8 list \<Rightarrow> nat \<Rightarrow> nat \<Rightarrow> nat \<Rightarrow> u8 list result" where
  "move_forward b pd ps 0 = Inr b"
| "move_forward b pd ps (Suc n) =
     (if pd < length b \<and> ps < length b
      then move_forward (b[pd := b ! ps]) (Suc pd) (Suc ps) n
      else Inl OutOfBounds)"

text \<open>
  \<^verbatim>\<open>for (pd += n; ps += n; n--) *--pd = *--ps\<close>: the loop's condition is the assignment \<^verbatim>\<open>ps += n\<close>, a
  pointer that is never null, and it is made before every iteration, not once. \<open>n\<close> is an
  \<^verbatim>\<open>unsigned int\<close>.
\<close>

fun move_backward :: "u8 list \<Rightarrow> nat \<Rightarrow> nat \<Rightarrow> u32 \<Rightarrow> u8 list result" where
  "move_backward b 0 ps n = Inl OutOfBounds"
| "move_backward b (Suc pd) ps n =
     (let ps' = ps + unat n
      in if pd < length b \<and> 0 < ps' \<and> ps' - 1 < length b
         then move_backward (b[pd := b ! (ps' - 1)]) pd (ps' - 1) (n - 1)
         else Inl OutOfBounds)"

definition memmove :: "u8 list \<Rightarrow> nat \<Rightarrow> nat \<Rightarrow> u32 \<Rightarrow> u8 list result" where
  "memmove b dest src n =
     (if src < dest then move_backward b (dest + unat n) src n
      else move_forward b dest src (unat n))"

section \<open>strremove\<close>

text \<open>
  The loop with \<open>p\<close> the offset the search goes on from. The recursion carries fuel; a string
  of length \<open>n\<close> needs at most \<open>n + 1\<close> rounds, since each but the last shortens it.
\<close>

fun strremove_loop :: "nat \<Rightarrow> u8 list \<Rightarrow> nat \<Rightarrow> u8 list \<Rightarrow> nat \<Rightarrow> u8 list result" where
  "strremove_loop 0 str p sub len = Inl Diverges"
| "strremove_loop (Suc fuel) str p sub len =
     bindE (strstr (drop p str) sub) (\<lambda>r.
     case r of None \<Rightarrow> Inr str
     | Some k \<Rightarrow>
         bindE (strlen (drop (p + k + len) str)) (\<lambda>l.
         bindE (memmove str (p + k) (p + k + len) (of_nat (l + 1))) (\<lambda>str'.
         strremove_loop fuel str' (p + k) sub len)))"

definition strremove :: "u8 list \<Rightarrow> u8 list \<Rightarrow> u8 list result" where
  "strremove str sub =
     bindE (strlen sub) (\<lambda>len.
       if len > 0 then strremove_loop (length str + 1) str 0 sub len else Inr str)"

section \<open>Strings\<close>

text \<open>The C string with content \<open>a\<close>, in an object with \<open>r\<close> after the terminating 0.\<close>

definition cstr :: "u8 list \<Rightarrow> u8 list \<Rightarrow> u8 list" where
  "cstr a r = a @ 0 # r"

definition no_nul :: "u8 list \<Rightarrow> bool" where
  "no_nul a \<longleftrightarrow> 0 \<notin> set a"

lemma cstr_simps [simp]:
  "cstr [] r = 0 # r" "cstr (x # a) r = x # cstr a r" "length (cstr a r) = Suc (length a + length r)"
  by (simp_all add: cstr_def)

lemma no_nul_simps [simp]:
  "no_nul []" "no_nul (x # a) \<longleftrightarrow> x \<noteq> 0 \<and> no_nul a" "no_nul (a @ b) \<longleftrightarrow> no_nul a \<and> no_nul b"
  by (auto simp: no_nul_def)

lemma no_nul_drop: "no_nul a \<Longrightarrow> no_nul (drop k a)"
  by (auto simp: no_nul_def dest: in_set_dropD)

lemma drop_cstr: "k \<le> length a \<Longrightarrow> drop k (cstr a r) = cstr (drop k a) r"
  by (simp add: cstr_def)

text \<open>The first difference within the first \<open>n\<close> bytes of both contents, 0 when there is none.\<close>

fun first_diff :: "u8 list \<Rightarrow> u8 list \<Rightarrow> nat \<Rightarrow> int" where
  "first_diff (x # a) (y # b) (Suc n) = (if x \<noteq> y then uint x - uint y else first_diff a b n)"
| "first_diff _ _ _ = 0"

lemma strncmp_cstr:
  "no_nul a \<Longrightarrow> no_nul b \<Longrightarrow> strncmp (cstr a ra) (cstr b rb) n = Inr (first_diff a b n)"
proof (induction n arbitrary: a b)
  case (Suc n)
  then show ?case by (cases a; cases b) simp_all
qed simp

lemma first_diff_0:
  "first_diff a b n = 0 \<longleftrightarrow> take (min n (min (length a) (length b))) a
     = take (min n (min (length a) (length b))) b"
  by (induction a b n rule: first_diff.induct) (simp_all add: word_uint_eq_iff)

lemma strcmp_strncmp:
  "no_nul a \<Longrightarrow> no_nul b \<Longrightarrow>
     strcmp (cstr a ra) (cstr b rb) = strncmp (cstr a ra) (cstr b rb) (Suc (length a))"
proof (induction a arbitrary: b)
  case Nil
  then show ?case by (cases b) simp_all
next
  case (Cons x a)
  then show ?case by (cases b) simp_all
qed

lemma strlen_cstr: "no_nul a \<Longrightarrow> strlen (cstr a r) = Inr (length a)"
  by (induction a) simp_all

lemma compare_cstr:
  "no_nul a \<Longrightarrow> no_nul b \<Longrightarrow> compare (cstr a ra) (cstr b rb) = Inr (prefix b a)"
proof (induction a arbitrary: b)
  case Nil
  then show ?case by (cases b) simp_all
next
  case (Cons x a)
  then show ?case by (cases b) auto
qed

text \<open>The offset of the first occurrence.\<close>

fun first_occurrence :: "u8 list \<Rightarrow> u8 list \<Rightarrow> nat option" where
  "first_occurrence b [] = None"
| "first_occurrence b (x # a) =
     (if prefix b (x # a) then Some 0 else map_option Suc (first_occurrence b a))"

lemma strstr_cstr:
  "no_nul a \<Longrightarrow> no_nul b \<Longrightarrow> b \<noteq> [] \<Longrightarrow>
     strstr (cstr a ra) (cstr b rb) = Inr (first_occurrence b a)"
proof (induction a)
  case (Cons x a)
  obtain y b' where b: "b = y # b'" using Cons.prems(3) by (cases b) auto
  have "compare (x # cstr a ra) (y # cstr b' rb) = Inr (prefix b (x # a))"
    using compare_cstr [of "x # a" b ra rb] Cons.prems b by simp
  then show ?case using Cons by (auto simp: b)
qed simp

lemma strstr_empty: "no_nul a \<Longrightarrow> strstr (cstr a ra) (cstr [] rb) = Inr None"
  by (induction a) simp_all

lemma first_occurrence_spec:
  assumes "b \<noteq> []"
  shows "case first_occurrence b a of
    None \<Rightarrow> \<forall>k. \<not> prefix b (drop k a)
  | Some k \<Rightarrow> prefix b (drop k a) \<and> k + length b \<le> length a \<and> (\<forall>j < k. \<not> prefix b (drop j a))"
proof (induction a)
  case Nil
  then show ?case using assms by simp
next
  case (Cons x a)
  show ?case
  proof (cases "prefix b (x # a)")
    case True
    then show ?thesis using prefix_length_le [OF True] by simp
  next
    case False
    have "\<not> prefix b (drop k (x # a)) \<longleftrightarrow> k = 0 \<or> \<not> prefix b (drop (k - 1) a)" for k
      using False by (cases k) auto
    then show ?thesis
      using Cons False by (auto split: option.splits simp: less_Suc_eq_0_disj)
  qed
qed

section \<open>memmove\<close>

lemma move_forward_spec:
  "pd \<le> ps \<Longrightarrow> ps + n \<le> length b \<Longrightarrow>
     move_forward b pd ps n = Inr (take pd b @ take n (drop ps b) @ drop (pd + n) b)"
proof (induction n arbitrary: b pd ps)
  case (Suc n)
  let ?b = "b[pd := b ! ps]"
  have b: "b = take pd b @ b ! pd # drop (Suc pd) b"
    using Suc.prems by (simp add: id_take_nth_drop)
  have "take (Suc pd) ?b = take pd b @ [b ! ps]"
    using Suc.prems by (simp add: take_Suc_conv_app_nth)
  moreover have "drop (Suc ps) ?b = drop (Suc ps) b" "drop (Suc pd + n) ?b = drop (Suc pd + n) b"
    using Suc.prems by simp_all
  moreover have "take (Suc n) (drop ps b) = b ! ps # take n (drop (Suc ps) b)"
    using Suc.prems by (simp add: Cons_nth_drop_Suc [symmetric])
  ultimately show ?case using Suc.IH [of "Suc pd" "Suc ps" ?b] Suc.prems by simp
qed simp

lemma move_backward_fails: "move_backward b pd ps n = Inl OutOfBounds"
  by (induction b pd ps n rule: move_backward.induct) (simp_all add: Let_def)

section \<open>strremove\<close>

text \<open>What \<^verbatim>\<open>strremove\<close> computes on contents: scan from the left, dropping each occurrence met.\<close>

function remove_all :: "u8 list \<Rightarrow> u8 list \<Rightarrow> u8 list" where
  "remove_all s a =
     (case a of [] \<Rightarrow> [] | x # a' \<Rightarrow>
        if s \<noteq> [] \<and> prefix s a then remove_all s (drop (length s) a) else x # remove_all s a')"
  by pat_completeness auto
termination by (relation "measure (\<lambda>(s, a). length a)") auto

declare remove_all.simps [simp del]

lemma remove_all_first:
  assumes "s \<noteq> []"
  shows "remove_all s a = (case first_occurrence s a of None \<Rightarrow> a
    | Some k \<Rightarrow> take k a @ remove_all s (drop (k + length s) a))"
proof (induction a)
  case Nil
  then show ?case by (simp add: remove_all.simps)
next
  case (Cons x a)
  then show ?case using assms
    by (auto simp: remove_all.simps [of s "x # a"] split: option.splits)
qed

lemma take_all_cstr: "take (Suc (length a)) (cstr a r) = cstr a []"
  by (simp add: cstr_def)

lemma strremove_loop_spec:
  assumes "no_nul s" "s \<noteq> []" "length s < 2 ^ 32"
  shows "no_nul (h @ a) \<Longrightarrow> length a < fuel \<Longrightarrow> length (h @ a) + 1 < 2 ^ 32 \<Longrightarrow>
    \<exists>r'. strremove_loop fuel (cstr (h @ a) r) (length h) (cstr s rs) (length s)
      = Inr (cstr (h @ remove_all s a) r') \<and> length (h @ remove_all s a) + length r' = length (h @ a) + length r"
proof (induction fuel arbitrary: h a r)
  case (Suc fuel)
  have d: "drop (length h) (cstr (h @ a) r) = cstr a r" by (simp add: cstr_def)
  have a: "no_nul a" "no_nul h" using Suc.prems(1) by simp_all
  note st = strstr_cstr [OF a(1) assms(1,2), of r rs]
  note sp = first_occurrence_spec [OF assms(2), of a]
  show ?case
  proof (cases "first_occurrence s a")
    case None
    then show ?thesis using st d remove_all_first [OF assms(2), of a] by auto
  next
    case (Some k)
    let ?q = "k + length s" and ?h = "h @ take k a"
    have k: "k + length s \<le> length a" using sp Some by simp
    let ?a = "drop ?q a"
    have dd: "drop (length h + k + length s) (cstr (h @ a) r) = cstr ?a r"
      using k by (simp add: cstr_def)
    have sl: "strlen (cstr ?a r) = Inr (length ?a)"
      using no_nul_drop [OF a(1)] by (rule strlen_cstr)
    have n: "unat (of_nat (length ?a + 1) :: u32) = length ?a + 1"
    proof -
      have "length ?a + 1 < 2 ^ 32" using Suc.prems(3) by simp
      then show ?thesis by (simp only: unat_of_nat) simp
    qed
    let ?r = "drop (k + (length ?a + 1)) (cstr a r)"
    have mv: "memmove (cstr (h @ a) r) (length h + k) (length h + k + length s) (of_nat (length ?a + 1))
        = Inr (cstr (?h @ ?a) ?r)"
    proof -
      have "take (length ?a + 1) (drop (length h + k + length s) (cstr (h @ a) r)) = cstr ?a []"
        unfolding dd Suc_eq_plus1 [symmetric] by (rule take_all_cstr)
      moreover have "take (length h + k) (cstr (h @ a) r) = ?h"
        using k by (simp add: cstr_def)
      moreover have "drop (length h + k + (length ?a + 1)) (cstr (h @ a) r) = ?r"
        by (simp add: cstr_def)
      moreover have "length h + k + length s + (length ?a + 1) \<le> length (cstr (h @ a) r)"
        using k by simp
      ultimately have "move_forward (cstr (h @ a) r) (length h + k) (length h + k + length s) (length ?a + 1)
          = Inr (?h @ cstr ?a [] @ ?r)"
        using move_forward_spec [of "length h + k" "length h + k + length s"] by (simp only: le_add1)
      then show ?thesis unfolding memmove_def n by (simp add: cstr_def)
    qed
    have "length ?h = length h + k" using k by simp
    moreover have "no_nul (?h @ ?a)" "length ?a < fuel" "length (?h @ ?a) + 1 < 2 ^ 32"
      using Suc.prems k length_greater_0_conv [THEN iffD2, OF assms(2)] no_nul_drop [OF a(1)]
      by (auto simp: no_nul_def dest: in_set_takeD simp del: length_greater_0_conv)
    ultimately obtain r' where r': "strremove_loop fuel (cstr (?h @ ?a) ?r) (length h + k) (cstr s rs) (length s)
      = Inr (cstr (?h @ remove_all s ?a) r')"
      "length (?h @ remove_all s ?a) + length r' = length (?h @ ?a) + length ?r"
      using Suc.IH [of ?h ?a ?r] by (metis (no_types))
    have "remove_all s a = take k a @ remove_all s ?a"
      using remove_all_first [OF assms(2), of a] Some by simp
    then show ?thesis
      using st d dd sl mv r' Some k by (auto simp: add.assoc)
  qed
qed simp

section \<open>Properties\<close>

text \<open>C8. \<^verbatim>\<open>strncmp\<close> never reads past the terminators and answers 0 exactly when the two
  contents agree on the first \<open>n\<close> bytes they both have, so a string is equal to each of its
  prefixes; otherwise it answers the difference of the first bytes that differ.\<close>

theorem strncmp_equal_iff:
  assumes "no_nul a" and "no_nul b"
  shows "strncmp (cstr a ra) (cstr b rb) n = Inr (first_diff a b n) \<and>
    (strncmp (cstr a ra) (cstr b rb) n = Inr 0 \<longleftrightarrow>
      take (min n (min (length a) (length b))) a = take (min n (min (length a) (length b))) b)"
  using strncmp_cstr [OF assms, of ra rb n] first_diff_0 [of a b n] by simp

theorem strncmp_equal_iff_witness:
  "strncmp (cstr [104, 105, 33] []) (cstr [104] [7]) (Suc (Suc (Suc 0))) = Inr 0 \<and>
   strncmp (cstr [104, 105] []) (cstr [104, 106] []) (Suc (Suc 0)) = Inr (- 1)"
  using strncmp_equal_iff [of "[104, 105, 33]" "[104]" "[]" "[7]" "Suc (Suc (Suc 0))"]
    strncmp_equal_iff [of "[104, 105]" "[104, 106]" "[]" "[]" "Suc (Suc 0)"]
  by simp

text \<open>C9. \<^verbatim>\<open>strstr\<close> finds the first occurrence of a non-empty string, and answers null exactly
  when there is none.\<close>

theorem strstr_first_match:
  assumes "no_nul a" and "no_nul b" and "b \<noteq> []"
  shows "\<exists>r. strstr (cstr a ra) (cstr b rb) = Inr r \<and>
    (case r of None \<Rightarrow> \<forall>k. \<not> prefix b (drop k a)
     | Some k \<Rightarrow> prefix b (drop k a) \<and> k + length b \<le> length a \<and>
         (\<forall>j < k. \<not> prefix b (drop j a)))"
  using strstr_cstr [OF assms] first_occurrence_spec [OF assms(3), of a] by simp

theorem strstr_first_match_witness:
  "strstr (cstr [97, 98, 97, 99, 97, 99] []) (cstr [97, 99] [1]) = Inr (Some 2)"
  using strstr_first_match [of "[97, 98, 97, 99, 97, 99]" "[97, 99]" "[]" "[1]"] by simp

text \<open>\<^verbatim>\<open>memmove\<close> to a lower or the same address copies as it should even when the ranges
  overlap; to a higher address it is wrong for every length, since its loop advances the source by
  \<open>n\<close> before each byte and has no end: whatever the object, it runs out of it.\<close>

theorem memmove_directions:
  shows "(dest \<le> src \<longrightarrow> src + unat n \<le> length b \<longrightarrow>
      memmove b dest src n =
        Inr (take dest b @ take (unat n) (drop src b) @ drop (dest + unat n) b)) \<and>
    (src < dest \<longrightarrow> memmove b dest src n = Inl OutOfBounds)"
  by (simp add: memmove_def move_forward_spec move_backward_fails)

theorem memmove_directions_witness:
  "memmove [1, 2, 3, 4, 5] 0 2 3 = Inr [3, 4, 5, 4, 5] \<and>
   memmove [1, 2, 3, 4, 5] 1 0 3 = Inl OutOfBounds"
  using memmove_directions [of 0 2 3 "[1, 2, 3, 4, 5]"] memmove_directions [of 1 0 3 "[1, 2, 3, 4, 5]"]
  by simp

text \<open>\<^verbatim>\<open>strremove\<close> returns, and leaves in its buffer the string without the occurrences met
  when scanning from the left; it neither grows nor shrinks the object.\<close>

theorem strremove_removes:
  assumes "no_nul a" and "no_nul s" and "length a + 1 < 2 ^ 32" and "length s < 2 ^ 32"
  shows "\<exists>r'. strremove (cstr a r) (cstr s rs) = Inr (cstr (remove_all s a) r') \<and>
    length (cstr (remove_all s a) r') = length (cstr a r)"
proof (cases "s = []")
  case True
  have "remove_all [] a = a" by (induction a) (simp_all add: remove_all.simps)
  then show ?thesis using True by (auto simp: strremove_def)
next
  case False
  have "length a < length (cstr a r) + 1" by simp
  then show ?thesis
    using strremove_loop_spec [OF assms(2) False assms(4), of "[]" a "length (cstr a r) + 1" r rs]
      assms(1,3) strlen_cstr [OF assms(2), of rs] False by (auto simp: strremove_def)
qed

theorem strremove_removes_witness:
  "\<exists>r'. strremove (cstr [97, 98, 98, 97] [7]) (cstr [98] []) = Inr (cstr [97, 97] r')"
  using strremove_removes [of "[97, 98, 98, 97]" "[98]" "[7]" "[]"]
  by (auto simp: remove_all.simps)

end
