(* ===== verification/Containers.thy ===== *)
theory Containers
  imports Prelude
begin

text \<open>
  The two containers of \<^verbatim>\<open>src/lib\<close>: the chained hash table of \<^verbatim>\<open>hash.h\<close>, used by the kernel to map
  file descriptors (\<^verbatim>\<open>int\<close> keys) to files and to file systems, and the list called \<^verbatim>\<open>vector\<close> of
  \<^verbatim>\<open>doubly.h\<close>. A chain of nodes is the list of its pairs in the order of the \<^verbatim>\<open>next\<close> pointers; no node
  is shared between chains. \<open>new\<close> is taken to succeed, as the code does. The locale
  \<open>fd_map\<close> is the contract the file system layers rely on.
\<close>

section \<open>The hash table\<close>

type_synonym 'v chain = "(i32 \<times> 'v) list"

type_synonym 'v unordered_map = "'v chain list"

definition tableSize :: u64 where
  "tableSize = 10"

text \<open>The cast from \<^verbatim>\<open>int\<close> to \<^verbatim>\<open>unsigned long\<close> extends the sign.\<close>

definition KeyHash :: "i32 \<Rightarrow> u64" where
  "KeyHash key = (scast key :: u64) mod tableSize"

definition new_map :: "'v unordered_map" where
  "new_map = replicate (unat tableSize) []"

fun put_chain :: "i32 \<Rightarrow> 'v \<Rightarrow> 'v chain \<Rightarrow> 'v chain" where
  "put_chain key val [] = [(key, val)]"
| "put_chain key val ((k, v) # entry) =
     (if k \<noteq> key then (k, v) # put_chain key val entry else (k, val) # entry)"

definition put :: "i32 \<Rightarrow> 'v \<Rightarrow> 'v unordered_map \<Rightarrow> 'v unordered_map" where
  "put key val table =
     (let hashValue = unat (KeyHash key)
      in table[hashValue := put_chain key val (table ! hashValue)])"

text \<open>\<^verbatim>\<open>get\<close> answers whether the key is there and, if so, stores its value: an option.\<close>

fun get_chain :: "i32 \<Rightarrow> 'v chain \<Rightarrow> 'v option" where
  "get_chain key [] = None"
| "get_chain key ((k, v) # entry) = (if k = key then Some v else get_chain key entry)"

definition get :: "i32 \<Rightarrow> 'v unordered_map \<Rightarrow> 'v option" where
  "get key table = get_chain key (table ! unat (KeyHash key))"

fun remove_chain :: "i32 \<Rightarrow> 'v chain \<Rightarrow> 'v chain" where
  "remove_chain key [] = []"
| "remove_chain key ((k, v) # entry) =
     (if k \<noteq> key then (k, v) # remove_chain key entry else entry)"

definition hm_remove :: "i32 \<Rightarrow> 'v unordered_map \<Rightarrow> 'v unordered_map" where
  "hm_remove key table =
     (let hashValue = unat (KeyHash key)
      in table[hashValue := remove_chain key (table ! hashValue)])"

section \<open>The vector\<close>

record 'a vector =
  vec_head :: "'a list"
  vec_count :: i32

definition new_vector :: "'a vector" where
  "new_vector = \<lparr>vec_head = [], vec_count = 0\<rparr>"

text \<open>
  The walk to the last node. (The source allocates a second node for the data first and drops it.)
\<close>

fun append_node :: "'a \<Rightarrow> 'a list \<Rightarrow> 'a list" where
  "append_node N [] = [N]"
| "append_node N (pt # rest) = pt # append_node N rest"

definition push_back :: "'a \<Rightarrow> 'a vector \<Rightarrow> 'a vector" where
  "push_back data v = v\<lparr>vec_count := vec_count v + 1, vec_head := append_node data (vec_head v)\<rparr>"

text \<open>The node reached after \<open>index\<close> steps, the null pointer being the empty chain.\<close>

fun walk :: "'a list \<Rightarrow> nat \<Rightarrow> 'a list" where
  "walk ret 0 = ret"
| "walk [] (Suc n) = []"
| "walk (x # ret) (Suc n) = walk ret n"

definition vec_at :: "'a vector \<Rightarrow> u64 \<Rightarrow> 'a result" where
  "vec_at v index = (case walk (vec_head v) (unat index) of [] \<Rightarrow> Inl NullPointer | x # _ \<Rightarrow> Inr x)"

text \<open>The reference \<^verbatim>\<open>v[index]\<close> used to change the element.\<close>

fun walk_update :: "'a list \<Rightarrow> nat \<Rightarrow> ('a \<Rightarrow> 'a) \<Rightarrow> 'a list result" where
  "walk_update [] n f = Inl NullPointer"
| "walk_update (x # ret) 0 f = Inr (f x # ret)"
| "walk_update (x # ret) (Suc n) f = bindE (walk_update ret n f) (\<lambda>r. Inr (x # r))"

definition vec_update :: "'a vector \<Rightarrow> u64 \<Rightarrow> ('a \<Rightarrow> 'a) \<Rightarrow> 'a vector result" where
  "vec_update v index f =
     bindE (walk_update (vec_head v) (unat index) f) (\<lambda>h. Inr (v\<lparr>vec_head := h\<rparr>))"

definition vec_size :: "'a vector \<Rightarrow> u64" where
  "vec_size v = scast (vec_count v)"

section \<open>The hash table is a finite map\<close>

lemma KeyHash_less: "unat (KeyHash key) < 10"
  by (simp add: KeyHash_def tableSize_def unat_mod)

definition hm_inv :: "'v unordered_map \<Rightarrow> bool" where
  "hm_inv table \<longleftrightarrow> length table = 10 \<and>
     (\<forall>h < 10. distinct (map fst (table ! h)) \<and>
       (\<forall>k \<in> fst ` set (table ! h). unat (KeyHash k) = h))"

lemma hm_invD:
  assumes "hm_inv table"
  shows "length table = 10" "h < 10 \<Longrightarrow> distinct (map fst (table ! h))"
    "h < 10 \<Longrightarrow> k \<in> fst ` set (table ! h) \<Longrightarrow> unat (KeyHash k) = h"
  using assms unfolding hm_inv_def by blast+

lemma get_chain_map_of: "get_chain key es = map_of es key"
  by (induction es) auto

lemma put_chain_map_of: "map_of (put_chain key val es) = (map_of es)(key \<mapsto> val)"
  by (induction key val es rule: put_chain.induct) auto

lemma put_chain_keys: "fst ` set (put_chain key val es) = insert key (fst ` set es)"
  by (induction key val es rule: put_chain.induct) (simp_all add: insert_commute)

lemma put_chain_distinct: "distinct (map fst es) \<Longrightarrow> distinct (map fst (put_chain key val es))"
proof (induction key val es rule: put_chain.induct)
  case (2 key val k v entry)
  then show ?case by (cases "k = key") (simp_all add: put_chain_keys)
qed simp

lemma remove_chain_keys: "fst ` set (remove_chain key es) \<subseteq> fst ` set es"
  by (induction key es rule: remove_chain.induct) (simp_all, blast+)

lemma remove_chain_distinct:
  "distinct (map fst es) \<Longrightarrow> distinct (map fst (remove_chain key es))"
proof (induction key es rule: remove_chain.induct)
  case (2 key k v entry)
  then show ?case using remove_chain_keys [of key entry] by (simp, blast)
qed simp

lemma remove_chain_map_of:
  "distinct (map fst es) \<Longrightarrow> map_of (remove_chain key es) = (map_of es)(key := None)"
proof (induction key es rule: remove_chain.induct)
  case (2 key k v entry)
  then show ?case by (simp add: fun_eq_iff) (metis map_of_eq_None_iff)
qed simp

lemma hm_inv_new: "hm_inv new_map"
  by (simp add: hm_inv_def new_map_def tableSize_def)

lemma hm_inv_update:
  assumes "hm_inv table" "distinct (map fst es)"
    and "fst ` set es \<subseteq> insert key (fst ` set (table ! unat (KeyHash key)))"
  shows "hm_inv (table[unat (KeyHash key) := es])"
proof -
  note D = hm_invD [OF assms(1)]
  let ?H = "unat (KeyHash key)" and ?t = "table[unat (KeyHash key) := es]"
  have "distinct (map fst (?t ! h)) \<and> (\<forall>k \<in> fst ` set (?t ! h). unat (KeyHash k) = h)" if h: "h < 10" for h
  proof (cases "h = ?H")
    case True
    then have t: "?t ! h = es" using D(1) h by simp
    have "unat (KeyHash k) = h" if "k \<in> fst ` set es" for k
      using that assms(3) D(3) [OF KeyHash_less [of key]] True by blast
    then show ?thesis unfolding t using assms(2) by blast
  next
    case False
    then have t: "?t ! h = table ! h" by simp
    then show ?thesis unfolding t using D(2,3) [OF h] by blast
  qed
  then show ?thesis using D(1) unfolding hm_inv_def by simp
qed

lemma hm_inv_put: "hm_inv table \<Longrightarrow> hm_inv (put key val table)"
  unfolding put_def Let_def
  by (rule hm_inv_update) (simp_all add: put_chain_keys put_chain_distinct hm_invD KeyHash_less)

lemma hm_inv_remove: "hm_inv table \<Longrightarrow> hm_inv (hm_remove key table)"
  unfolding hm_remove_def Let_def
  by (rule hm_inv_update)
     (simp_all add: remove_chain_keys subset_insertI2 remove_chain_distinct hm_invD KeyHash_less)

lemma get_put:
  assumes "hm_inv table"
  shows "get k (put key val table) = (if k = key then Some val else get k table)"
  using KeyHash_less [of key] hm_invD(1) [OF assms]
  by (simp add: get_def put_def Let_def get_chain_map_of put_chain_map_of nth_list_update)

lemma get_remove:
  assumes "hm_inv table"
  shows "get k (hm_remove key table) = (if k = key then None else get k table)"
proof (cases "unat (KeyHash k) = unat (KeyHash key)")
  case True
  then show ?thesis
    using KeyHash_less [of key] hm_invD(1) [OF assms]
      remove_chain_map_of [OF hm_invD(2) [OF assms KeyHash_less [of key]], of key]
    by (simp add: get_def hm_remove_def Let_def get_chain_map_of)
next
  case False
  then show ?thesis by (auto simp: get_def hm_remove_def Let_def)
qed

lemma get_new: "get k new_map = None"
  using KeyHash_less [of k] by (simp add: get_def new_map_def tableSize_def)

section \<open>The contract of a descriptor table\<close>

datatype 'v map_op = Put i32 'v | Remove i32

fun run_ops ::
  "(i32 \<Rightarrow> 'v \<Rightarrow> 't \<Rightarrow> 't) \<Rightarrow> (i32 \<Rightarrow> 't \<Rightarrow> 't) \<Rightarrow> 'v map_op list \<Rightarrow> 't \<Rightarrow> 't" where
  "run_ops upd del [] t = t"
| "run_ops upd del (Put k v # ops) t = run_ops upd del ops (upd k v t)"
| "run_ops upd del (Remove k # ops) t = run_ops upd del ops (del k t)"

fun map_effect :: "'v map_op list \<Rightarrow> (i32 \<rightharpoonup> 'v) \<Rightarrow> (i32 \<rightharpoonup> 'v)" where
  "map_effect [] m = m"
| "map_effect (Put k v # ops) m = map_effect ops (m(k \<mapsto> v))"
| "map_effect (Remove k # ops) m = map_effect ops (m(k := None))"

text \<open>What the file system layers use of the table, and what they may conclude from it.\<close>

locale fd_map =
  fixes empty :: 't
    and upd :: "i32 \<Rightarrow> 'v \<Rightarrow> 't \<Rightarrow> 't"
    and del :: "i32 \<Rightarrow> 't \<Rightarrow> 't"
    and look :: "i32 \<Rightarrow> 't \<Rightarrow> 'v option"
    and inv :: "'t \<Rightarrow> bool"
  assumes inv_empty: "inv empty"
    and inv_upd: "inv t \<Longrightarrow> inv (upd k v t)"
    and inv_del: "inv t \<Longrightarrow> inv (del k t)"
    and look_empty: "look k empty = None"
    and look_upd: "inv t \<Longrightarrow> look j (upd k v t) = (if j = k then Some v else look j t)"
    and look_del: "inv t \<Longrightarrow> look j (del k t) = (if j = k then None else look j t)"
begin

lemma run_inv: "inv t \<Longrightarrow> inv (run_ops upd del ops t)"
proof (induction ops arbitrary: t)
  case (Cons op ops)
  then show ?case by (cases op) (simp_all add: inv_upd inv_del)
qed simp

lemma look_run: "inv t \<Longrightarrow> look k (run_ops upd del ops t) = map_effect ops (\<lambda>j. look j t) k"
proof (induction ops arbitrary: t)
  case (Cons op ops)
  show ?case
  proof (cases op)
    case (Put i v)
    have "(\<lambda>j. look j (upd i v t)) = (\<lambda>j. look j t)(i \<mapsto> v)"
      using Cons.prems by (simp add: look_upd fun_eq_iff)
    then show ?thesis using Cons Put by (simp add: inv_upd)
  next
    case (Remove i)
    have "(\<lambda>j. look j (del i t)) = (\<lambda>j. look j t)(i := None)"
      using Cons.prems by (simp add: look_del fun_eq_iff)
    then show ?thesis using Cons Remove by (simp add: inv_del)
  qed
qed simp

end

interpretation hm: fd_map new_map put hm_remove get hm_inv
  by unfold_locales (simp_all add: hm_inv_new hm_inv_put hm_inv_remove get_new get_put get_remove)

section \<open>The vector is a list\<close>

lemma append_node_eq: "append_node N h = h @ [N]"
  by (induction h) simp_all

lemma walk_eq: "walk h n = drop n h"
  by (induction h n rule: walk.induct) simp_all

lemma vec_at_eq:
  "vec_at v i = (if unat i < length (vec_head v) then Inr (vec_head v ! unat i) else Inl NullPointer)"
proof (cases "unat i < length (vec_head v)")
  case True
  then have "drop (unat i) (vec_head v) = vec_head v ! unat i # drop (Suc (unat i)) (vec_head v)"
    by (rule Cons_nth_drop_Suc [symmetric])
  then show ?thesis using True by (simp add: vec_at_def walk_eq)
qed (simp add: vec_at_def walk_eq)

lemma walk_update_eq:
  "walk_update h n f = (if n < length h then Inr (h[n := f (h ! n)]) else Inl NullPointer)"
  by (induction h n f rule: walk_update.induct) simp_all

lemma vec_update_eq:
  "vec_update v i f = (if unat i < length (vec_head v)
     then Inr (v\<lparr>vec_head := (vec_head v)[unat i := f (vec_head v ! unat i)]\<rparr>) else Inl NullPointer)"
  by (simp add: vec_update_def walk_update_eq)

definition vec_inv :: "'a vector \<Rightarrow> bool" where
  "vec_inv v \<longleftrightarrow> vec_count v = of_nat (length (vec_head v)) \<and> length (vec_head v) < 2 ^ 31"

lemma vec_inv_new: "vec_inv new_vector"
  by (simp add: vec_inv_def new_vector_def)

lemma vec_inv_push: "vec_inv v \<Longrightarrow> length (vec_head v) + 1 < 2 ^ 31 \<Longrightarrow> vec_inv (push_back x v)"
  by (simp add: vec_inv_def push_back_def append_node_eq)

lemma vec_size_eq: "vec_inv v \<Longrightarrow> unat (vec_size v) = length (vec_head v)"
proof -
  assume "vec_inv v"
  then have c: "vec_count v = of_nat (length (vec_head v))" and l: "length (vec_head v) < 2 ^ 31"
    by (simp_all add: vec_inv_def)
  have "sint (vec_count v) = int (length (vec_head v))"
    using l by (simp add: c signed_of_nat signed_take_bit_int_eq_self)
  then have "vec_size v = of_nat (length (vec_head v))"
    unfolding vec_size_def scast_eq by simp
  then show ?thesis using l by (simp add: unat_of_nat)
qed

text \<open>\<^verbatim>\<open>push_back\<close> of the elements of a list in turn.\<close>

fun push_all :: "'a list \<Rightarrow> 'a vector \<Rightarrow> 'a vector" where
  "push_all [] v = v"
| "push_all (x # xs) v = push_all xs (push_back x v)"

lemma push_all_inv:
  "vec_inv v \<Longrightarrow> length (vec_head v) + length xs < 2 ^ 31 \<Longrightarrow>
     vec_inv (push_all xs v) \<and> vec_head (push_all xs v) = vec_head v @ xs"
proof (induction xs arbitrary: v)
  case (Cons x xs)
  have "vec_head (push_back x v) = vec_head v @ [x]" by (simp add: push_back_def append_node_eq)
  then show ?case using Cons.IH [of "push_back x v"] Cons.prems vec_inv_push [of v x] by simp
qed simp

section \<open>Properties\<close>

text \<open>C10. After any sequence of \<^verbatim>\<open>put\<close> and \<^verbatim>\<open>remove\<close> on a new table, also with negative keys and with
  keys that share a bucket, \<^verbatim>\<open>get\<close> finds what a finite map with the same updates holds, and every
  bucket has distinct keys that hash to it.\<close>

theorem hash_table_is_map:
  "get k (run_ops put hm_remove ops new_map) = map_effect ops Map.empty k \<and>
   hm_inv (run_ops put hm_remove ops new_map)"
  using hm.look_run [OF hm_inv_new, of k ops] hm.run_inv [OF hm_inv_new, of ops]
  by (simp add: get_new)

text \<open>A vector holds the elements pushed, in order: \<^verbatim>\<open>size\<close> is their number while they are fewer
  than \<open>2^31\<close> (the counter is an \<^verbatim>\<open>int\<close>), an index below it finds its element, and an index from it
  on goes through the null pointer instead of being refused.\<close>

theorem vector_holds_pushed:
  assumes "length xs < 2 ^ 31"
  shows "unat (vec_size (push_all xs new_vector)) = length xs \<and>
    vec_at (push_all xs new_vector) i =
      (if unat i < length xs then Inr (xs ! unat i) else Inl NullPointer)"
  using push_all_inv [OF vec_inv_new, of xs] assms
  by (simp add: vec_size_eq vec_at_eq new_vector_def)

theorem vector_holds_pushed_witness:
  "unat (vec_size (push_all [7, 8 :: nat] new_vector)) = 2 \<and>
   vec_at (push_all [7, 8 :: nat] new_vector) 1 = Inr 8 \<and>
   vec_at (push_all [7, 8 :: nat] new_vector) 2 = Inl NullPointer"
  using vector_holds_pushed [of "[7, 8 :: nat]" 1] vector_holds_pushed [of "[7, 8 :: nat]" 2]
  by simp

end
