(* ===== verification/Initrd.thy ===== *)
theory Initrd
  imports CString Containers
begin

text \<open>
  The initial ramdisk: the file system of \<^verbatim>\<open>src/src/fs/initrd.cpp\<close> and the tool that writes its
  image, \<^verbatim>\<open>src/tools/make_initrd.cpp\<close>. The image is the list of bytes of the boot module, at the
  address \<open>img_addr\<close>; a pointer into it is a 64-bit address and reading outside it is the
  error \<open>OutOfBounds\<close>. The static tables of the source (\<^verbatim>\<open>files\<close>, \<^verbatim>\<open>open_files\<close>, \<^verbatim>\<open>cur_fd\<close>) are the
  fields of the record \<open>initrd\<close>; a \<^verbatim>\<open>FileInfo*\<close> is the index of the file in \<^verbatim>\<open>files\<close>.
\<close>

section \<open>State\<close>

record file_info =
  data :: u64
  fsize :: u32
  fname :: "u8 list"
  cur_pos :: u64

record initrd =
  img_addr :: u64
  image :: "u8 list"
  files :: "file_info vector"
  open_files :: "u64 unordered_map"
  cur_fd :: i32

section \<open>Reading the image\<close>

definition fetch :: "u64 \<Rightarrow> u8 list \<Rightarrow> u64 \<Rightarrow> nat \<Rightarrow> u8 list result" where
  "fetch addr img p n =
     (if unat (p - addr) + n \<le> length img then Inr (take n (drop (unat (p - addr)) img))
      else Inl OutOfBounds)"

fun le32 :: "u8 list \<Rightarrow> u32" where
  "le32 [] = 0"
| "le32 (b # bs) = ucast b + 256 * le32 bs"

definition FileHeader_size :: u64 where
  "FileHeader_size = 72"

text \<open>One header: offset and size of the data, and the name.\<close>

definition read_header :: "u64 \<Rightarrow> u8 list \<Rightarrow> u64 \<Rightarrow> file_info result" where
  "read_header addr img hdr =
     bindE (fetch addr img hdr 4) (\<lambda>offs.
     bindE (fetch addr img (hdr + 8) 64) (\<lambda>name.
     bindE (fetch addr img (hdr + 4) 4) (\<lambda>size.
     Inr \<lparr>data = addr + ucast (le32 offs), fsize = le32 size, fname = name, cur_pos = 0\<rparr>)))"

fun read_headers ::
  "u64 \<Rightarrow> u8 list \<Rightarrow> nat \<Rightarrow> u64 \<Rightarrow> file_info vector \<Rightarrow> file_info vector result" where
  "read_headers addr img 0 i fs = Inr fs"
| "read_headers addr img (Suc n) i fs =
     bindE (read_header addr img (addr + 4 + i * FileHeader_size)) (\<lambda>info.
     read_headers addr img n (i + 1) (push_back info fs))"

section \<open>The constructor\<close>

record module =
  cmdline :: "u8 list"
  mod_addr :: u64
  mod_bytes :: "u8 list"

definition initrd_img :: "u8 list" where
  "initrd_img = [105, 110, 105, 116, 114, 100, 46, 105, 109, 103, 0]"

text \<open>The last module whose command line compares equal; \<open>found\<close> starts uninitialised.\<close>

fun find_module :: "module list \<Rightarrow> module option \<Rightarrow> module option result" where
  "find_module [] found = Inr found"
| "find_module (m # ms) found =
     bindE (strncmp (cmdline m) initrd_img 10)
       (\<lambda>c. find_module ms (if c = 0 then Some m else found))"

text \<open>
  \<open>uninit\<close> is what the uninitialised local variable \<^verbatim>\<open>initrd_module\<close> holds. The constructor
  appends to the files there are.
\<close>

definition Initrd_ctor :: "module list \<Rightarrow> module option \<Rightarrow> initrd \<Rightarrow> initrd result" where
  "Initrd_ctor mods uninit s =
     (if mods = [] then Inl Halted
      else bindE (find_module mods uninit) (\<lambda>found.
        case found of None \<Rightarrow> Inl Halted
        | Some m \<Rightarrow>
            bindE (fetch (mod_addr m) (mod_bytes m) (mod_addr m) 4) (\<lambda>c.
            bindE (read_headers (mod_addr m) (mod_bytes m) (unat (le32 c)) 0 (files s)) (\<lambda>fs.
            Inr (s\<lparr>img_addr := mod_addr m, image := mod_bytes m, files := fs\<rparr>)))))"

definition initrd_boot :: initrd where
  "initrd_boot = \<lparr>img_addr = 0, image = [], files = new_vector, open_files = new_map, cur_fd = 0\<rparr>"

section \<open>Operations\<close>

text \<open>The search loop of \<^verbatim>\<open>open\<close> over the indices from \<open>i\<close>, with \<open>n\<close> of them left.\<close>

fun find_file :: "file_info vector \<Rightarrow> u8 list \<Rightarrow> nat \<Rightarrow> u64 \<Rightarrow> u64 option result" where
  "find_file fs path 0 i = Inr None"
| "find_file fs path (Suc n) i =
     bindE (vec_at fs i) (\<lambda>f.
     bindE (strncmp (fname f) path 128) (\<lambda>c.
     if c = 0 then Inr (Some i) else find_file fs path n (i + 1)))"

definition Initrd_open :: "initrd \<Rightarrow> u8 list \<Rightarrow> u8 list \<Rightarrow> (i32 \<times> initrd) result" where
  "Initrd_open s path permissions =
     bindE (find_file (files s) path (unat (vec_size (files s))) 0) (\<lambda>info.
     case info of None \<Rightarrow> Inr (- 1, s)
     | Some i \<Rightarrow>
         bindE (vec_update (files s) i (\<lambda>f. f\<lparr>cur_pos := 0\<rparr>)) (\<lambda>fs.
         Inr (cur_fd s, s\<lparr>files := fs, open_files := put (cur_fd s) i (open_files s),
                          cur_fd := cur_fd s + 1\<rparr>)))"

text \<open>\<^verbatim>\<open>read\<close> answers its return value and the bytes it stored in the caller's buffer.\<close>

definition Initrd_read :: "initrd \<Rightarrow> i32 \<Rightarrow> u64 \<Rightarrow> (u64 \<times> u8 list \<times> initrd) result" where
  "Initrd_read s fd count =
     (case get fd (open_files s) of None \<Rightarrow> Inr (- 1, [], s)
      | Some i \<Rightarrow>
          bindE (vec_at (files s) i) (\<lambda>info.
          if count + cur_pos info > ucast (fsize info) then Inr (- 1, [], s)
          else if data info = 0 then Inr (- 1, [], s)
          else bindE (fetch (img_addr s) (image s) (data info + cur_pos info) (unat count)) (\<lambda>buf.
               bindE (vec_update (files s) i (\<lambda>f. f\<lparr>cur_pos := cur_pos f + count\<rparr>)) (\<lambda>fs.
               Inr (count, buf, s\<lparr>files := fs\<rparr>)))))"

definition Initrd_close :: "initrd \<Rightarrow> i32 \<Rightarrow> (i32 \<times> initrd) result" where
  "Initrd_close s fd =
     (let s1 = s\<lparr>cur_fd := cur_fd s - 1\<rparr>
      in case get fd (open_files s1) of None \<Rightarrow> Inr (- 1, s1)
         | Some _ \<Rightarrow> Inr (0, s1\<lparr>open_files := hm_remove fd (open_files s1)\<rparr>))"

definition SEEK_SET :: i32 where "SEEK_SET = 0"
definition SEEK_CUR :: i32 where "SEEK_CUR = 1"
definition SEEK_END :: i32 where "SEEK_END = 2"

definition seek_pos :: "file_info \<Rightarrow> u64 \<Rightarrow> i32 \<Rightarrow> u64" where
  "seek_pos info offset whence =
     (if whence = SEEK_SET then offset
      else if whence = SEEK_CUR then cur_pos info + offset
      else if whence = SEEK_END then ucast (fsize info) - offset
      else cur_pos info)"

definition Initrd_lseek :: "initrd \<Rightarrow> i32 \<Rightarrow> u64 \<Rightarrow> i32 \<Rightarrow> (u64 \<times> initrd) result" where
  "Initrd_lseek s fd offset whence =
     (case get fd (open_files s) of None \<Rightarrow> Inr (- 1, s)
      | Some i \<Rightarrow>
          bindE (vec_at (files s) i) (\<lambda>info.
          bindE (vec_update (files s) i (\<lambda>f. f\<lparr>cur_pos := seek_pos f offset whence\<rparr>)) (\<lambda>fs.
          Inr (seek_pos info offset whence, s\<lparr>files := fs\<rparr>))))"

definition Initrd_tell :: "initrd \<Rightarrow> i32 \<Rightarrow> u64 result" where
  "Initrd_tell s fd =
     (case get fd (open_files s) of None \<Rightarrow> Inr (- 1)
      | Some i \<Rightarrow> bindE (vec_at (files s) i) (\<lambda>info. Inr (cur_pos info)))"

section \<open>The tool that writes the image\<close>

fun to_le32 :: "nat \<Rightarrow> u32 \<Rightarrow> u8 list" where
  "to_le32 0 w = []"
| "to_le32 (Suc n) w = ucast w # to_le32 n (w div 256)"

text \<open>\<^verbatim>\<open>name.substr(name.find_last_of("/\\") + 1)\<close>\<close>

definition base_name :: "u8 list \<Rightarrow> u8 list" where
  "base_name path = rev (takeWhile (\<lambda>c. c \<noteq> 47 \<and> c \<noteq> 92) (rev path))"

text \<open>\<^verbatim>\<open>strncpy\<close>: at most \<open>n\<close> bytes, filled up with 0.\<close>

definition strncpy :: "nat \<Rightarrow> u8 list \<Rightarrow> u8 list" where
  "strncpy n s = take n s @ replicate (n - length s) 0"

definition header_bytes :: "u64 \<Rightarrow> u8 list \<times> u8 list \<Rightarrow> u8 list" where
  "header_bytes offs f =
     to_le32 4 (ucast offs) @ to_le32 4 (of_nat (length (snd f))) @ strncpy 64 (base_name (fst f))"

text \<open>The two loops: the headers, all with the same \<^verbatim>\<open>offs\<close>, and the contents.\<close>

fun write_headers :: "u64 \<Rightarrow> (u8 list \<times> u8 list) list \<Rightarrow> u8 list" where
  "write_headers offs [] = []"
| "write_headers offs (f # fs) = header_bytes offs f @ write_headers offs fs"

fun write_contents :: "(u8 list \<times> u8 list) list \<Rightarrow> u8 list" where
  "write_contents [] = []"
| "write_contents (f # fs) = snd f @ write_contents fs"

text \<open>The arguments after the output: paths with the contents of their files.\<close>

definition make_initrd :: "(u8 list \<times> u8 list) list \<Rightarrow> u8 list" where
  "make_initrd fs =
     (let offs = FileHeader_size * of_nat (length fs) + 4
      in to_le32 4 (of_nat (length fs)) @ write_headers offs fs @ write_contents fs)"

section \<open>The invariant of the tables\<close>

definition ird_ok :: "initrd \<Rightarrow> bool" where
  "ird_ok s \<longleftrightarrow> vec_inv (files s) \<and> hm_inv (open_files s) \<and>
     (\<forall>fd i. get fd (open_files s) = Some i \<longrightarrow> unat i < length (vec_head (files s)))"

definition file_of :: "initrd \<Rightarrow> i32 \<Rightarrow> file_info option" where
  "file_of s fd = map_option (\<lambda>i. vec_head (files s) ! unat i) (get fd (open_files s))"

lemma ird_okD:
  assumes "ird_ok s"
  shows "vec_inv (files s)" "hm_inv (open_files s)"
    "get fd (open_files s) = Some i \<Longrightarrow> unat i < length (vec_head (files s))"
  using assms unfolding ird_ok_def by blast+

lemma vec_at_open:
  assumes "ird_ok s" "get fd (open_files s) = Some i"
  shows "vec_at (files s) i = Inr (vec_head (files s) ! unat i)"
    "vec_update (files s) i f = Inr (files s\<lparr>vec_head :=
      (vec_head (files s))[unat i := f (vec_head (files s) ! unat i)]\<rparr>)"
  using ird_okD(3) [OF assms] by (simp_all add: vec_at_eq vec_update_eq)

lemma ird_ok_files_update:
  assumes "ird_ok s"
  shows "ird_ok (s\<lparr>files := files s\<lparr>vec_head := (vec_head (files s))[n := x]\<rparr>\<rparr>)"
  using assms by (simp add: ird_ok_def vec_inv_def)

lemma find_file_spec:
  assumes "vec_inv fs" "unat i + n \<le> length (vec_head fs)"
  shows "find_file fs path n i = Inr r \<Longrightarrow> (case r of
      None \<Rightarrow> \<forall>k. unat i \<le> k \<and> k < unat i + n \<longrightarrow>
        strncmp (fname (vec_head fs ! k)) path 128 \<noteq> Inr 0
    | Some j \<Rightarrow> unat i \<le> unat j \<and> unat j < unat i + n \<and>
        strncmp (fname (vec_head fs ! unat j)) path 128 = Inr 0 \<and>
        (\<forall>k. unat i \<le> k \<and> k < unat j \<longrightarrow> strncmp (fname (vec_head fs ! k)) path 128 \<noteq> Inr 0))"
  using assms(2)
proof (induction n arbitrary: i)
  case (Suc n)
  have small: "length (vec_head fs) < 2 ^ 31" using assms(1) by (simp add: vec_inv_def)
  then have at_i: "vec_at fs i = Inr (vec_head fs ! unat i)" using Suc.prems(2) by (simp add: vec_at_eq)
  have i': "unat (i + 1) = Suc (unat i)"
    using Suc.prems(2) small by (subst unat_add_nowrap) simp_all
  obtain c where c: "strncmp (fname (vec_head fs ! unat i)) path 128 = Inr c"
    and r: "(if c = 0 then Inr (Some i) else find_file fs path n (i + 1)) = Inr r"
    using Suc.prems(1) at_i by (auto simp: bindE_eq_Inr)
  show ?case
  proof (cases "c = 0")
    case True
    then show ?thesis using r c by auto
  next
    case False
    have rest: "find_file fs path n (i + 1) = Inr r" using r False by simp
    have le: "unat (i + 1) + n \<le> length (vec_head fs)" using Suc.prems(2) i' by simp
    have no: "strncmp (fname (vec_head fs ! unat i)) path 128 \<noteq> Inr 0" using c False by simp
    have "strncmp (fname (vec_head fs ! k)) path 128 \<noteq> Inr 0"
      if "unat i \<le> k" "Suc (unat i) \<le> k \<Longrightarrow> strncmp (fname (vec_head fs ! k)) path 128 \<noteq> Inr 0" for k
      using that no by (cases "k = unat i") auto
    then show ?thesis
      using Suc.IH [OF rest le] by (cases r) (auto simp: i')
  qed
qed auto

lemma find_file_no_null:
  assumes "vec_inv fs" "unat i + n \<le> length (vec_head fs)"
  shows "find_file fs path n i = Inl e \<Longrightarrow> \<exists>k < length (vec_head fs).
    strncmp (fname (vec_head fs ! k)) path 128 = Inl e"
  using assms(2)
proof (induction n arbitrary: i)
  case (Suc n)
  have small: "length (vec_head fs) < 2 ^ 31" using assms(1) by (simp add: vec_inv_def)
  then have at_i: "vec_at fs i = Inr (vec_head fs ! unat i)" using Suc.prems(2) by (simp add: vec_at_eq)
  have i': "unat (i + 1) = Suc (unat i)"
    using Suc.prems(2) small by (subst unat_add_nowrap) simp_all
  have "unat i < length (vec_head fs)" using Suc.prems(2) by simp
  then show ?case
    using Suc.prems at_i i' Suc.IH [of "i + 1"]
    by (fastforce simp: bindE_eq_Inl split: if_splits)
qed simp

text \<open>Opening: the first file whose name compares equal, and the next descriptor.\<close>

lemma open_cases:
  assumes ok: "ird_ok s" and run: "Initrd_open s path perm = Inr (fd, s')"
  shows "(fd = - 1 \<and> s' = s \<and> (\<forall>k < length (vec_head (files s)).
            strncmp (fname (vec_head (files s) ! k)) path 128 \<noteq> Inr 0)) \<or>
    (\<exists>i. fd = cur_fd s \<and> unat i < length (vec_head (files s)) \<and>
       strncmp (fname (vec_head (files s) ! unat i)) path 128 = Inr 0 \<and>
       (\<forall>k < unat i. strncmp (fname (vec_head (files s) ! k)) path 128 \<noteq> Inr 0) \<and>
       s' = s\<lparr>files := files s\<lparr>vec_head := (vec_head (files s))
                [unat i := (vec_head (files s) ! unat i)\<lparr>cur_pos := 0\<rparr>]\<rparr>,
              open_files := put (cur_fd s) i (open_files s), cur_fd := cur_fd s + 1\<rparr>)"
proof -
  note inv = ird_okD(1) [OF ok]
  obtain r where r: "find_file (files s) path (length (vec_head (files s))) 0 = Inr r"
    using run by (auto simp: Initrd_open_def vec_size_eq [OF inv] bindE_eq_Inr)
  note sp = find_file_spec [OF inv _ r, simplified]
  show ?thesis
  proof (cases r)
    case None
    then show ?thesis using run r sp by (simp add: Initrd_open_def vec_size_eq [OF inv])
  next
    case (Some i)
    then show ?thesis using run r sp
      by (intro disjI2 exI [of _ i])
         (auto simp: Initrd_open_def vec_size_eq [OF inv] vec_update_eq)
  qed
qed

lemma open_ok:
  assumes "ird_ok s" "Initrd_open s path perm = Inr (fd, s')"
  shows "ird_ok s'"
  using open_cases [OF assms]
proof (elim disjE exE conjE)
  fix i assume "unat i < length (vec_head (files s))"
    and s': "s' = s\<lparr>files := files s\<lparr>vec_head := (vec_head (files s))
                [unat i := (vec_head (files s) ! unat i)\<lparr>cur_pos := 0\<rparr>]\<rparr>,
              open_files := put (cur_fd s) i (open_files s), cur_fd := cur_fd s + 1\<rparr>"
  then show "ird_ok s'"
    using ird_okD [OF assms(1)]
    by (auto simp: ird_ok_def hm_inv_put get_put vec_inv_def split: if_splits)
qed (use assms(1) in simp)

lemma read_ok:
  assumes "ird_ok s" "Initrd_read s fd n = Inr (r, buf, s')"
  shows "ird_ok s'"
  using assms vec_at_open [OF assms(1)] ird_ok_files_update [OF assms(1)]
  by (auto simp: Initrd_read_def bindE_eq_Inr split: option.splits if_splits)

lemma close_ok:
  assumes "ird_ok s" "Initrd_close s fd = Inr (r, s')"
  shows "ird_ok s'"
  using assms ird_okD [OF assms(1)]
  by (auto simp: Initrd_close_def Let_def ird_ok_def hm_inv_remove get_remove split: option.splits if_splits)

lemma lseek_ok:
  assumes "ird_ok s" "Initrd_lseek s fd off whence = Inr (r, s')"
  shows "ird_ok s'"
  using assms vec_at_open [OF assms(1)] ird_ok_files_update [OF assms(1)]
  by (auto simp: Initrd_lseek_def bindE_eq_Inr split: option.splits if_splits)

section \<open>Reading and seeking\<close>

text \<open>The bytes of a file, and that they lie in the image without wrapping.\<close>

definition file_bytes :: "initrd \<Rightarrow> file_info \<Rightarrow> u8 list" where
  "file_bytes s f = take (unat (fsize f)) (drop (unat (data f - img_addr s)) (image s))"

definition in_image :: "initrd \<Rightarrow> file_info \<Rightarrow> bool" where
  "in_image s f \<longleftrightarrow> data f \<noteq> 0 \<and> unat (img_addr s) + length (image s) < 2 ^ 64 \<and>
     img_addr s \<le> data f \<and> unat (data f - img_addr s) + unat (fsize f) \<le> length (image s)"

lemma fetch_in_image:
  assumes "in_image s f" "unat p + n \<le> unat (fsize f)"
  shows "fetch (img_addr s) (image s) (data f + p) n = Inr (take n (drop (unat p) (file_bytes s f)))"
proof -
  have l: "unat (data f - img_addr s) + unat (fsize f) \<le> length (image s)"
    "unat (img_addr s) + length (image s) < 2 ^ 64"
    using assms(1) by (simp_all add: in_image_def)
  have "unat (data f - img_addr s + p) = unat (data f - img_addr s) + unat p"
    using l assms(2) by (intro unat_add_nowrap) simp
  moreover have "data f + p - img_addr s = data f - img_addr s + p" by (simp add: algebra_simps)
  ultimately have u: "unat (data f + p - img_addr s) = unat (data f - img_addr s) + unat p"
    by (simp only:)
  have "take n (drop (unat p) (file_bytes s f))
      = take n (drop (unat (data f - img_addr s) + unat p) (image s))"
    using assms(2) by (simp add: file_bytes_def drop_take min_def add.commute)
  then show ?thesis using l assms(2) by (simp add: fetch_def u)
qed

lemma read_cases:
  assumes ok: "ird_ok s" and g: "get fd (open_files s) = Some i"
    and f: "vec_head (files s) ! unat i = f" "in_image s f"
    and nowrap: "unat (cur_pos f) + unat n < 2 ^ 64"
  shows "Initrd_read s fd n =
    (if unat (cur_pos f) + unat n \<le> unat (fsize f)
     then Inr (n, take (unat n) (drop (unat (cur_pos f)) (file_bytes s f)),
       s\<lparr>files := files s\<lparr>vec_head := (vec_head (files s))[unat i := f\<lparr>cur_pos := cur_pos f + n\<rparr>]\<rparr>\<rparr>)
     else Inr (- 1, [], s))"
proof -
  have u: "unat (n + cur_pos f) = unat (cur_pos f) + unat n"
    using nowrap by (subst unat_add_nowrap) simp_all
  have "unat (ucast (fsize f) :: u64) = unat (fsize f)"
    by (rule unat_ucast_up)
  then have c: "n + cur_pos f > ucast (fsize f) \<longleftrightarrow> \<not> unat (cur_pos f) + unat n \<le> unat (fsize f)"
    using u by (simp add: word_less_nat_alt not_le)
  show ?thesis
    using g f vec_at_open [OF ok g] fetch_in_image [OF f(2), of "cur_pos f" "unat n"] c
    by (simp add: Initrd_read_def in_image_def)
qed

section \<open>Writing and parsing an image\<close>

lemma le32_to_le32:
  "n \<le> 4 \<Longrightarrow> unat (le32 (to_le32 n w)) = unat w mod 256 ^ n"
proof (induction n arbitrary: w)
  case (Suc n)
  have r: "unat (le32 (to_le32 n (w div 256))) = unat w div 256 mod 256 ^ n"
    using Suc by (simp add: unat_div)
  have "(256 :: nat) ^ n \<le> 256 ^ 3" using Suc.prems by (intro power_increasing) simp_all
  then have small: "unat w div 256 mod 256 ^ n < 256 ^ 3"
    by (meson less_le_trans mod_less_divisor zero_less_numeral zero_less_power)
  have b: "unat (ucast (ucast w :: u8) :: u32) = unat w mod 256"
    by (simp add: unsigned_ucast_eq take_bit_eq_mod unat_mod)
  have "unat (256 * le32 (to_le32 n (w div 256))) = 256 * (unat w div 256 mod 256 ^ n)"
    using small r by (simp add: unat_word_ariths)
  then have "unat (le32 (to_le32 (Suc n) w)) = unat w mod 256 + 256 * (unat w div 256 mod 256 ^ n)"
    using small b by (simp add: unat_add_nowrap)
  also have "\<dots> = unat w mod 256 ^ Suc n" by (simp add: mod_mult2_eq add.commute)
  finally show ?case .
qed simp

lemma le32_roundtrip: "le32 (to_le32 4 w) = w"
  using le32_to_le32 [of 4 w] unat_less_u32 [of w] by (simp add: word_unat_eq_iff)

lemma length_to_le32 [simp]: "length (to_le32 n w) = n"
  by (induction n arbitrary: w) simp_all

lemma length_strncpy [simp]: "length (strncpy n s) = n"
  by (simp add: strncpy_def)

lemma length_header [simp]: "length (header_bytes offs f) = 72"
  by (simp add: header_bytes_def)

lemma write_headers_append: "write_headers offs (fs @ gs) = write_headers offs fs @ write_headers offs gs"
  by (induction fs) simp_all

lemma length_write_headers [simp]: "length (write_headers offs fs) = 72 * length fs"
  by (induction fs) simp_all

lemma write_contents_concat: "write_contents fs = concat (map snd fs)"
  by (induction fs) simp_all

text \<open>Fetching a part of a list of bytes that is known to stand at an offset.\<close>

lemma fetch_part:
  assumes "img = a @ b @ c" "unat (p - addr) = length a" "length b = n"
  shows "fetch addr img p n = Inr b"
  using assms by (simp add: fetch_def)

lemma offset_nat:
  assumes "unat (addr :: u64) + n < 2 ^ 64"
  shows "unat (addr + of_nat n - addr) = n"
  using assms by (simp add: unat_of_nat)

text \<open>What the constructor gets for file \<open>i\<close>; the header's offset is the same for all files.\<close>

definition info_of :: "u64 \<Rightarrow> u64 \<Rightarrow> u8 list \<times> u8 list \<Rightarrow> file_info" where
  "info_of addr offs f = \<lparr>data = addr + ucast (ucast offs :: u32),
     fsize = of_nat (length (snd f)), fname = strncpy 64 (base_name (fst f)), cur_pos = 0\<rparr>"

lemma read_header_written:
  assumes img: "img = a @ header_bytes offs f @ c" and bound: "unat addr + length img < 2 ^ 64"
  shows "read_header addr img (addr + of_nat (length a)) = Inr (info_of addr offs f)"
proof -
  let ?o = "to_le32 4 (ucast offs :: u32)" and ?s = "to_le32 4 (of_nat (length (snd f)) :: u32)"
    and ?n = "strncpy 64 (base_name (fst f))"
  have e: "addr + of_nat (length a) + 8 = addr + of_nat (length a + 8)"
    "addr + of_nat (length a) + 4 = addr + of_nat (length a + 4)" by simp_all
  have o: "unat (addr + of_nat (length a + 8) - addr) = length a + 8"
    "unat (addr + of_nat (length a + 4) - addr) = length a + 4"
    using bound by (simp_all only: img, intro offset_nat, simp, intro offset_nat, simp)
  have "fetch addr img (addr + of_nat (length a)) 4 = Inr ?o"
    by (rule fetch_part [of _ a _ "?s @ ?n @ c"])
       (use bound in \<open>simp_all add: img header_bytes_def unat_of_nat\<close>)
  moreover have "fetch addr img (addr + of_nat (length a) + 8) 64 = Inr ?n"
    unfolding e by (rule fetch_part [of _ "a @ ?o @ ?s" _ c])
       (simp_all only: o, simp_all add: img header_bytes_def)
  moreover have "fetch addr img (addr + of_nat (length a) + 4) 4 = Inr ?s"
    unfolding e by (rule fetch_part [of _ "a @ ?o" _ "?n @ c"])
       (simp_all only: o, simp_all add: img header_bytes_def)
  ultimately show ?thesis
    by (simp add: read_header_def info_of_def le32_roundtrip)
qed

lemma read_headers_written:
  assumes "img = a @ write_headers offs gs @ c" and "unat addr + length img < 2 ^ 64"
    and "length a = 4 + 72 * i"
  shows "read_headers addr img (length gs) (of_nat i) v = Inr (push_all (map (info_of addr offs) gs) v)"
  using assms
proof (induction gs arbitrary: a i v)
  case (Cons g gs)
  have pos: "addr + 4 + of_nat i * FileHeader_size = addr + of_nat (length a)"
    using Cons.prems(3) by (simp add: FileHeader_size_def algebra_simps)
  have "read_header addr img (addr + of_nat (length a)) = Inr (info_of addr offs g)"
    by (rule read_header_written [of _ _ _ _ "write_headers offs gs @ c"])
       (use Cons.prems in simp_all)
  moreover have "read_headers addr img (length gs) (of_nat (Suc i)) (push_back (info_of addr offs g) v)
      = Inr (push_all (map (info_of addr offs) gs) (push_back (info_of addr offs g) v))"
    by (rule Cons.IH [of "a @ header_bytes offs g"]) (use Cons.prems in simp_all)
  moreover have "of_nat i + 1 = (of_nat (Suc i) :: u64)" by simp
  ultimately show ?case by (simp add: pos del: of_nat_Suc)
qed simp

text \<open>A boot module that holds the image of these files.\<close>

definition initrd_module :: "module \<Rightarrow> (u8 list \<times> u8 list) list \<Rightarrow> bool" where
  "initrd_module m fs \<longleftrightarrow> mod_bytes m = make_initrd fs \<and>
     strncmp (cmdline m) initrd_img 10 = Inr 0 \<and> mod_addr m \<noteq> 0 \<and>
     unat (mod_addr m) + length (make_initrd fs) < 2 ^ 64 \<and> length (make_initrd fs) < 2 ^ 31"

definition content_offset :: "(u8 list \<times> u8 list) list \<Rightarrow> u64" where
  "content_offset fs = FileHeader_size * of_nat (length fs) + 4"

lemma make_initrd_parts:
  "make_initrd fs = to_le32 4 (of_nat (length fs)) @ write_headers (content_offset fs) fs @ write_contents fs"
  by (simp add: make_initrd_def content_offset_def Let_def)

lemma length_make_initrd: "length (make_initrd fs) = 4 + 72 * length fs + length (write_contents fs)"
  by (simp add: make_initrd_parts)

lemma ctor_on_image:
  assumes "initrd_module m fs"
  shows "Initrd_ctor [m] u initrd_boot = Inr (initrd_boot\<lparr>img_addr := mod_addr m, image := make_initrd fs,
      files := push_all (map (info_of (mod_addr m) (content_offset fs)) fs) new_vector\<rparr>)"
    and "length fs < 2 ^ 31"
    and "unat (content_offset fs) = 4 + 72 * length fs"
proof -
  let ?img = "make_initrd fs"
  have b: "unat (mod_addr m) + length ?img < 2 ^ 64" "length ?img < 2 ^ 31"
    using assms by (simp_all add: initrd_module_def)
  show len: "length fs < 2 ^ 31" using b(2) by (simp add: length_make_initrd)
  have "content_offset fs = of_nat (4 + 72 * length fs)"
    by (simp add: content_offset_def FileHeader_size_def)
  then show "unat (content_offset fs) = 4 + 72 * length fs"
    using b(2) by (simp only: unat_of_nat) (simp add: length_make_initrd)
  have c: "fetch (mod_addr m) ?img (mod_addr m) 4 = Inr (to_le32 4 (of_nat (length fs)))"
    by (rule fetch_part [of _ "[]" _ "write_headers (content_offset fs) fs @ write_contents fs"])
       (simp_all add: make_initrd_parts)
  have n: "unat (le32 (to_le32 4 (of_nat (length fs)))) = length fs"
    using len by (simp add: le32_roundtrip unat_of_nat)
  have h: "read_headers (mod_addr m) ?img (length fs) 0 new_vector
      = Inr (push_all (map (info_of (mod_addr m) (content_offset fs)) fs) new_vector)"
    using read_headers_written [of ?img "to_le32 4 (of_nat (length fs))" "content_offset fs" fs
        "write_contents fs" "mod_addr m" 0 new_vector] b(1)
    by (simp add: make_initrd_parts)
  have f: "find_module [m] u = Inr (Some m)" "mod_bytes m = ?img"
    using assms by (simp_all add: initrd_module_def)
  then show "Initrd_ctor [m] u initrd_boot = Inr (initrd_boot\<lparr>img_addr := mod_addr m, image := ?img,
      files := push_all (map (info_of (mod_addr m) (content_offset fs)) fs) new_vector\<rparr>)"
    using c n h by (simp add: Initrd_ctor_def initrd_boot_def)
qed

lemma strncpy_cstr: "length s < n \<Longrightarrow> strncpy n s = cstr s (replicate (n - Suc (length s)) 0)"
  by (auto simp: strncpy_def cstr_def dest!: less_imp_Suc_add)

lemma take_concat_first: "take (length x) (concat (x # xs)) = x"
  by simp

text \<open>The state after booting from an image.\<close>

lemma ctor_state:
  assumes m: "initrd_module m fs"
  obtains s where "Initrd_ctor [m] u initrd_boot = Inr s" "ird_ok s" "cur_fd s = 0"
    "open_files s = new_map"
    "vec_head (files s) = map (info_of (mod_addr m) (content_offset fs)) fs"
    "\<And>f. f \<in> set fs \<Longrightarrow> in_image s (info_of (mod_addr m) (content_offset fs) f)"
    "\<And>f. f \<in> set fs \<Longrightarrow> file_bytes s (info_of (mod_addr m) (content_offset fs) f)
       = take (length (snd f)) (concat (map snd fs))"
proof
  note c = ctor_on_image [OF m]
  let ?s = "initrd_boot\<lparr>img_addr := mod_addr m, image := make_initrd fs,
      files := push_all (map (info_of (mod_addr m) (content_offset fs)) fs) new_vector\<rparr>"
  show "Initrd_ctor [m] u initrd_boot = Inr ?s" by (rule c(1))
  have v: "vec_inv (files ?s)" "vec_head (files ?s) = map (info_of (mod_addr m) (content_offset fs)) fs"
    using push_all_inv [OF vec_inv_new, of "map (info_of (mod_addr m) (content_offset fs)) fs"] c(2)
    by (simp_all add: new_vector_def)
  then show "vec_head (files ?s) = map (info_of (mod_addr m) (content_offset fs)) fs" by blast
  show "ird_ok ?s" "cur_fd ?s = 0" "open_files ?s = new_map"
    using v(1) by (simp_all add: ird_ok_def initrd_boot_def hm_inv_new get_new)
  have b: "unat (mod_addr m) + length (make_initrd fs) < 2 ^ 64" "length (make_initrd fs) < 2 ^ 31"
    "mod_addr m \<noteq> 0"
    using m by (simp_all add: initrd_module_def)
  fix f assume f: "f \<in> set fs"
  let ?i = "info_of (mod_addr m) (content_offset fs) f"
  have "length (snd f) \<le> length (write_contents fs)"
    using f by (induction fs) auto
  then have len: "length (snd f) + (4 + 72 * length fs) \<le> length (make_initrd fs)"
    by (simp add: length_make_initrd)
  have off: "unat (ucast (ucast (content_offset fs) :: u32) :: u64) = 4 + 72 * length fs"
    using len b(2)
    by (simp only: unat_ucast_up) (simp add: unsigned_ucast_eq c(3) take_bit_nat_eq_self_iff)
  have d: "unat (data ?i) = unat (mod_addr m) + (4 + 72 * length fs)"
    using off len b(1) by (simp add: info_of_def unat_add_nowrap)
  have dd: "unat (data ?i - mod_addr m) = 4 + 72 * length fs"
    using off by (simp add: info_of_def)
  have sz: "unat (fsize ?i) = length (snd f)"
    using len b(2) by (simp add: info_of_def unat_of_nat)
  show "in_image ?s ?i"
    using d dd sz len b by (auto simp: in_image_def word_le_nat_alt)
  show "file_bytes ?s ?i = take (length (snd f)) (concat (map snd fs))"
    using dd sz by (simp add: file_bytes_def make_initrd_parts write_contents_concat)
qed

lemma strncmp_zero_iff:
  "no_nul a \<Longrightarrow> no_nul b \<Longrightarrow> strncmp (cstr a ra) (cstr b rb) n = Inr 0 \<longleftrightarrow>
    take (min n (min (length a) (length b))) a = take (min n (min (length a) (length b))) b"
  by (simp add: strncmp_cstr first_diff_0)

lemma strncmp_total: "no_nul a \<Longrightarrow> no_nul b \<Longrightarrow> \<exists>c. strncmp (cstr a ra) (cstr b rb) n = Inr c"
  by (simp add: strncmp_cstr)

text \<open>With proper names and path, \<open>open\<close> returns.\<close>

lemma open_total:
  assumes "ird_ok s" "no_nul path"
    and "\<And>f. f \<in> set (vec_head (files s)) \<Longrightarrow> \<exists>n r. fname f = cstr n r \<and> no_nul n"
  shows "\<exists>fd s'. Initrd_open s (cstr path pr) perm = Inr (fd, s')"
proof -
  note inv = ird_okD(1) [OF assms(1)]
  obtain r where "find_file (files s) (cstr path pr) (length (vec_head (files s))) 0 = Inr r"
  proof (cases "find_file (files s) (cstr path pr) (length (vec_head (files s))) 0")
    case (Inl e)
    then obtain k where "k < length (vec_head (files s))"
      "strncmp (fname (vec_head (files s) ! k)) (cstr path pr) 128 = Inl e"
      using find_file_no_null [OF inv _ Inl] by auto
    then show ?thesis using assms(2,3) strncmp_total by (metis nth_mem sum.distinct(1))
  qed
  moreover have "unat j < length (vec_head (files s))" if "r = Some j" for j
    using find_file_spec [OF inv _ calculation] that by simp
  ultimately show ?thesis
    by (auto simp: Initrd_open_def vec_size_eq [OF inv] vec_update_eq split: option.splits)
qed

lemma open_single:
  assumes "ird_ok s" "vec_head (files s) = [f]" "fname f = cstr n r" "no_nul n"
  shows "Initrd_open s (cstr n pr) perm = Inr (cur_fd s,
    s\<lparr>files := files s\<lparr>vec_head := [f\<lparr>cur_pos := 0\<rparr>]\<rparr>,
      open_files := put (cur_fd s) 0 (open_files s), cur_fd := cur_fd s + 1\<rparr>)"
proof -
  obtain fd s' where o: "Initrd_open s (cstr n pr) perm = Inr (fd, s')"
    using open_total [OF assms(1,4), of pr perm] assms(2-4) by auto
  have "strncmp (cstr n r) (cstr n pr) 128 = Inr 0" using assms(4) by (simp add: strncmp_zero_iff)
  then show ?thesis
    using open_cases [OF assms(1) o] o assms(2,3) by (auto simp: unat_eq_zero)
qed

lemma fetch_error: "fetch a img p n = Inl e \<Longrightarrow> e = OutOfBounds"
  by (simp add: fetch_def split: if_splits)

lemma strncmp_error: "strncmp a b n = Inl e \<Longrightarrow> e = OutOfBounds"
  by (induction a b n rule: strncmp.induct) (simp_all split: if_splits)

lemma ops_error:
  assumes "ird_ok s"
  shows "Initrd_open s path perm = Inl e \<Longrightarrow> e = OutOfBounds"
    and "Initrd_read s fd n = Inl e \<Longrightarrow> e = OutOfBounds"
proof -
  note inv = ird_okD(1) [OF assms]
  show "Initrd_open s path perm = Inl e \<Longrightarrow> e = OutOfBounds"
  proof -
    assume o: "Initrd_open s path perm = Inl e"
    show "e = OutOfBounds"
    proof (cases "find_file (files s) path (length (vec_head (files s))) 0")
      case (Inl e')
      then have "e' = e" using o by (simp add: Initrd_open_def vec_size_eq [OF inv])
      then show ?thesis using find_file_no_null [OF inv _ Inl] strncmp_error by auto
    next
      case (Inr r)
      then show ?thesis
        using o find_file_spec [OF inv _ Inr]
        by (auto simp: Initrd_open_def vec_size_eq [OF inv] vec_update_eq split: option.splits)
    qed
  qed
  show "Initrd_read s fd n = Inl e \<Longrightarrow> e = OutOfBounds"
    using vec_at_open [OF assms]
    by (auto simp: Initrd_read_def bindE_eq_Inl split: option.splits if_splits dest: fetch_error)
qed

lemma lseek_eq:
  assumes "ird_ok s" "get fd (open_files s) = Some i" "vec_head (files s) ! unat i = f"
  shows "Initrd_lseek s fd off whence = Inr (seek_pos f off whence, s\<lparr>files := files s\<lparr>vec_head :=
    (vec_head (files s))[unat i := f\<lparr>cur_pos := seek_pos f off whence\<rparr>]\<rparr>\<rparr>)"
  using assms vec_at_open [OF assms(1,2)] by (simp add: Initrd_lseek_def)

lemma in_image_pos [simp]: "in_image s (f\<lparr>cur_pos := p\<rparr>) = in_image s f"
  by (simp add: in_image_def)

lemma in_image_files [simp]: "in_image (s\<lparr>files := v\<rparr>) = in_image s"
  by (simp add: in_image_def fun_eq_iff)

lemma file_bytes_pos [simp]:
  "file_bytes s (f\<lparr>cur_pos := p\<rparr>) = file_bytes s f" "file_bytes (s\<lparr>files := v\<rparr>) f = file_bytes s f"
  by (simp_all add: file_bytes_def)

text \<open>A demonstration image with one file.\<close>

definition demo_module :: module where
  "demo_module = \<lparr>cmdline = initrd_img, mod_addr = 0x1000, mod_bytes = make_initrd [([47, 97], [1, 2, 3])]\<rparr>"

lemma demo_module_ok: "initrd_module demo_module [([47, 97], [1, 2, 3])]"
proof -
  have "strncmp initrd_img initrd_img 10 = Inr 0"
    by (simp add: initrd_img_def numeral_eq_Suc)
  then show ?thesis
    by (simp add: initrd_module_def demo_module_def length_make_initrd)
qed

lemma demo_base_name: "base_name [47, 97] = [97]"
  by (simp add: base_name_def)

definition demo_info :: file_info where
  "demo_info = info_of 0x1000 (content_offset [([47, 97], [1, 2, 3])]) ([47, 97], [1, 2, 3])"

lemma demo_info_simps: "cur_pos demo_info = 0" "unat (fsize demo_info) = 3" "data demo_info = 0x1000 + 76"
  by (simp_all add: demo_info_def info_of_def content_offset_def FileHeader_size_def)

lemma demo_state:
  obtains s where "ird_ok s" "get 0 (open_files s) = Some 0" "vec_head (files s) ! unat (0 :: u64) = demo_info"
    "in_image s demo_info" "img_addr s = 0x1000"
proof -
  obtain s where c: "Initrd_ctor [demo_module] None initrd_boot = Inr s"
    and s: "ird_ok s" "vec_head (files s) = [demo_info]" "in_image s demo_info"
    by (rule ctor_state [OF demo_module_ok, of None]) (simp add: demo_module_def demo_info_def)
  have a: "img_addr s = 0x1000"
    using c unfolding ctor_on_image(1) [OF demo_module_ok] by (auto simp: demo_module_def)
  show ?thesis
  proof (rule that [of "s\<lparr>open_files := put 0 0 new_map\<rparr>"])
    show "ird_ok (s\<lparr>open_files := put 0 0 new_map\<rparr>)"
      using s(1,2) by (simp add: ird_ok_def hm_inv_put hm_inv_new get_put get_new)
    show "get 0 (open_files (s\<lparr>open_files := put 0 0 new_map\<rparr>)) = Some 0"
      by (simp add: get_put hm_inv_new)
  qed (use s a in \<open>simp_all add: in_image_def\<close>)
qed

section \<open>Properties\<close>



text \<open>Reading: with \<open>pos\<close> bytes of the file behind it, \<^verbatim>\<open>read\<close> of \<open>n\<close> bytes returns \<open>n\<close> and the file's bytes
  from \<open>pos\<close> on when they are all there, and moves the position; otherwise it returns -1 and
  changes nothing, so a read across the end gives nothing at all.\<close>

theorem initrd_read_bytes:
  assumes "ird_ok s" and "get fd (open_files s) = Some i" and "vec_head (files s) ! unat i = f"
    and "in_image s f" and "unat (cur_pos f) + unat n < 2 ^ 64"
  shows "if unat (cur_pos f) + unat n \<le> unat (fsize f)
    then \<exists>s'. Initrd_read s fd n = Inr (n, take (unat n) (drop (unat (cur_pos f)) (file_bytes s f)), s') \<and>
      Initrd_tell s' fd = Inr (cur_pos f + n)
    else Initrd_read s fd n = Inr (- 1, [], s)"
proof -
  let ?s' = "s\<lparr>files := files s\<lparr>vec_head := (vec_head (files s))[unat i := f\<lparr>cur_pos := cur_pos f + n\<rparr>]\<rparr>\<rparr>"
  have "Initrd_tell ?s' fd = Inr (cur_pos f + n)"
    using assms(2) ird_okD(3) [OF assms(1,2)] by (simp add: Initrd_tell_def vec_at_eq)
  then show ?thesis using read_cases [OF assms] by auto
qed

theorem initrd_read_bytes_witness:
  "\<exists>s fd. Initrd_read s fd 4 = Inr (- 1, [], s)"
proof -
  obtain s where s: "ird_ok s" "get 0 (open_files s) = Some 0"
    "vec_head (files s) ! unat (0 :: u64) = demo_info" "in_image s demo_info"
    by (rule demo_state)
  then have "Initrd_read s 0 4 = Inr (- 1, [], s)"
    using initrd_read_bytes [of s 0 0 demo_info 4] by (simp add: demo_info_simps)
  then show ?thesis by blast
qed

text \<open>The bound of \<^verbatim>\<open>read\<close> does not keep it inside the file: after seeking to a negative position
  \<open>-k\<close>, reading \<open>k\<close> bytes passes the check, because the sum wraps to 0, and returns the \<open>k\<close> bytes of
  memory before the file.\<close>

theorem initrd_read_before_file:
  assumes "ird_ok s" and "get fd (open_files s) = Some i" and "vec_head (files s) ! unat i = f"
    and "in_image s f" and "unat k \<le> unat (data f - img_addr s)"
  shows "\<exists>s1 s2. Initrd_lseek s fd (- k) SEEK_SET = Inr (- k, s1) \<and>
    Initrd_read s1 fd k =
      Inr (k, take (unat k) (drop (unat (data f - img_addr s) - unat k) (image s)), s2)"
proof -
  let ?s1 = "s\<lparr>files := files s\<lparr>vec_head := (vec_head (files s))[unat i := f\<lparr>cur_pos := - k\<rparr>]\<rparr>\<rparr>"
  note i = ird_okD(3) [OF assms(1,2)]
  have l: "Initrd_lseek s fd (- k) SEEK_SET = Inr (- k, ?s1)"
    using lseek_eq [OF assms(1-3)] by (simp add: seek_pos_def)
  have "data f + - k - img_addr s = (data f - img_addr s) - k" by (simp add: algebra_simps)
  then have u: "unat (data f + - k - img_addr s) = unat (data f - img_addr s) - unat k"
    using assms(5) by (simp only: unat_sub_nowrap)
  have le: "unat (data f - img_addr s) \<le> length (image s)"
    using assms(4) by (simp add: in_image_def)
  have "fetch (img_addr s) (image s) (data f + - k) (unat k)
      = Inr (take (unat k) (drop (unat (data f - img_addr s) - unat k) (image s)))"
    using u le assms(5) by (simp add: fetch_def)
  then have "\<exists>s2. Initrd_read ?s1 fd k =
      Inr (k, take (unat k) (drop (unat (data f - img_addr s) - unat k) (image s)), s2)"
    using assms(2,4) i by (simp add: Initrd_read_def vec_at_eq vec_update_eq in_image_def)
  then show ?thesis using l by blast
qed

theorem initrd_read_before_file_witness:
  "\<exists>s fd s1 s2 buf. Initrd_lseek s fd (- 8) SEEK_SET = Inr (- 8, s1) \<and> Initrd_read s1 fd 8 = Inr (8, buf, s2)"
proof -
  obtain s where s: "ird_ok s" "get 0 (open_files s) = Some 0"
    "vec_head (files s) ! unat (0 :: u64) = demo_info" "in_image s demo_info" "img_addr s = 0x1000"
    by (rule demo_state)
  have "unat (8 :: u64) \<le> unat (data demo_info - img_addr s)"
    by (simp add: demo_info_simps s(5))
  from initrd_read_before_file [OF s(1-4) this] show ?thesis by blast
qed

lemma open_read_single:
  assumes s: "ird_ok s" "cur_fd s = 0" "open_files s = new_map" and h: "vec_head (files s) = [f]"
    and f: "fname f = cstr name r" "no_nul name" "cur_pos f = 0" "in_image s f"
    and n: "unat (fsize f) = n" "n < 2 ^ 31"
  shows "\<exists>s1 s2. Initrd_open s (cstr name pr) perm = Inr (0, s1) \<and>
    Initrd_read s1 0 (of_nat n) = Inr (of_nat n, take n (file_bytes s f), s2)"
proof -
  have z: "f\<lparr>cur_pos := 0\<rparr> = f" using f(3) by simp
  define s1 where "s1 = s\<lparr>files := files s\<lparr>vec_head := [f]\<rparr>, open_files := put 0 0 (open_files s), cur_fd := 1\<rparr>"
  have o: "Initrd_open s (cstr name pr) perm = Inr (0, s1)"
    using open_single [OF s(1) h f(1,2), of pr perm] by (simp add: s1_def s(2) z)
  have l: "unat (of_nat n :: u64) = n" using n(2) by (simp add: unat_of_nat)
  have "\<exists>s2. Initrd_read s1 0 (of_nat n) = Inr (of_nat n, take n (file_bytes s1 f), s2)"
    using read_cases [OF open_ok [OF s(1) o], of 0 0 f "of_nat n"] f(3,4) n l
    by (simp add: s1_def s(3) get_put hm_inv_new in_image_def)
  then show ?thesis using o by (simp add: s1_def file_bytes_def)
qed

text \<open>C11. The kernel parses what the tool wrote: from the image of the files \<open>fs\<close> the constructor
  makes one entry per file, with the file's size and base name, and opening the base name of a
  single file and reading its whole length returns its contents. The tool never advances
  the offset it writes, so with several files each entry has the first bytes of all contents
  together instead of its own.\<close>

theorem initrd_image_roundtrip:
  assumes "initrd_module m fs"
    and "\<forall>f \<in> set fs. length (base_name (fst f)) < 64 \<and> no_nul (base_name (fst f))"
  shows "\<exists>s. Initrd_ctor [m] u initrd_boot = Inr s \<and> ird_ok s \<and>
    length (vec_head (files s)) = length fs \<and>
    (\<forall>k < length fs. let info = vec_head (files s) ! k; size = length (snd (fs ! k)) in
       (\<exists>r. fname info = cstr (base_name (fst (fs ! k))) r) \<and> unat (fsize info) = size \<and>
       file_bytes s info = take size (concat (map snd fs))) \<and>
    (\<forall>path bytes pr perm. fs = [(path, bytes)] \<longrightarrow>
       (\<exists>s1 s2. Initrd_open s (cstr (base_name path) pr) perm = Inr (0, s1) \<and>
          Initrd_read s1 0 (of_nat (length bytes)) = Inr (of_nat (length bytes), bytes, s2)))"
proof -
  obtain s where c: "Initrd_ctor [m] u initrd_boot = Inr s" and s: "ird_ok s" "cur_fd s = 0"
    "open_files s = new_map" and h: "vec_head (files s) = map (info_of (mod_addr m) (content_offset fs)) fs"
    and ii: "\<And>f. f \<in> set fs \<Longrightarrow> in_image s (info_of (mod_addr m) (content_offset fs) f)"
    and fb: "\<And>f. f \<in> set fs \<Longrightarrow> file_bytes s (info_of (mod_addr m) (content_offset fs) f)
       = take (length (snd f)) (concat (map snd fs))"
    by (rule ctor_state [OF assms(1), where u = u]) (blast intro: that)
  have small: "length (snd f) < 2 ^ 31" if "f \<in> set fs" for f
  proof -
    have "length (snd f) \<le> length (write_contents fs)" using that by (induction fs) auto
    then show ?thesis using assms(1) by (simp add: initrd_module_def length_make_initrd)
  qed
  have name: "fname (info_of (mod_addr m) offs f) =
      cstr (base_name (fst f)) (replicate (64 - Suc (length (base_name (fst f)))) 0)"
    if "f \<in> set fs" for f offs
    using assms(2) that by (simp add: info_of_def strncpy_cstr)
  have sz: "unat (fsize (info_of (mod_addr m) offs f)) = length (snd f)" if "f \<in> set fs" for f offs
    using small [OF that] by (simp add: info_of_def unat_of_nat)
  have each: "let info = vec_head (files s) ! k; size = length (snd (fs ! k)) in
       (\<exists>r. fname info = cstr (base_name (fst (fs ! k))) r) \<and> unat (fsize info) = size \<and>
       file_bytes s info = take size (concat (map snd fs))" if k: "k < length fs" for k
    using name [OF nth_mem [OF k]] sz [OF nth_mem [OF k]] fb [OF nth_mem [OF k]] k
    by (auto simp: h Let_def)
  have whole: "\<exists>s1 s2. Initrd_open s (cstr (base_name path) pr) perm = Inr (0, s1) \<and>
          Initrd_read s1 0 (of_nat (length bytes)) = Inr (of_nat (length bytes), bytes, s2)"
    if fs: "fs = [(path, bytes)]" for path bytes pr perm
  proof -
    have mem: "(path, bytes) \<in> set fs" by (simp add: fs)
    have hd: "vec_head (files s) = [info_of (mod_addr m) (content_offset fs) (path, bytes)]" using h fs by simp
    have "no_nul (base_name path)" using assms(2) by (simp add: fs)
    from open_read_single [OF s hd name [OF mem, simplified] this _ ii [OF mem] sz [OF mem], of pr perm]
    show ?thesis using small [OF mem] fb [OF mem] fs by (simp add: info_of_def)
  qed
  show ?thesis
    using c s(1) each whole h by auto
qed

theorem initrd_image_roundtrip_witness:
  "\<exists>s s1 s2. Initrd_ctor [demo_module] None initrd_boot = Inr s \<and>
     Initrd_open s (cstr [97] []) [] = Inr (0, s1) \<and> Initrd_read s1 0 3 = Inr (3, [1, 2, 3], s2)"
  using initrd_image_roundtrip [OF demo_module_ok, of None]
  by (fastforce simp: demo_base_name)

text \<open>Descriptors are handed out by a counter that \<^verbatim>\<open>close\<close> lowers whichever descriptor it closes:
  after opening two files and closing the first, the next \<^verbatim>\<open>open\<close> returns the descriptor of the
  second, which is still open, and redirects it to the new file.\<close>

theorem initrd_descriptor_reused:
  assumes "ird_ok s" and "Initrd_open s a p = Inr (fd1, s1)" and "fd1 \<noteq> - 1"
    and "Initrd_open s1 b p = Inr (fd2, s2)" and "fd2 \<noteq> - 1"
    and "Initrd_close s2 fd1 = Inr (r, s3)"
    and "Initrd_open s3 c p = Inr (fd3, s4)" and "fd3 \<noteq> - 1"
  shows "r = 0 \<and> fd3 = fd2 \<and> fd2 \<noteq> fd1 \<and> get fd2 (open_files s3) \<noteq> None \<and>
    (\<exists>k. get fd2 (open_files s4) = Some k \<and>
         strncmp (fname (vec_head (files s3) ! unat k)) c 128 = Inr 0)"
proof -
  obtain i where i: "fd1 = cur_fd s" "cur_fd s1 = cur_fd s + 1"
    "open_files s1 = put (cur_fd s) i (open_files s)"
    using open_cases [OF assms(1,2)] assms(3) by auto
  note ok1 = open_ok [OF assms(1,2)]
  obtain j where j: "fd2 = cur_fd s1" "cur_fd s2 = cur_fd s1 + 1"
    "open_files s2 = put (cur_fd s1) j (open_files s1)"
    using open_cases [OF ok1 assms(4)] assms(5) by auto
  note ok2 = open_ok [OF ok1 assms(4)]
  note ok3 = close_ok [OF ok2 assms(6)]
  have ne: "fd2 \<noteq> fd1" using i(1,2) j(1) by simp
  have g: "get fd1 (open_files s2) = Some i" "get fd2 (open_files s2) = Some j"
    using ird_okD(2) [OF assms(1)] ird_okD(2) [OF ok1] ne
    by (simp_all add: i(1,3) j(1,3) get_put)
  then have s3: "r = 0" "cur_fd s3 = cur_fd s2 - 1" "open_files s3 = hm_remove fd1 (open_files s2)"
    using assms(6) by (auto simp: Initrd_close_def Let_def)
  obtain k where k: "fd3 = cur_fd s3" "strncmp (fname (vec_head (files s3) ! unat k)) c 128 = Inr 0"
    "open_files s4 = put (cur_fd s3) k (open_files s3)"
    using open_cases [OF ok3 assms(7)] assms(8) by auto
  have "fd3 = fd2" using k(1) s3(2) j(1,2) by simp
  then show ?thesis
    using k s3 ne g(2) ird_okD(2) [OF ok2] ird_okD(2) [OF ok3] by (simp add: get_put get_remove)
qed

theorem initrd_descriptor_reused_witness:
  "\<exists>s s1 s2 s3 s4. Initrd_open s (cstr [97] []) [] = Inr (0, s1) \<and>
     Initrd_open s1 (cstr [97] []) [] = Inr (1, s2) \<and> Initrd_close s2 0 = Inr (0, s3) \<and>
     Initrd_open s3 (cstr [97] []) [] = Inr (1, s4) \<and> get 1 (open_files s3) \<noteq> None"
proof -
  obtain s where s: "ird_ok s" "cur_fd s = 0" "vec_head (files s) = [demo_info]"
    by (rule ctor_state [OF demo_module_ok, of None]) (simp add: demo_module_def demo_info_def)
  obtain r where n: "fname demo_info = cstr [97] r" "no_nul [97 :: u8]"
    by (simp add: demo_info_def info_of_def demo_base_name strncpy_cstr)
  have o: "\<exists>t'. Initrd_open t (cstr [97] []) [] = Inr (cur_fd t, t') \<and> cur_fd t' = cur_fd t + 1 \<and>
      ird_ok t' \<and> vec_head (files t') = [f\<lparr>cur_pos := 0\<rparr>]"
    if "ird_ok t" "vec_head (files t) = [f]" "fname f = cstr [97] r" for t f
    using open_single [OF that n(2), of "[]" "[]"] open_ok [OF that(1)] by fastforce
  obtain s1 where s1: "Initrd_open s (cstr [97] []) [] = Inr (0, s1)" "cur_fd s1 = 1" "ird_ok s1"
    "vec_head (files s1) = [demo_info\<lparr>cur_pos := 0\<rparr>]"
    using o [OF s(1,3) n(1)] s(2) by auto
  obtain s2 where s2: "Initrd_open s1 (cstr [97] []) [] = Inr (1, s2)" "cur_fd s2 = 2" "ird_ok s2"
    "vec_head (files s2) = [demo_info\<lparr>cur_pos := 0\<rparr>]"
    using o [OF s1(3,4)] n(1) s1(2) by auto
  obtain r' s3 where s3: "Initrd_close s2 0 = Inr (r', s3)" "cur_fd s3 = 1" "ird_ok s3"
    "vec_head (files s3) = [demo_info\<lparr>cur_pos := 0\<rparr>]"
    using s2(2,3,4) close_ok [OF s2(3), of 0]
    by (cases "get 0 (open_files s2)") (simp_all add: Initrd_close_def Let_def)
  obtain s4 where s4: "Initrd_open s3 (cstr [97] []) [] = Inr (1, s4)"
    using o [OF s3(3,4)] n(1) s3(2) by auto
  show ?thesis
    using initrd_descriptor_reused [OF s(1) s1(1) _ s2(1) _ s3(1) s4] s1(1) s2(1) s3(1) s4 by fastforce
qed

end
