(* ===== verification/Vfs.thy ===== *)
theory Vfs
  imports Initrd
begin

text \<open>
  The virtual file system, \<^verbatim>\<open>src/src/fs/vfs.cpp\<close> and \<^verbatim>\<open>src/src/include/fs/vfs.h\<close>. A \<^verbatim>\<open>Filesystem\<close> object is
  its two constant strings and its virtual methods, over a type \<open>'s\<close> of the state the methods
  share (for \<open>Initrd\<close>, the static tables). The locale \<open>file_system\<close> is the contract the
  methods keep with the layer above; it is interpreted on the ramdisk.
\<close>

section \<open>File systems and mounts\<close>

record 's filesystem =
  GetName :: "u8 list"
  GetMountpoint :: "u8 list"
  v_open :: "'s \<Rightarrow> u8 list \<Rightarrow> u8 list \<Rightarrow> (i32 \<times> 's) result"
  v_read :: "'s \<Rightarrow> i32 \<Rightarrow> u64 \<Rightarrow> (u64 \<times> u8 list \<times> 's) result"
  v_close :: "'s \<Rightarrow> i32 \<Rightarrow> (i32 \<times> 's) result"
  v_lseek :: "'s \<Rightarrow> i32 \<Rightarrow> u64 \<Rightarrow> i32 \<Rightarrow> (u64 \<times> 's) result"
  v_tell :: "'s \<Rightarrow> i32 \<Rightarrow> u64 result"

record 's vfs =
  filesystems :: "'s filesystem vector"
  openFilesystems :: "'s filesystem unordered_map"
  fs_state :: 's

definition initial_ramdisk :: "u8 list" where
  "initial_ramdisk = [105, 110, 105, 116, 105, 97, 108, 32, 114, 97, 109, 100, 105, 115, 107, 0]"

definition Initrd_object :: "u8 list \<Rightarrow> initrd filesystem" where
  "Initrd_object mountpoint =
     \<lparr>GetName = initial_ramdisk, GetMountpoint = mountpoint, v_open = Initrd_open, v_read = Initrd_read,
      v_close = Initrd_close, v_lseek = Initrd_lseek, v_tell = Initrd_tell\<rparr>"

section \<open>Operations\<close>

definition VFS_mount :: "'s vfs \<Rightarrow> 's filesystem \<Rightarrow> 's vfs" where
  "VFS_mount v fs = v\<lparr>filesystems := push_back fs (filesystems v)\<rparr>"

definition VFS_Initialize ::
  "module list \<Rightarrow> module option \<Rightarrow> initrd vfs \<Rightarrow> initrd vfs result" where
  "VFS_Initialize mods uninit v =
     bindE (Initrd_ctor mods uninit (fs_state v)) (\<lambda>s.
       Inr (VFS_mount (v\<lparr>fs_state := s\<rparr>) (Initrd_object [47, 0])))"

text \<open>The search over the mounts from \<open>i\<close>, with \<open>n\<close> left: the last match stays in \<open>fs\<close>.\<close>

fun find_mount ::
  "'s filesystem vector \<Rightarrow> u8 list \<Rightarrow> nat \<Rightarrow> u64 \<Rightarrow> 's filesystem option \<Rightarrow>
     's filesystem option result" where
  "find_mount v path 0 i fs = Inr fs"
| "find_mount v path (Suc n) i fs =
     bindE (vec_at v i) (\<lambda>f.
     bindE (strlen (GetMountpoint f)) (\<lambda>len.
     bindE (strncmp (GetMountpoint f) path len) (\<lambda>c.
     find_mount v path n (i + 1) (if c = 0 then Some f else fs))))"

definition VFS_open :: "'s vfs \<Rightarrow> u8 list \<Rightarrow> u8 list \<Rightarrow> (i32 \<times> 's vfs) result" where
  "VFS_open v path mode =
     bindE (find_mount (filesystems v) path (unat (vec_size (filesystems v))) 0 None) (\<lambda>found.
     case found of None \<Rightarrow> Inr (- 1, v)
     | Some fs \<Rightarrow>
         bindE (strlen (GetMountpoint fs)) (\<lambda>len.
         if length path < len then Inl OutOfBounds
         else bindE (v_open fs (fs_state v) (drop len path) mode) (\<lambda>(fd, s).
              Inr (fd, v\<lparr>fs_state := s, openFilesystems := put fd fs (openFilesystems v)\<rparr>))))"

definition VFS_read :: "'s vfs \<Rightarrow> i32 \<Rightarrow> u64 \<Rightarrow> (u64 \<times> u8 list \<times> 's vfs) result" where
  "VFS_read v fd n =
     (case get fd (openFilesystems v) of None \<Rightarrow> Inr (- 1, [], v)
      | Some fs \<Rightarrow> bindE (v_read fs (fs_state v) fd n)
          (\<lambda>(r, buf, s). Inr (r, buf, v\<lparr>fs_state := s\<rparr>)))"

definition VFS_close :: "'s vfs \<Rightarrow> i32 \<Rightarrow> (i32 \<times> 's vfs) result" where
  "VFS_close v fd =
     (case get fd (openFilesystems v) of None \<Rightarrow> Inr (- 1, v)
      | Some fs \<Rightarrow> bindE (v_close fs (fs_state v) fd) (\<lambda>(r, s). Inr (r, v\<lparr>fs_state := s\<rparr>)))"

definition VFS_lseek :: "'s vfs \<Rightarrow> i32 \<Rightarrow> u64 \<Rightarrow> i32 \<Rightarrow> (u64 \<times> 's vfs) result" where
  "VFS_lseek v fd offset whence =
     (case get fd (openFilesystems v) of None \<Rightarrow> Inr (- 1, v)
      | Some fs \<Rightarrow> bindE (v_lseek fs (fs_state v) fd offset whence)
          (\<lambda>(r, s). Inr (r, v\<lparr>fs_state := s\<rparr>)))"

definition VFS_tell :: "'s vfs \<Rightarrow> i32 \<Rightarrow> u64 result" where
  "VFS_tell v fd =
     (case get fd (openFilesystems v) of None \<Rightarrow> Inr (- 1)
      | Some fs \<Rightarrow> v_tell fs (fs_state v) fd)"

section \<open>The contract of a file system\<close>

text \<open>
  The layer's own state: the only file system of its tables is \<open>fs\<close>, and each descriptor the
  file system holds open is in the layer's table.
\<close>

definition layer_ok ::
  "'s filesystem \<Rightarrow> ('s \<Rightarrow> bool) \<Rightarrow> ('s \<Rightarrow> i32 set) \<Rightarrow> 's vfs \<Rightarrow> bool" where
  "layer_ok fs ok opened v \<longleftrightarrow> ok (fs_state v) \<and> hm_inv (openFilesystems v) \<and>
     vec_inv (filesystems v) \<and> set (vec_head (filesystems v)) \<subseteq> {fs} \<and>
     (\<forall>fd f. get fd (openFilesystems v) = Some f \<longrightarrow> f = fs) \<and>
     (\<forall>fd \<in> opened (fs_state v). get fd (openFilesystems v) = Some fs)"

lemma layer_okD:
  assumes "layer_ok fs ok opened v"
  shows "ok (fs_state v)" "hm_inv (openFilesystems v)" "vec_inv (filesystems v)"
    "set (vec_head (filesystems v)) \<subseteq> {fs}"
    "get fd (openFilesystems v) = Some f \<Longrightarrow> f = fs"
    "fd \<in> opened (fs_state v) \<Longrightarrow> get fd (openFilesystems v) = Some fs"
  using assms unfolding layer_ok_def by blast+

lemma layer_ok_state:
  assumes "layer_ok fs ok opened v" "ok s" "opened s \<subseteq> opened (fs_state v)"
  shows "layer_ok fs ok opened (v\<lparr>fs_state := s\<rparr>)"
  using assms(2,3) layer_okD [OF assms(1)] unfolding layer_ok_def by (simp, blast)

text \<open>The mount found is one of the vector's, and the search reads only what is there.\<close>

lemma find_mount_mem:
  assumes "vec_inv v" "unat i + n \<le> length (vec_head v)"
  shows "find_mount v path n i acc = Inr (Some f) \<Longrightarrow> f \<in> set (vec_head v) \<or> acc = Some f"
  using assms(2)
proof (induction n arbitrary: i acc)
  case (Suc n)
  have small: "length (vec_head v) < 2 ^ 31" using assms(1) by (simp add: vec_inv_def)
  then have at_i: "vec_at v i = Inr (vec_head v ! unat i)" "vec_head v ! unat i \<in> set (vec_head v)"
    using Suc.prems(2) by (simp_all add: vec_at_eq)
  have i': "unat (i + 1) = Suc (unat i)"
    using Suc.prems(2) small by (subst unat_add_nowrap) simp_all
  show ?case
    using Suc.prems Suc.IH [of "i + 1"] at_i i' by (fastforce simp: bindE_eq_Inr split: if_splits)
qed simp

text \<open>
  \<open>opened s\<close> is the set of descriptors the file system holds open. A file system returns -1 for
  any other descriptor and leaves its open files alone; \<open>close\<close> takes the descriptor out, and
  no operation but \<open>open\<close> puts one in.
\<close>

locale file_system =
  fixes fs :: "'s filesystem"
    and ok :: "'s \<Rightarrow> bool"
    and opened :: "'s \<Rightarrow> i32 set"
  assumes open_law: "ok s \<Longrightarrow> v_open fs s path mode = Inr (fd, s') \<Longrightarrow>
      ok s' \<and> (opened s' = insert fd (opened s) \<or> fd = - 1 \<and> s' = s)"
    and read_law: "ok s \<Longrightarrow> v_read fs s fd n = Inr (r, buf, s') \<Longrightarrow>
      ok s' \<and> opened s' = opened s \<and> (fd \<notin> opened s \<longrightarrow> r = - 1 \<and> buf = [] \<and> s' = s)"
    and close_law: "ok s \<Longrightarrow> \<exists>r s'. v_close fs s fd = Inr (r, s') \<and>
      ok s' \<and> opened s' = opened s - {fd} \<and> (r = 0 \<longleftrightarrow> fd \<in> opened s)"
    and lseek_law: "ok s \<Longrightarrow> \<exists>r s'. v_lseek fs s fd off whence = Inr (r, s') \<and>
      ok s' \<and> opened s' = opened s \<and> (fd \<notin> opened s \<longrightarrow> r = - 1 \<and> s' = s)"
    and tell_law: "ok s \<Longrightarrow> \<exists>r. v_tell fs s fd = Inr r \<and> (fd \<notin> opened s \<longrightarrow> r = - 1)"
    and read_closed: "ok s \<Longrightarrow> fd \<notin> opened s \<Longrightarrow> \<exists>r. v_read fs s fd n = Inr r"
begin

lemma layer_open:
  assumes "layer_ok fs ok opened v" "VFS_open v path mode = Inr (fd, v')"
  shows "layer_ok fs ok opened v'"
proof -
  note D = layer_okD [OF assms(1)]
  obtain found where found: "find_mount (filesystems v) path (length (vec_head (filesystems v))) 0 None = Inr found"
    using assms(2) by (auto simp: VFS_open_def vec_size_eq [OF D(3)] bindE_eq_Inr)
  show ?thesis
  proof (cases found)
    case None
    then show ?thesis using assms found by (simp add: VFS_open_def vec_size_eq [OF D(3)])
  next
    case (Some f)
    then have "f \<in> set (vec_head (filesystems v))"
      using find_mount_mem [OF D(3), of 0 "length (vec_head (filesystems v))" path None f] found by simp
    then have "f = fs" using D(4) by blast
    then obtain s where s: "\<exists>p. v_open fs (fs_state v) p mode = Inr (fd, s)"
      "v' = v\<lparr>fs_state := s, openFilesystems := put fd fs (openFilesystems v)\<rparr>"
      using assms(2) found Some
      by (auto simp: VFS_open_def vec_size_eq [OF D(3)] bindE_eq_Inr split: if_splits)
    then have "ok s \<and> opened s \<subseteq> insert fd (opened (fs_state v))"
      using open_law [OF D(1)] by blast
    then show ?thesis
      using D unfolding layer_ok_def s(2) by (auto simp: hm_inv_put get_put)
  qed
qed

lemma layer_close:
  assumes "layer_ok fs ok opened v"
  shows "\<exists>r v'. VFS_close v fd = Inr (r, v') \<and> layer_ok fs ok opened v' \<and>
    opened (fs_state v') = opened (fs_state v) - {fd} \<and> (r = 0 \<longleftrightarrow> fd \<in> opened (fs_state v))"
proof (cases "get fd (openFilesystems v)")
  case None
  then have "fd \<notin> opened (fs_state v)" "VFS_close v fd = Inr (- 1, v)"
    using layer_okD(6) [OF assms, of fd] by (auto simp: VFS_close_def)
  then show ?thesis using assms by simp
next
  case (Some f)
  obtain r s' where r: "v_close fs (fs_state v) fd = Inr (r, s')" "ok s'"
    "opened s' = opened (fs_state v) - {fd}" "r = 0 \<longleftrightarrow> fd \<in> opened (fs_state v)"
    using close_law [OF layer_okD(1) [OF assms], of fd] by blast
  have "VFS_close v fd = Inr (r, v\<lparr>fs_state := s'\<rparr>)"
    using Some layer_okD(5) [OF assms Some] r(1) by (simp add: VFS_close_def)
  moreover have "layer_ok fs ok opened (v\<lparr>fs_state := s'\<rparr>)"
    using r(3) by (intro layer_ok_state [OF assms r(2)]) blast
  ultimately show ?thesis
    using r(3,4) by (intro exI [of _ r] exI [of _ "v\<lparr>fs_state := s'\<rparr>"]) simp
qed

text \<open>A closed descriptor reads, seeks and tells -1, although the layer's table may still have it.\<close>

lemma layer_not_open:
  assumes "layer_ok fs ok opened v" "fd \<notin> opened (fs_state v)"
  shows "VFS_read v fd n = Inr (- 1, [], v)" "VFS_lseek v fd off whence = Inr (- 1, v)"
    "VFS_tell v fd = Inr (- 1)"
proof -
  note D = layer_okD [OF assms(1)]
  obtain r buf s' where r: "v_read fs (fs_state v) fd n = Inr (r, buf, s')"
    using read_closed [OF D(1) assms(2), of n] by auto
  have "v_read fs (fs_state v) fd n = Inr (- 1, [], fs_state v)"
    using read_law [OF D(1) r] assms(2) r by simp
  then show "VFS_read v fd n = Inr (- 1, [], v)"
    using D(5) [of fd] by (cases "get fd (openFilesystems v)") (simp_all add: VFS_read_def)
  have "v_lseek fs (fs_state v) fd off whence = Inr (- 1, fs_state v)"
    using lseek_law [OF D(1), of fd off whence] assms(2) by auto
  then show "VFS_lseek v fd off whence = Inr (- 1, v)"
    using D(5) [of fd] by (cases "get fd (openFilesystems v)") (simp_all add: VFS_lseek_def)
  have "v_tell fs (fs_state v) fd = Inr (- 1)"
    using tell_law [OF D(1), of fd] assms(2) by auto
  then show "VFS_tell v fd = Inr (- 1)"
    using D(5) [of fd] by (cases "get fd (openFilesystems v)") (simp_all add: VFS_tell_def)
qed

end

text \<open>The ramdisk keeps the contract.\<close>

definition ird_opened :: "initrd \<Rightarrow> i32 set" where
  "ird_opened s = {fd. get fd (open_files s) \<noteq> None}"

lemma ird_read_law:
  assumes "ird_ok s"
  shows "Initrd_read s fd n = Inr (r, buf, s') \<Longrightarrow> ird_ok s' \<and> ird_opened s' = ird_opened s \<and>
      (fd \<notin> ird_opened s \<longrightarrow> r = - 1 \<and> buf = [] \<and> s' = s)"
    and "fd \<notin> ird_opened s \<Longrightarrow> \<exists>r. Initrd_read s fd n = Inr r"
proof -
  show "Initrd_read s fd n = Inr (r, buf, s') \<Longrightarrow> ird_ok s' \<and> ird_opened s' = ird_opened s \<and>
      (fd \<notin> ird_opened s \<longrightarrow> r = - 1 \<and> buf = [] \<and> s' = s)"
    using read_ok [OF assms]
    by (auto simp: Initrd_read_def ird_opened_def bindE_eq_Inr split: option.splits if_splits)
  show "fd \<notin> ird_opened s \<Longrightarrow> \<exists>r. Initrd_read s fd n = Inr r"
    by (simp add: Initrd_read_def ird_opened_def)
qed

lemma ird_open_law:
  assumes "ird_ok s" "Initrd_open s path mode = Inr (fd, s')"
  shows "ird_ok s' \<and> (ird_opened s' = insert fd (ird_opened s) \<or> fd = - 1 \<and> s' = s)"
  using open_cases [OF assms] open_ok [OF assms] ird_okD(2) [OF assms(1)]
  by (auto simp: ird_opened_def get_put split: if_splits)

lemma ird_close_law:
  assumes "ird_ok s"
  shows "\<exists>r s'. Initrd_close s fd = Inr (r, s') \<and> ird_ok s' \<and>
    ird_opened s' = ird_opened s - {fd} \<and> (r = 0 \<longleftrightarrow> fd \<in> ird_opened s)"
proof -
  obtain r s' where r: "Initrd_close s fd = Inr (r, s')" "ird_ok s'"
    using close_ok [OF assms, of fd] by (fastforce simp: Initrd_close_def Let_def split: option.splits)
  then show ?thesis
    using ird_okD(2) [OF assms]
    by (auto simp: Initrd_close_def Let_def ird_opened_def get_remove split: option.splits if_splits)
qed

lemma ird_lseek_law:
  assumes "ird_ok s"
  shows "\<exists>r s'. Initrd_lseek s fd off whence = Inr (r, s') \<and> ird_ok s' \<and>
    ird_opened s' = ird_opened s \<and> (fd \<notin> ird_opened s \<longrightarrow> r = - 1 \<and> s' = s)"
proof (cases "get fd (open_files s)")
  case None
  then show ?thesis using assms by (simp add: Initrd_lseek_def ird_opened_def)
next
  case (Some i)
  then show ?thesis
    using lseek_eq [OF assms Some refl, of off whence] lseek_ok [OF assms, of fd off whence]
    by (fastforce simp: ird_opened_def)
qed

lemma ird_tell_law:
  assumes "ird_ok s"
  shows "\<exists>r. Initrd_tell s fd = Inr r \<and> (fd \<notin> ird_opened s \<longrightarrow> r = - 1)"
  using vec_at_open(1) [OF assms]
  by (cases "get fd (open_files s)") (auto simp: Initrd_tell_def ird_opened_def)

interpretation ird: file_system "Initrd_object mp" ird_ok ird_opened for mp
  by (unfold_locales; unfold Initrd_object_def filesystem.select_convs)
     (rule ird_open_law ird_read_law ird_close_law ird_lseek_law ird_tell_law; assumption)+

section \<open>The booted system\<close>

definition vfs_boot :: "initrd vfs" where
  "vfs_boot = \<lparr>filesystems = new_vector, openFilesystems = new_map, fs_state = initrd_boot\<rparr>"

definition vfs_ok :: "initrd vfs \<Rightarrow> bool" where
  "vfs_ok v \<longleftrightarrow> layer_ok (Initrd_object [47, 0]) ird_ok ird_opened v"

lemma Initialize_ok:
  assumes "initrd_module m fs" "VFS_Initialize [m] u vfs_boot = Inr v"
  shows "vfs_ok v" "vec_head (filesystems v) = [Initrd_object [47, 0]]"
    "Initrd_ctor [m] u initrd_boot = Inr (fs_state v)" "openFilesystems v = new_map"
proof -
  obtain s where s: "Initrd_ctor [m] u initrd_boot = Inr s" "ird_ok s" "open_files s = new_map"
    by (rule ctor_state [OF assms(1), where u = u])
  have v: "v = VFS_mount (vfs_boot\<lparr>fs_state := s\<rparr>) (Initrd_object [47, 0])"
    using assms(2) s(1) by (simp add: VFS_Initialize_def vfs_boot_def)
  have o: "ird_opened s = {}" using s(3) by (simp add: ird_opened_def get_new)
  show "vec_head (filesystems v) = [Initrd_object [47, 0]]" "openFilesystems v = new_map"
    "Initrd_ctor [m] u initrd_boot = Inr (fs_state v)"
    using s(1) by (simp_all add: v VFS_mount_def vfs_boot_def push_back_def new_vector_def)
  show "vfs_ok v"
    using s(2) o vec_inv_push [OF vec_inv_new, of "Initrd_object [47, 0]"]
    unfolding vfs_ok_def layer_ok_def
    by (simp add: v VFS_mount_def vfs_boot_def hm_inv_new get_new push_back_def new_vector_def)
qed

text \<open>A path below the only mount \<^verbatim>\<open>/\<close> goes to the ramdisk without the slash.\<close>

lemma open_root:
  assumes "vfs_ok v" "vec_head (filesystems v) = [Initrd_object [47, 0]]"
  shows "VFS_open v (47 # path) mode = bindE (Initrd_open (fs_state v) path mode) (\<lambda>(fd, s).
    Inr (fd, v\<lparr>fs_state := s,
      openFilesystems := put fd (Initrd_object [47, 0]) (openFilesystems v)\<rparr>))"
proof -
  have inv: "vec_inv (filesystems v)" using assms(1) by (simp add: vfs_ok_def layer_ok_def)
  show ?thesis
    using assms(2)
    by (simp add: VFS_open_def vec_size_eq [OF inv] vec_at_eq Initrd_object_def)
qed

section \<open>Properties\<close>

text \<open>The layer over the ramdisk: from a booted state on, \<^verbatim>\<open>open\<close> and \<^verbatim>\<open>close\<close> keep its tables in
  step with the ramdisk's; \<^verbatim>\<open>close\<close> always returns, with 0 exactly for a descriptor that is open, and
  afterwards reading, seeking and telling the descriptor give -1 and change nothing, while
  every other open descriptor stays open.\<close>

theorem vfs_close_revokes:
  assumes "vfs_ok v"
  shows "(\<forall>path mode fd v'. VFS_open v path mode = Inr (fd, v') \<longrightarrow> vfs_ok v') \<and>
    (\<exists>r v'. VFS_close v fd = Inr (r, v') \<and> vfs_ok v' \<and>
       (r = 0 \<longleftrightarrow> fd \<in> ird_opened (fs_state v)) \<and>
       ird_opened (fs_state v') = ird_opened (fs_state v) - {fd} \<and>
       VFS_read v' fd n = Inr (- 1, [], v') \<and> VFS_lseek v' fd off whence = Inr (- 1, v') \<and>
       VFS_tell v' fd = Inr (- 1))"
proof
  show "\<forall>path mode fd v'. VFS_open v path mode = Inr (fd, v') \<longrightarrow> vfs_ok v'"
    using ird.layer_open [OF assms [unfolded vfs_ok_def]] unfolding vfs_ok_def by simp
  obtain r v' where c: "VFS_close v fd = Inr (r, v')"
    "layer_ok (Initrd_object [47, 0]) ird_ok ird_opened v'"
    "ird_opened (fs_state v') = ird_opened (fs_state v) - {fd}" "r = 0 \<longleftrightarrow> fd \<in> ird_opened (fs_state v)"
    using ird.layer_close [OF assms [unfolded vfs_ok_def]] by blast
  have "fd \<notin> ird_opened (fs_state v')" using c(3) by simp
  then show "\<exists>r v'. VFS_close v fd = Inr (r, v') \<and> vfs_ok v' \<and>
       (r = 0 \<longleftrightarrow> fd \<in> ird_opened (fs_state v)) \<and>
       ird_opened (fs_state v') = ird_opened (fs_state v) - {fd} \<and>
       VFS_read v' fd n = Inr (- 1, [], v') \<and> VFS_lseek v' fd off whence = Inr (- 1, v') \<and>
       VFS_tell v' fd = Inr (- 1)"
    using c ird.layer_not_open [OF c(2)] unfolding vfs_ok_def
    by (intro exI [of _ r] exI [of _ v']) simp
qed

theorem vfs_close_revokes_witness:
  "\<exists>(v :: initrd vfs) r v'. VFS_close v 0 = Inr (r, v') \<and> VFS_read v' 0 3 = Inr (- 1, [], v')"
proof -
  obtain v where "VFS_Initialize [demo_module] None vfs_boot = Inr v"
    unfolding VFS_Initialize_def vfs_boot_def vfs.select_convs ctor_on_image(1) [OF demo_module_ok] bindE_simps
    by blast
  then have "vfs_ok v" by (rule Initialize_ok(1) [OF demo_module_ok])
  from conjunct2 [OF vfs_close_revokes [OF this, of 0 3 0 0]] show ?thesis
    by (elim exE conjE) (intro exI conjI; assumption)
qed

lemma boot_reads_file:
  assumes "initrd_module m [(path, bytes)]"
    and "length (base_name path) < 64" and "no_nul (base_name path)"
  shows "\<exists>v v1 v2 v3 v4. VFS_Initialize [m] u vfs_boot = Inr v \<and>
    VFS_open v (47 # cstr (base_name path) pr) mode = Inr (0, v1) \<and>
    VFS_lseek v1 0 0 SEEK_END = Inr (of_nat (length bytes), v2) \<and>
    VFS_tell v2 0 = Inr (of_nat (length bytes)) \<and>
    VFS_lseek v2 0 0 SEEK_SET = Inr (0, v3) \<and>
    VFS_read v3 0 (of_nat (length bytes)) = Inr (of_nat (length bytes), bytes, v4) \<and>
    (\<exists>v5. VFS_close v4 0 = Inr (0, v5))"
proof -
  let ?F = "Initrd_object [47, 0]"
  let ?f = "info_of (mod_addr m) (content_offset [(path, bytes)]) (path, bytes)"
  obtain s where c: "Initrd_ctor [m] u initrd_boot = Inr s" and s: "ird_ok s" "cur_fd s = 0"
    "open_files s = new_map" "vec_head (files s) = [?f]" "in_image s ?f" "file_bytes s ?f = bytes"
    by (rule ctor_state [OF assms(1), where u = u]) simp
  obtain v where v: "VFS_Initialize [m] u vfs_boot = Inr v"
    using c by (simp add: VFS_Initialize_def vfs_boot_def)
  note I = Initialize_ok [OF assms(1) v]
  have st: "fs_state v = s" using I(3) c by simp
  have small: "length bytes < 2 ^ 31"
    using assms(1) by (simp add: initrd_module_def length_make_initrd)
  have f: "fname ?f = cstr (base_name path) (replicate (64 - Suc (length (base_name path))) 0)"
    "cur_pos ?f = 0" "ucast (fsize ?f) = (of_nat (length bytes) :: u64)"
    "unat (fsize ?f) = length bytes"
    using assms(2) small
    by (simp_all add: info_of_def strncpy_cstr word_unat_eq_iff unat_ucast_up unat_of_nat)
  define st' where "st' p = s\<lparr>files := files s\<lparr>vec_head := [?f\<lparr>cur_pos := p\<rparr>]\<rparr>,
      open_files := put 0 0 (open_files s), cur_fd := 1\<rparr>" for p
  define vs where "vs p = v\<lparr>fs_state := st' p, openFilesystems := put 0 ?F (openFilesystems v)\<rparr>" for p
  have o: "Initrd_open s (cstr (base_name path) pr) mode = Inr (0, st' 0)"
    using open_single [OF s(1,4) f(1) assms(3), of pr mode] by (simp add: st'_def s(2))
  have ok0: "ird_ok (st' 0)" using open_ok [OF s(1) o] .
  then have ok: "ird_ok (st' p)" for p
    by (simp add: st'_def ird_ok_def vec_inv_def)
  have g: "get 0 (open_files (st' p)) = Some 0" for p
    by (simp add: st'_def s(3) get_put hm_inv_new)
  have h: "vec_head (files (st' p)) ! unat (0 :: u64) = ?f\<lparr>cur_pos := p\<rparr>" for p
    by (simp add: st'_def)
  have gv: "get 0 (openFilesystems (vs p)) = Some ?F" for p
    by (simp add: vs_def I(4) get_put hm_inv_new)
  have seek: "VFS_lseek (vs p) 0 off wh = Inr (seek_pos (?f\<lparr>cur_pos := p\<rparr>) off wh,
      vs (seek_pos (?f\<lparr>cur_pos := p\<rparr>) off wh))" for p off wh
    using lseek_eq [OF ok g h] gv
    by (simp add: VFS_lseek_def Initrd_object_def) (simp add: vs_def st'_def)
  have "Initrd_read (st' 0) 0 (of_nat (length bytes)) = Inr (of_nat (length bytes), bytes, st' (of_nat (length bytes)))"
    using read_cases [OF ok g h, of 0 "of_nat (length bytes)"] s(5,6) f(4) small
    by (simp add: in_image_def file_bytes_def unat_of_nat st'_def)
  then have read: "VFS_read (vs 0) 0 (of_nat (length bytes)) =
      Inr (of_nat (length bytes), bytes, vs (of_nat (length bytes)))"
    using gv by (simp add: VFS_read_def Initrd_object_def) (simp add: vs_def)
  have tell: "VFS_tell (vs p) 0 = Inr p" for p
    using gv g h vec_at_open(1) [OF ok g]
    by (simp add: VFS_tell_def Initrd_object_def) (simp add: vs_def Initrd_tell_def)
  have "VFS_open v (47 # cstr (base_name path) pr) mode = Inr (0, vs 0)"
    using open_root [OF I(1,2)] o by (simp add: st vs_def)
  moreover have "VFS_lseek (vs 0) 0 0 SEEK_END = Inr (of_nat (length bytes), vs (of_nat (length bytes)))"
    using seek [of 0 0 SEEK_END] f(3) by (simp add: seek_pos_def SEEK_SET_def SEEK_CUR_def SEEK_END_def)
  moreover have "VFS_lseek (vs p) 0 0 SEEK_SET = Inr (0, vs 0)" for p
    using seek [of p 0 SEEK_SET] by (simp add: seek_pos_def)
  moreover have "\<exists>v5. VFS_close (vs p) 0 = Inr (0, v5)" for p
    using gv g by (simp add: VFS_close_def Initrd_object_def Initrd_close_def) (simp add: vs_def st'_def)
  ultimately show ?thesis
    using v tell read
    by (intro exI [of _ v] exI [of _ "vs 0"] exI [of _ "vs (of_nat (length bytes))"]) simp
qed

text \<open>C13. From the tool to the kernel: after booting with the image of one file, opening \<^verbatim>\<open>/name\<close> yields
  descriptor 0, seeking to the end tells the file's length, and after seeking back a read of
  that length returns the file, which is how the kernel loads its first program.\<close>

theorem vfs_boot_reads_file:
  assumes "initrd_module m [(path, bytes)]"
    and "length (base_name path) < 64" and "no_nul (base_name path)"
  shows "\<exists>v v1 v2 v3 v4. VFS_Initialize [m] u vfs_boot = Inr v \<and>
    VFS_open v (47 # cstr (base_name path) pr) mode = Inr (0, v1) \<and>
    VFS_lseek v1 0 0 SEEK_END = Inr (of_nat (length bytes), v2) \<and>
    VFS_tell v2 0 = Inr (of_nat (length bytes)) \<and>
    VFS_lseek v2 0 0 SEEK_SET = Inr (0, v3) \<and>
    VFS_read v3 0 (of_nat (length bytes)) = Inr (of_nat (length bytes), bytes, v4)"
  using boot_reads_file [OF assms, of u pr mode] by blast

theorem vfs_boot_reads_file_witness:
  "\<exists>v v1 v2 v3 v4. VFS_Initialize [demo_module] None vfs_boot = Inr v \<and>
    VFS_open v [47, 97, 0] [] = Inr (0, v1) \<and> VFS_lseek v1 0 0 SEEK_END = Inr (3, v2) \<and>
    VFS_lseek v2 0 0 SEEK_SET = Inr (0, v3) \<and> VFS_read v3 0 3 = Inr (3, [1, 2, 3], v4)"
  using vfs_boot_reads_file [OF demo_module_ok, of None "[]" "[]"]
  by (simp add: demo_base_name) blast

end
