(* ===== verification/Atomic.thy ===== *)
theory Atomic
  imports Prelude
begin

text \<open>
  The atomic wrapper of \<^verbatim>\<open>src/src/include/cpu/atomic.h\<close>, the branch for the compiler's intrinsics, which is
  the one compiled. An object is its value; each operation is one sequentially consistent step, so
  the runs of several processors are the sequences of their operations.
\<close>

definition atomic_init :: "'a::len word \<Rightarrow> 'a word" where
  "atomic_init v = v"

text \<open>An operation's answer and the new value.\<close>

definition atomic_increment :: "'a::len word \<Rightarrow> 'a word \<times> 'a word" where
  "atomic_increment val = (val + 1, val + 1)"

definition atomic_decrement :: "'a::len word \<Rightarrow> 'a word \<times> 'a word" where
  "atomic_decrement val = (val - 1, val - 1)"

definition compare_exchange :: "'a::len word \<Rightarrow> 'a word \<Rightarrow> 'a word \<Rightarrow> bool \<times> 'a word" where
  "compare_exchange val expected_val new_val =
     (if val = expected_val then (True, new_val) else (False, val))"

definition atomic_store :: "'a::len word \<Rightarrow> 'a word \<Rightarrow> 'a word" where
  "atomic_store val new_val = new_val"

definition atomic_load :: "'a::len word \<Rightarrow> 'a word" where
  "atomic_load val = val"

definition atomic_exchange :: "'a::len word \<Rightarrow> 'a word \<Rightarrow> 'a word \<times> 'a word" where
  "atomic_exchange val new_val = (val, new_val)"

definition atomic_assign :: "'a::len word \<Rightarrow> 'a word \<Rightarrow> 'a word \<times> 'a word" where
  "atomic_assign val new_value = (new_value, atomic_store val new_value)"

definition atomic_convert :: "'a::len word \<Rightarrow> 'a word" where
  "atomic_convert val = atomic_load val"

section \<open>Interleaved operations\<close>

datatype 'a atomic_op = Increment | Decrement | Exchange 'a | Store 'a | Load | CompareExchange 'a 'a

fun perform :: "'a::len word atomic_op \<Rightarrow> 'a word \<Rightarrow> 'a word \<times> 'a word" where
  "perform Increment val = atomic_increment val"
| "perform Decrement val = atomic_decrement val"
| "perform (Exchange v) val = atomic_exchange val v"
| "perform (Store v) val = atomic_assign val v"
| "perform Load val = (atomic_load val, val)"
| "perform (CompareExchange e n) val = (case compare_exchange val e n of (ok, v) \<Rightarrow> (of_bool ok, v))"

text \<open>The answers of a sequence of operations, whichever processors perform them, and the value left.\<close>

fun run_ops :: "'a::len word atomic_op list \<Rightarrow> 'a word \<Rightarrow> 'a word list \<times> 'a word" where
  "run_ops [] val = ([], val)"
| "run_ops (p # ps) val =
     (let (r, v) = perform p val; (rs, w) = run_ops ps v in (r # rs, w))"

lemma run_increments:
  "run_ops (replicate n Increment) val = (List.map (\<lambda>k. val + of_nat (Suc k)) [0..<n], val + of_nat n)"
proof (induction n arbitrary: val)
  case (Suc n)
  have "[0..<Suc n] = 0 # List.map Suc [0..<n]" by (simp only: map_Suc_upt upt_conv_Cons [OF zero_less_Suc])
  then show ?case
    by (simp add: Suc.IH atomic_increment_def comp_def algebra_simps del: upt_Suc)
qed simp

text \<open>
  Counting processors by increments: however they interleave, no two get the same number, until the
  type's range is exhausted.
\<close>

lemma increments_distinct:
  assumes "n < 2 ^ LENGTH('a)"
  shows "distinct (fst (run_ops (replicate n Increment) (val :: 'a::len word)))"
proof -
  have "inj_on (\<lambda>k. val + of_nat (Suc k) :: 'a word) {0..<n}"
  proof (rule inj_onI)
    fix i j assume i: "i \<in> {0..<n}" "j \<in> {0..<n}" and "val + of_nat (Suc i) = (val + of_nat (Suc j) :: 'a word)"
    then have "(of_nat i :: 'a word) = of_nat j" by simp
    then have "unat (of_nat i :: 'a word) = unat (of_nat j :: 'a word)" by simp
    then show "i = j" using i assms by (simp add: unsigned_of_nat take_bit_nat_eq_self)
  qed
  then show ?thesis unfolding run_increments by (simp add: distinct_map del: upt_Suc)
qed

text \<open>Exchanging 1 into a flag: exactly the first processor finds it 0.\<close>

lemma exchange_once:
  "fst (run_ops (replicate (Suc n) (Exchange 1)) (0 :: 'a::len word)) = 0 # replicate n 1"
proof -
  have "run_ops (replicate m (Exchange 1)) (1 :: 'a word) = (replicate m 1, 1)" for m
    by (induction m) (simp_all add: atomic_exchange_def)
  then show ?thesis by (simp add: atomic_exchange_def)
qed

end
