(* ===== verification/Sched.thy ===== *)
theory Sched
  imports Vmm Containers Atomic
begin

text \<open>
  Threads and the scheduler: \<^verbatim>\<open>src/src/sched/task.cpp\<close>, \<^verbatim>\<open>src/src/sched/scheduler.cpp\<close>, the CPU
  records of \<^verbatim>\<open>src/src/include/cpu/cpu.h\<close> and the lock of \<^verbatim>\<open>src/src/include/cpu/spinlock.h\<close>. Threads live
  in a store from addresses to thread records, so that the queue is the linked structure of
  the code; the address \<^verbatim>\<open>new\<close> returns is an argument. The direct map's offset is folded into physical
  addressing, as in \<open>Vmm\<close>.
\<close>

section \<open>Data\<close>

record SavedRegs =
  r15 :: u64  r14 :: u64  r13 :: u64  r12 :: u64  r11 :: u64  r10 :: u64  r9 :: u64  r8 :: u64
  rbp :: u64  rdi :: u64  rsi :: u64  rdx :: u64  rcx :: u64  rbx :: u64  rax :: u64
  int_no :: u64
  error_code :: u64
  rip :: u64  cs :: u64  rflags :: u64  rsp :: u64  ss :: u64

definition zero_regs :: SavedRegs where
  "zero_regs =
     \<lparr>r15 = 0, r14 = 0, r13 = 0, r12 = 0, r11 = 0, r10 = 0, r9 = 0, r8 = 0,
      rbp = 0, rdi = 0, rsi = 0, rdx = 0, rcx = 0, rbx = 0, rax = 0,
      int_no = 0, error_code = 0, rip = 0, cs = 0, rflags = 0, rsp = 0, ss = 0\<rparr>"

record thread =
  ctxt :: SavedRegs
  rootTable :: u64
  pid :: i32
  canRun :: bool
  next_thread :: u64

record task_queue =
  qhead :: u64
  qtail :: u64
  qcurrent :: u64
  num_threads :: i32

record cpu =
  queue :: task_queue
  processor_id :: u64
  kstack :: u64
  kstack_phys :: u64

record sched =
  s_phys :: phys
  threads :: "u64 \<Rightarrow> thread option"
  cpus :: "u64 \<Rightarrow> cpu"
  sched_mutex :: i32
  curPid :: i32
  curCpuCore :: u64

text \<open>Access to \<^verbatim>\<open>cpus[256]\<close> and to a thread through a pointer.\<close>

definition cpu_at :: "sched \<Rightarrow> u64 \<Rightarrow> cpu result" where
  "cpu_at s i = (if i < 256 then Inr (cpus s i) else Inl OutOfBounds)"

definition set_queue :: "sched \<Rightarrow> u64 \<Rightarrow> task_queue \<Rightarrow> sched" where
  "set_queue s i q = s\<lparr>cpus := (cpus s)(i := (cpus s i)\<lparr>queue := q\<rparr>)\<rparr>"

definition deref :: "sched \<Rightarrow> u64 \<Rightarrow> thread result" where
  "deref s p =
     (if p = 0 then Inl NullPointer
      else case threads s p of None \<Rightarrow> Inl OutOfBounds | Some t \<Rightarrow> Inr t)"

definition set_thread :: "sched \<Rightarrow> u64 \<Rightarrow> thread \<Rightarrow> sched" where
  "set_thread s p t = s\<lparr>threads := (threads s)(p \<mapsto> t)\<rparr>"

section \<open>The spinlock\<close>

text \<open>
  \<^verbatim>\<open>lock\<close> tries the exchange of 0 for 1 until it succeeds. Run by itself it never returns when the
  lock is held.
\<close>

definition spin_lock :: "sched \<Rightarrow> sched result" where
  "spin_lock s =
     (case compare_exchange (sched_mutex s) 0 1 of (done, v) \<Rightarrow>
        if done then Inr (s\<lparr>sched_mutex := v\<rparr>) else Inl Diverges)"

definition spin_unlock :: "sched \<Rightarrow> sched" where
  "spin_unlock s = s\<lparr>sched_mutex := 0\<rparr>"

section \<open>Creating a thread\<close>

definition DEFAULT_THREAD_STACK_SIZE :: u64 where
  "DEFAULT_THREAD_STACK_SIZE = 64 * 1024"

definition initial_context :: "u64 \<Rightarrow> bool \<Rightarrow> SavedRegs" where
  "initial_context entryPoint is_user =
     zero_regs\<lparr>rip := entryPoint, cs := (if is_user then 0x1B else 0x08),
               ss := (if is_user then 0x23 else 0x10),
               rsp := 0xffffa00000000000 + DEFAULT_THREAD_STACK_SIZE, rflags := 0x202\<rparr>"

text \<open>
  The constructor: the two allocations and the loops that clear them, then the five mapping
  loops. It reads the current CPU's kernel stack and sets \<^verbatim>\<open>kstack\<close>; \<^verbatim>\<open>pid\<close> is not set yet, so its value
  is an argument.
\<close>

definition Thread_ctor ::
  "boot_info \<Rightarrow> mmap_entry list \<Rightarrow> phys \<Rightarrow> cpu \<Rightarrow> i32 \<Rightarrow> u64 \<Rightarrow> bool \<Rightarrow> (thread \<times> phys \<times> cpu) result"
where
  "Thread_ctor b mmap s cpu garbage entryPoint is_user =
     bindE (PhysicalMemory_alloc s (ALIGN_UP DEFAULT_THREAD_STACK_SIZE 4096)) (\<lambda>(stackAddr, s0).
     let s1 = s0\<lparr>ram := memset (ram s0) stackAddr 0 (unat DEFAULT_THREAD_STACK_SIZE)\<rparr>
     in bindE (PhysicalMemory_alloc s1 1) (\<lambda>(root, s2).
        let s3 = s2\<lparr>ram := memset (ram s2) root 0 4096\<rparr>;
            rw = PF_present OR PF_readwrite;
            (phyAddr, len) = find_framebuffer mmap
        in bindE (map_range s3 root (virtual_base b) (physical_base b) (kernel_size b) rw 0) (\<lambda>s4.
           bindE (map_range s4 root (fb_address b) phyAddr len rw 0) (\<lambda>s5.
           bindE (map_range s5 root 0xffffa00000000000 stackAddr
                    ((DEFAULT_THREAD_STACK_SIZE + 4096) AND NOT 4096) (rw OR PF_user) 0) (\<lambda>s6.
           bindE (map_range s6 root (hhdm_offset b) 0 0x100000000 rw 0) (\<lambda>s7.
           bindE (map_range s7 root 0xffffd00000000000 (kstack_phys cpu) (16 * 1024 + 4096) rw 0) (\<lambda>s8.
           Inr (\<lparr>ctxt = initial_context entryPoint is_user, rootTable = root, pid = garbage,
                 canRun = True, next_thread = 0\<rparr>,
                s8, cpu\<lparr>kstack := 0xffffd00000000000 + 16 * 1024\<rparr>))))))))"

definition Thread_MapPage :: "sched \<Rightarrow> u64 \<Rightarrow> u64 \<Rightarrow> u64 \<Rightarrow> u64 \<Rightarrow> sched result" where
  "Thread_MapPage s t pa virt flags =
     bindE (deref s t) (\<lambda>th.
     bindE (VirtualMemory_MapPage (s_phys s) (rootTable th) virt pa flags) (\<lambda>p.
     Inr (s\<lparr>s_phys := p\<rparr>)))"

section \<open>The queue\<close>

text \<open>Appending \<open>t\<close> to the queue of CPU \<open>i\<close>: the block both versions of \<^verbatim>\<open>AddThread\<close> have.\<close>

definition enqueue :: "sched \<Rightarrow> u64 \<Rightarrow> u64 \<Rightarrow> sched result" where
  "enqueue s i t =
     bindE (cpu_at s i) (\<lambda>c.
     let q = queue c;
         q1 = (if qhead q = 0 then q\<lparr>qhead := t\<rparr> else q)
     in bindE (if qtail q1 \<noteq> 0
               then bindE (deref s (qtail q1)) (\<lambda>tl. Inr (set_thread s (qtail q1) (tl\<lparr>next_thread := t\<rparr>)))
               else Inr s)
          (\<lambda>s1. Inr (set_queue s1 i (q1\<lparr>qtail := t, num_threads := num_threads q1 + 1\<rparr>))))"

text \<open>\<^verbatim>\<open>AddThread(Thread*)\<close>: it does not take the lock, and releases it at the end.\<close>

definition AddThread :: "sched \<Rightarrow> u64 \<Rightarrow> (u64 \<times> sched) result" where
  "AddThread s t =
     bindE (deref s t) (\<lambda>th.
     let s1 = set_thread (s\<lparr>curPid := curPid s + 1\<rparr>) t (th\<lparr>pid := curPid s\<rparr>)
     in bindE (enqueue s1 (curCpuCore s1) t) (\<lambda>s2. Inr (t, spin_unlock s2)))"

text \<open>
  \<^verbatim>\<open>AddThread(entry, is_user)\<close> running on CPU \<open>cur\<close>; \<open>new_at\<close> is the address of the new object.
\<close>

definition AddThread_entry ::
  "boot_info \<Rightarrow> mmap_entry list \<Rightarrow> u64 \<Rightarrow> u64 \<Rightarrow> i32 \<Rightarrow> sched \<Rightarrow> u64 \<Rightarrow> bool \<Rightarrow> (u64 \<times> sched) result"
where
  "AddThread_entry b mmap cur new_at garbage s entry is_user =
     bindE (spin_lock s) (\<lambda>s1.
     bindE (cpu_at s1 cur) (\<lambda>c.
     bindE (Thread_ctor b mmap (s_phys s1) c garbage entry is_user) (\<lambda>(th, p, c').
     let s2 = (set_thread s1 new_at (th\<lparr>pid := curPid s1\<rparr>))
                \<lparr>s_phys := p, cpus := (cpus s1)(cur := c'), curPid := curPid s1 + 1\<rparr>
     in bindE (enqueue s2 (curCpuCore s2) new_at) (\<lambda>s3. Inr (new_at, spin_unlock s3)))))"

text \<open>The part of \<^verbatim>\<open>GetNextThread\<close> that moves \<^verbatim>\<open>queue.current\<close> one place on.\<close>

definition pick :: "sched \<Rightarrow> u64 \<Rightarrow> (u64 \<times> sched) result" where
  "pick s i =
     bindE (cpu_at s i) (\<lambda>c.
     let q = queue c;
         q1 = (if qcurrent q = 0 then q\<lparr>qcurrent := qhead q\<rparr> else q)
     in bindE (deref s (qcurrent q1)) (\<lambda>th.
        let t = (if next_thread th \<noteq> 0 then next_thread th else qhead q1)
        in Inr (t, set_queue s i (q1\<lparr>qcurrent := t\<rparr>))))"

text \<open>
  \<^verbatim>\<open>GetNextThread\<close> calls itself while the thread it came to cannot run; \<open>None\<close> is a call that
  never returns.
\<close>

partial_function (option) GetNextThread :: "sched \<Rightarrow> u64 \<Rightarrow> (u64 \<times> sched) result option" where
  "GetNextThread s i =
     (case cpu_at s i of Inl e \<Rightarrow> Some (Inl e)
      | Inr c \<Rightarrow>
          if num_threads (queue c) = 0 then Some (Inr (0, s))
          else (case pick s i of Inl e \<Rightarrow> Some (Inl e)
               | Inr r \<Rightarrow>
                   (case deref (snd r) (fst r) of Inl e \<Rightarrow> Some (Inl e)
                    | Inr th \<Rightarrow>
                        if \<not> canRun th then GetNextThread (snd r) i else Some (Inr r))))"

section \<open>Switching\<close>

text \<open>
  \<^verbatim>\<open>Schedule\<close> on CPU \<open>cur\<close>: \<open>None\<close> as the first component when it returns to the interrupted code,
  otherwise the registers and the page table the processor goes on with. The current page
  table variable becomes the last component.
\<close>

definition Schedule ::
  "u64 \<Rightarrow> sched \<Rightarrow> u64 \<Rightarrow> SavedRegs \<Rightarrow> ((SavedRegs \<times> u64) option \<times> u64 \<times> sched) result option" where
  "Schedule cur s currentPML4 regs =
     (case bindE (cpu_at s cur) (\<lambda>c.
           bindE (spin_lock s) (\<lambda>s1.
           if qcurrent (queue c) \<noteq> 0
           then bindE (deref s1 (qcurrent (queue c)))
                  (\<lambda>th. Inr (processor_id c, set_thread s1 (qcurrent (queue c)) (th\<lparr>ctxt := regs\<rparr>)))
           else Inr (processor_id c, s1)))
      of Inl e \<Rightarrow> Some (Inl e)
      | Inr (i, s2) \<Rightarrow>
          (case GetNextThread s2 i of None \<Rightarrow> None
           | Some (Inl e) \<Rightarrow> Some (Inl e)
           | Some (Inr (t, s3)) \<Rightarrow>
               let s4 = spin_unlock s3
               in if t = 0 then Some (Inr (None, currentPML4, s4))
                  else Some (bindE (deref s4 t)
                         (\<lambda>th. Inr (Some (ctxt th, rootTable th), rootTable th, s4)))))"

definition DeleteCurThread :: "u64 \<Rightarrow> sched \<Rightarrow> sched result" where
  "DeleteCurThread cur s =
     bindE (cpu_at s cur) (\<lambda>c.
     bindE (cpu_at s (processor_id c)) (\<lambda>c'.
     bindE (deref s (qcurrent (queue c'))) (\<lambda>th.
     Inr (set_thread s (qcurrent (queue c')) (th\<lparr>canRun := False\<rparr>)))))"

text \<open>\<^verbatim>\<open>Initialize\<close>, over the processor identifiers the boot loader lists.\<close>

fun init_cpus :: "u64 list \<Rightarrow> sched \<Rightarrow> sched result" where
  "init_cpus [] s = Inr s"
| "init_cpus (i # ids) s =
     bindE (cpu_at s i) (\<lambda>c.
     bindE (PhysicalMemory_alloc (s_phys s) 4) (\<lambda>(a, p).
     init_cpus ids (s\<lparr>s_phys := p, cpus := (cpus s)(i :=
       c\<lparr>queue := (queue c)\<lparr>qcurrent := 0, qhead := 0, qtail := 0\<rparr>, kstack_phys := a\<rparr>)\<rparr>)))"

definition Scheduler_Initialize :: "u64 list \<Rightarrow> sched \<Rightarrow> sched result" where
  "Scheduler_Initialize ids s = init_cpus ids (spin_unlock s)"

section \<open>The queue as a list\<close>

text \<open>
  \<open>q_ok s i ts\<close>: the queue of CPU \<open>i\<close> links the threads \<open>ts\<close>, in this order, and the current thread is
  one of them or none.
\<close>

definition q_ok :: "sched \<Rightarrow> u64 \<Rightarrow> u64 list \<Rightarrow> bool" where
  "q_ok s i ts \<longleftrightarrow> i < 256 \<and> distinct ts \<and> 0 \<notin> set ts \<and> length ts < 2 ^ 31 \<and>
     (\<forall>k < length ts. \<exists>th. threads s (ts ! k) = Some th \<and>
        next_thread th = (if Suc k < length ts then ts ! Suc k else 0)) \<and>
     qhead (queue (cpus s i)) = (if ts = [] then 0 else hd ts) \<and>
     qtail (queue (cpus s i)) = (if ts = [] then 0 else last ts) \<and>
     num_threads (queue (cpus s i)) = of_nat (length ts) \<and>
     qcurrent (queue (cpus s i)) \<in> insert 0 (set ts)"

lemma q_okD:
  assumes "q_ok s i ts"
  shows "i < 256" "distinct ts" "0 \<notin> set ts" "length ts < 2 ^ 31"
    "k < length ts \<Longrightarrow> \<exists>th. threads s (ts ! k) = Some th \<and>
        next_thread th = (if Suc k < length ts then ts ! Suc k else 0)"
    "qhead (queue (cpus s i)) = (if ts = [] then 0 else hd ts)"
    "qtail (queue (cpus s i)) = (if ts = [] then 0 else last ts)"
    "num_threads (queue (cpus s i)) = of_nat (length ts)"
    "qcurrent (queue (cpus s i)) \<in> insert 0 (set ts)"
  using assms unfolding q_ok_def by blast+

lemma q_ok_set_thread:
  assumes "q_ok s i ts" "t \<notin> set ts"
  shows "q_ok (set_thread s t th) i ts"
proof -
  have "\<exists>h. threads (set_thread s t th) (ts ! k) = Some h \<and> next_thread h = (if Suc k < length ts then ts ! Suc k else 0)"
    if "k < length ts" for k
    using q_okD(5) [OF assms(1) that] assms(2) nth_mem [OF that] by (auto simp: set_thread_def)
  then show ?thesis
    using q_okD(1-4,6-9) [OF assms(1)] unfolding q_ok_def by (simp add: set_thread_def)
qed

lemma num_threads_zero: "q_ok s i ts \<Longrightarrow> num_threads (queue (cpus s i)) = 0 \<longleftrightarrow> ts = []"
  using q_okD(4,8) [of s i ts] by (auto simp: word_unat_eq_iff unat_of_nat)

lemma deref_queued:
  assumes "q_ok s i ts" "k < length ts"
  obtains th where "deref s (ts ! k) = Inr th" "threads s (ts ! k) = Some th"
    "next_thread th = (if Suc k < length ts then ts ! Suc k else 0)"
proof -
  obtain th where "threads s (ts ! k) = Some th"
    "next_thread th = (if Suc k < length ts then ts ! Suc k else 0)"
    using q_okD(5) [OF assms] by blast
  moreover have "ts ! k \<noteq> 0" using q_okD(3) [OF assms(1)] nth_mem [OF assms(2)] by metis
  ultimately show ?thesis using that [of th] by (simp add: deref_def)
qed

section \<open>Adding a thread\<close>

text \<open>Two states have the same threads up to the links of the queue.\<close>

definition same_threads :: "sched \<Rightarrow> sched \<Rightarrow> bool" where
  "same_threads s s' \<longleftrightarrow>
     (\<forall>p. map_option (\<lambda>h. h\<lparr>next_thread := 0\<rparr>) (threads s' p)
        = map_option (\<lambda>h. h\<lparr>next_thread := 0\<rparr>) (threads s p))"

lemma enqueue_empty:
  assumes q: "q_ok s i []" and t: "t \<noteq> 0" "threads s t = Some th" "next_thread th = 0"
  shows "\<exists>s'. enqueue s i t = Inr s' \<and> q_ok s' i [t] \<and> same_threads s s' \<and>
    qcurrent (queue (cpus s' i)) = qcurrent (queue (cpus s i)) \<and>
    s_phys s' = s_phys s \<and> curPid s' = curPid s"
  using q_okD [OF q] t
  by (simp add: enqueue_def cpu_at_def set_queue_def q_ok_def same_threads_def Let_def)

text \<open>A new thread comes to the end of the queue and everything else stays.\<close>

lemma enqueue_links:
  assumes q: "q_ok s i ts" "ts \<noteq> []" and t: "t \<notin> set ts" "threads s t = Some th" "next_thread th = 0"
    and lt: "threads s (last ts) = Some lt" and k: "k < Suc (length ts)"
  shows "\<exists>th. ((threads s)(last ts \<mapsto> lt\<lparr>next_thread := t\<rparr>)) ((ts @ [t]) ! k) = Some th \<and>
        next_thread th = (if k < length ts then (ts @ [t]) ! Suc k else 0)"
proof -
  note D = q_okD [OF q(1)]
  let ?n = "length ts - 1"
  have n: "?n < length ts" "Suc ?n = length ts" "ts ! ?n = last ts"
    using q(2) by (simp_all add: last_conv_nth)
  have "last ts \<noteq> t" using t(1) q(2) by auto
  consider "k < ?n" | "k = ?n" | "k = length ts" using k n(2) by linarith
  then show ?thesis
  proof cases
    case 1
    then have "ts ! k \<noteq> ts ! ?n" using D(2) n(1) by (simp add: nth_eq_iff_index_eq)
    moreover have "k < length ts" "Suc k < length ts" using 1 n by simp_all
    ultimately show ?thesis using D(5) [of k] n(3) by (simp add: nth_append)
  next
    case 2
    then have "k < length ts" "ts ! k = last ts" "(ts @ [t]) ! Suc k = t" using n by simp_all
    then show ?thesis by (simp add: nth_append)
  next
    case 3
    then show ?thesis using t \<open>last ts \<noteq> t\<close> by simp
  qed
qed

lemma enqueue_nonempty:
  assumes q: "q_ok s i ts" "ts \<noteq> []" and t: "t \<noteq> 0" "t \<notin> set ts" "threads s t = Some th" "next_thread th = 0"
    and len: "Suc (length ts) < 2 ^ 31"
  shows "\<exists>s'. enqueue s i t = Inr s' \<and> q_ok s' i (ts @ [t]) \<and> same_threads s s' \<and>
    qcurrent (queue (cpus s' i)) = qcurrent (queue (cpus s i)) \<and>
    s_phys s' = s_phys s \<and> curPid s' = curPid s"
proof -
  note D = q_okD [OF q(1)]
  let ?q = "queue (cpus s i)"
  obtain lt where lt: "deref s (last ts) = Inr lt" "threads s (last ts) = Some lt"
    using deref_queued [OF q(1), of "length ts - 1"] q(2) by (auto simp: last_conv_nth)
  have "last ts \<in> set ts" "hd ts \<in> set ts" using q(2) by simp_all
  then have l0: "last ts \<noteq> 0" "hd ts \<noteq> 0" using D(3) by auto
  let ?s1 = "set_thread s (last ts) (lt\<lparr>next_thread := t\<rparr>)"
  let ?s' = "set_queue ?s1 i (?q\<lparr>qtail := t, num_threads := num_threads ?q + 1\<rparr>)"
  have e: "enqueue s i t = Inr ?s'"
    using D(1,6,7) q(2) lt(1) l0 by (simp add: enqueue_def cpu_at_def Let_def)
  have th: "threads ?s' = (threads s)(last ts \<mapsto> lt\<lparr>next_thread := t\<rparr>)"
    and qu: "queue (cpus ?s' i) = ?q\<lparr>qtail := t, num_threads := num_threads ?q + 1\<rparr>"
    by (simp_all add: set_queue_def set_thread_def)
  have "q_ok ?s' i (ts @ [t])"
    unfolding q_ok_def th qu
  proof (intro conjI allI impI)
    fix k assume "k < length (ts @ [t])"
    then show "\<exists>th. ((threads s)(last ts \<mapsto> lt\<lparr>next_thread := t\<rparr>)) ((ts @ [t]) ! k) = Some th \<and>
        next_thread th = (if Suc k < length (ts @ [t]) then (ts @ [t]) ! Suc k else 0)"
      using enqueue_links [OF q t(2-4) lt(2), of k] by simp
  next
    show "qcurrent (?q\<lparr>qtail := t, num_threads := num_threads ?q + 1\<rparr>) \<in> insert 0 (set (ts @ [t]))"
      using D(9) by auto
  qed (use D(1-4,6-8) t(1,2) len q(2) in simp_all)
  moreover have "same_threads s ?s'"
    using lt(2) unfolding same_threads_def th by simp
  moreover have "qcurrent (queue (cpus ?s' i)) = qcurrent ?q" "s_phys ?s' = s_phys s" "curPid ?s' = curPid s"
    by (simp_all add: set_queue_def set_thread_def)
  ultimately show ?thesis using e by blast
qed

lemma enqueue_ok:
  assumes "q_ok s i ts" and "t \<noteq> 0" "t \<notin> set ts" "threads s t = Some th" "next_thread th = 0"
    and "Suc (length ts) < 2 ^ 31"
  shows "\<exists>s'. enqueue s i t = Inr s' \<and> q_ok s' i (ts @ [t]) \<and> same_threads s s' \<and>
    qcurrent (queue (cpus s' i)) = qcurrent (queue (cpus s i)) \<and>
    s_phys s' = s_phys s \<and> curPid s' = curPid s"
  using enqueue_empty [of s i t th] enqueue_nonempty [of s i ts t th] assms
  by (cases "ts = []") simp_all

section \<open>Choosing the next thread\<close>

definition runnable :: "sched \<Rightarrow> u64 \<Rightarrow> bool" where
  "runnable s t = (case threads s t of None \<Rightarrow> False | Some th \<Rightarrow> canRun th)"

text \<open>The current thread is at index \<open>c\<close>; with no current thread yet the code starts from the head.\<close>

definition at_index :: "sched \<Rightarrow> u64 \<Rightarrow> u64 list \<Rightarrow> nat \<Rightarrow> bool" where
  "at_index s i ts c \<longleftrightarrow> c < length ts \<and>
     (qcurrent (queue (cpus s i)) = ts ! c \<or> qcurrent (queue (cpus s i)) = 0 \<and> c = 0)"

definition moved :: "sched \<Rightarrow> u64 \<Rightarrow> u64 \<Rightarrow> sched" where
  "moved s i t = set_queue s i ((queue (cpus s i))\<lparr>qcurrent := t\<rparr>)"

lemma moved_simps [simp]:
  "threads (moved s i t) = threads s" "queue (cpus (moved s i t) i) = (queue (cpus s i))\<lparr>qcurrent := t\<rparr>"
  "moved (moved s i u) i t = moved s i t" "sched_mutex (moved s i t) = sched_mutex s"
  "runnable (moved s i t) = runnable s"
  by (simp_all add: moved_def set_queue_def runnable_def fun_eq_iff)

lemma moved_ok: "q_ok s i ts \<Longrightarrow> t \<in> set ts \<Longrightarrow> q_ok (moved s i t) i ts"
  by (simp add: q_ok_def)

lemma moved_index: "c < length ts \<Longrightarrow> at_index (moved s i (ts ! c)) i ts c"
  by (simp add: at_index_def)

lemma at_index_exists:
  assumes "q_ok s i ts" "ts \<noteq> []"
  obtains c where "at_index s i ts c"
proof (cases "qcurrent (queue (cpus s i)) = 0")
  case True
  then show ?thesis using that [of 0] assms(2) by (simp add: at_index_def)
next
  case False
  then have "qcurrent (queue (cpus s i)) \<in> set ts" using q_okD(9) [OF assms(1)] by simp
  then show ?thesis using that by (metis at_index_def in_set_conv_nth)
qed

lemma pick_eq:
  assumes q: "q_ok s i ts" and c: "at_index s i ts c"
  shows "pick s i = Inr (ts ! (Suc c mod length ts), moved s i (ts ! (Suc c mod length ts)))"
proof -
  note D = q_okD [OF q]
  have lt: "c < length ts" and ne: "ts \<noteq> []" using c by (auto simp: at_index_def)
  have hd: "qhead (queue (cpus s i)) = ts ! 0" using D(6) ne by (simp add: hd_conv_nth)
  obtain th where th: "deref s (ts ! c) = Inr th"
    "next_thread th = (if Suc c < length ts then ts ! Suc c else 0)"
    by (rule deref_queued [OF q lt])
  have tc: "ts ! c \<noteq> 0" using D(3) nth_mem [OF lt] by metis
  have cur: "(if qcurrent (queue (cpus s i)) = 0 then (queue (cpus s i))\<lparr>qcurrent := qhead (queue (cpus s i))\<rparr>
      else queue (cpus s i)) = (queue (cpus s i))\<lparr>qcurrent := ts ! c\<rparr>"
    using c hd tc by (auto simp: at_index_def)
  have nx: "(if next_thread th \<noteq> 0 then next_thread th else ts ! 0) = ts ! (Suc c mod length ts)"
  proof (cases "Suc c < length ts")
    case True
    then have "ts ! Suc c \<noteq> 0" using D(3) nth_mem [OF True] by metis
    then show ?thesis using True th(2) by simp
  next
    case False
    then have "Suc c = length ts" using lt by simp
    then show ?thesis using th(2) by simp
  qed
  have "pick s i = Inr (if next_thread th \<noteq> 0 then next_thread th else ts ! 0,
      moved s i (if next_thread th \<noteq> 0 then next_thread th else ts ! 0))"
    unfolding pick_def cpu_at_def if_P [OF D(1)] bindE_simps Let_def cur
    using th(1) hd by (simp add: moved_def)
  then show ?thesis unfolding nx .
qed

lemma GetNextThread_step:
  assumes q: "q_ok s i ts" and c: "at_index s i ts c"
  defines "t \<equiv> ts ! (Suc c mod length ts)"
  shows "GetNextThread s i =
    (if runnable s t then Some (Inr (t, moved s i t)) else GetNextThread (moved s i t) i)"
proof -
  have ne: "ts \<noteq> []" using c by (auto simp: at_index_def)
  then have lt: "Suc c mod length ts < length ts" by simp
  obtain th where th: "deref (moved s i t) t = Inr th" "threads (moved s i t) t = Some th"
    using deref_queued [OF moved_ok [OF q nth_mem [OF lt]] lt] unfolding t_def by blast
  have "runnable s t = canRun th" using th(2) by (simp add: runnable_def)
  then show ?thesis
    using q_okD(1) [OF q] num_threads_zero [OF q] ne pick_eq [OF q c] th(1)
    by (subst GetNextThread.simps) (simp add: cpu_at_def t_def)
qed

lemma GetNextThread_kth:
  assumes "q_ok s i ts" "at_index s i ts c" "0 < k" "runnable s (ts ! ((c + k) mod length ts))"
    and "\<And>j. 0 < j \<Longrightarrow> j < k \<Longrightarrow> \<not> runnable s (ts ! ((c + j) mod length ts))"
  shows "GetNextThread s i = Some (Inr (ts ! ((c + k) mod length ts), moved s i (ts ! ((c + k) mod length ts))))"
  using assms
proof (induction k arbitrary: s c)
  case (Suc k)
  let ?n = "length ts" and ?c = "Suc c mod length ts"
  have ne: "ts \<noteq> []" using Suc.prems(2) by (auto simp: at_index_def)
  then have lt: "?c < ?n" by simp
  note step = GetNextThread_step [OF Suc.prems(1,2)]
  show ?case
  proof (cases "k = 0")
    case True
    then show ?thesis using step Suc.prems(4) by simp
  next
    case False
    have m: "(?c + j) mod ?n = (c + Suc j) mod ?n" for j
      by (simp add: mod_add_left_eq)
    have "\<not> runnable s (ts ! ?c)" using Suc.prems(5) [of 1] False by simp
    moreover have "GetNextThread (moved s i (ts ! ?c)) i
        = Some (Inr (ts ! ((?c + k) mod ?n), moved (moved s i (ts ! ?c)) i (ts ! ((?c + k) mod ?n))))"
    proof (rule Suc.IH)
      show "q_ok (moved s i (ts ! ?c)) i ts" using moved_ok [OF Suc.prems(1)] nth_mem [OF lt] by blast
      show "at_index (moved s i (ts ! ?c)) i ts ?c" by (rule moved_index [OF lt])
      show "runnable (moved s i (ts ! ?c)) (ts ! ((?c + k) mod ?n))"
        using Suc.prems(4) by (simp only: m moved_simps)
      show "\<not> runnable (moved s i (ts ! ?c)) (ts ! ((?c + j) mod ?n))" if "0 < j" "j < k" for j
        using Suc.prems(5) [of "Suc j"] that by (simp only: m moved_simps) simp
    qed (use False in simp)
    ultimately show ?thesis using step by (simp add: m)
  qed
qed simp

text \<open>With no thread that can run, the call never returns.\<close>

lemma GetNextThread_diverges:
  assumes "q_ok s i ts" "ts \<noteq> []" "\<And>t. t \<in> set ts \<Longrightarrow> \<not> runnable s t"
  shows "GetNextThread s i = None"
proof -
  let ?P = "\<lambda>s i (r :: (u64 \<times> sched) result). q_ok s i ts \<longrightarrow> (\<forall>t \<in> set ts. \<not> runnable s t) \<longrightarrow> False"
  have "?P s i r" if run: "GetNextThread s i = Some r" for r
  proof (rule GetNextThread.raw_induct [OF _ run, where P = ?P], intro impI)
    fix f s i r
    assume IH: "\<And>i b y. f i b = Some y \<Longrightarrow> ?P i b y" and q: "q_ok s i ts"
      and none: "\<forall>t \<in> set ts. \<not> runnable s t"
      and body: "(case cpu_at s i of Inl e \<Rightarrow> Some (Inl e)
        | Inr c \<Rightarrow> if num_threads (queue c) = 0 then Some (Inr (0, s))
            else (case pick s i of Inl e \<Rightarrow> Some (Inl e)
                 | Inr r \<Rightarrow> (case deref (snd r) (fst r) of Inl e \<Rightarrow> Some (Inl e)
                     | Inr th \<Rightarrow> if \<not> canRun th then f (snd r) i else Some (Inr r)))) = Some r"
    obtain c where c: "at_index s i ts c" by (rule at_index_exists [OF q assms(2)])
    let ?t = "ts ! (Suc c mod length ts)"
    have lt: "Suc c mod length ts < length ts" using assms(2) by simp
    have mem: "?t \<in> set ts" by (rule nth_mem [OF lt])
    obtain th where th: "deref (moved s i ?t) ?t = Inr th" "threads (moved s i ?t) ?t = Some th"
      using deref_queued [OF moved_ok [OF q mem] lt] by blast
    have "\<not> canRun th" using bspec [OF none mem] th(2) by (simp add: runnable_def)
    then have "f (moved s i ?t) i = Some r"
      using body q_okD(1) [OF q] num_threads_zero [OF q] assms(2) pick_eq [OF q c] th(1)
      by (simp add: cpu_at_def)
    then have "?P (moved s i ?t) i r" by (rule IH)
    then show False using moved_ok [OF q mem] none by simp
  qed
  then show ?thesis using assms by (cases "GetNextThread s i") auto
qed

text \<open>The first thread that can run, at distance \<open>k\<close> after the current one.\<close>

lemma GetNextThread_first:
  assumes q: "q_ok s i ts" and c: "at_index s i ts c" and d: "0 < d" "runnable s (ts ! ((c + d) mod length ts))"
  obtains k where "0 < k" "k \<le> d" "runnable s (ts ! ((c + k) mod length ts))"
    "\<And>j. 0 < j \<Longrightarrow> j < k \<Longrightarrow> \<not> runnable s (ts ! ((c + j) mod length ts))"
    "GetNextThread s i = Some (Inr (ts ! ((c + k) mod length ts), moved s i (ts ! ((c + k) mod length ts))))"
proof -
  let ?P = "\<lambda>k. 0 < k \<and> runnable s (ts ! ((c + k) mod length ts))"
  define k where "k = (LEAST k. ?P k)"
  have P: "?P k" unfolding k_def using d by (intro LeastI [of ?P d]) simp
  have le: "k \<le> d" unfolding k_def using d by (intro Least_le) simp
  have no: "\<not> runnable s (ts ! ((c + j) mod length ts))" if "0 < j" "j < k" for j
    using not_less_Least [of j ?P] that unfolding k_def by blast
  show ?thesis
    using GetNextThread_kth [OF q c conjunct1 [OF P] conjunct2 [OF P] no] P le no by (intro that) auto
qed

lemma distance:
  assumes "c < n" "j < n"
  obtains d where "0 < d" "d \<le> n" "(c + d) mod n = (j :: nat)"
proof (cases "c < j")
  case True
  then show ?thesis using that [of "j - c"] assms by simp
next
  case False
  then show ?thesis using that [of "n + j - c"] assms by simp
qed

text \<open>The \<open>m\<close>-th of successive calls, counting from 0.\<close>

fun nth_call :: "nat \<Rightarrow> sched \<Rightarrow> u64 \<Rightarrow> (u64 \<times> sched) result option" where
  "nth_call 0 s i = GetNextThread s i"
| "nth_call (Suc m) s i =
     (case GetNextThread s i of Some (Inr (t, s')) \<Rightarrow> nth_call m s' i | r \<Rightarrow> r)"

lemma nth_call_reaches:
  assumes "q_ok s i ts" "at_index s i ts c" "0 < d" "runnable s (ts ! ((c + d) mod length ts))"
  shows "\<exists>m < d. \<exists>s'. nth_call m s i = Some (Inr (ts ! ((c + d) mod length ts), s'))"
  using assms
proof (induction d arbitrary: s c rule: less_induct)
  case (less d)
  let ?n = "length ts"
  obtain k where k: "0 < k" "k \<le> d"
    "GetNextThread s i = Some (Inr (ts ! ((c + k) mod ?n), moved s i (ts ! ((c + k) mod ?n))))"
    by (rule GetNextThread_first [OF less.prems])
  have lt: "(c + k) mod ?n < ?n"
    using less.prems(2) by (intro mod_less_divisor) (auto simp: at_index_def)
  show ?case
  proof (cases "k = d")
    case True
    then show ?thesis using k less.prems(3) by (intro exI [of _ 0]) auto
  next
    case False
    let ?s = "moved s i (ts ! ((c + k) mod ?n))"
    have m: "((c + k) mod ?n + (d - k)) mod ?n = (c + d) mod ?n"
    proof -
      have "((c + k) mod ?n + (d - k)) mod ?n = (c + k + (d - k)) mod ?n" by (rule mod_add_left_eq)
      then show ?thesis using k(2) by simp
    qed
    obtain m' s' where "m' < d - k" "nth_call m' ?s i = Some (Inr (ts ! ((c + d) mod ?n), s'))"
      using less.IH [of "d - k" ?s "(c + k) mod ?n"] k False less.prems(4)
        moved_ok [OF less.prems(1) nth_mem [OF lt]] moved_index [OF lt]
      unfolding m by auto
    then show ?thesis using k by (intro exI [of _ "Suc m'"]) auto
  qed
qed

section \<open>Switching contexts\<close>

lemma GetNextThread_total:
  assumes q: "q_ok s i ts" and c: "at_index s i ts c" and r: "\<exists>t \<in> set ts. runnable s t"
  obtains k where "0 < k" "k \<le> length ts" "runnable s (ts ! ((c + k) mod length ts))"
    "\<forall>j. 0 < j \<and> j < k \<longrightarrow> \<not> runnable s (ts ! ((c + j) mod length ts))"
    "GetNextThread s i = Some (Inr (ts ! ((c + k) mod length ts), moved s i (ts ! ((c + k) mod length ts))))"
proof -
  obtain j where j: "j < length ts" "runnable s (ts ! j)" using r by (auto simp: in_set_conv_nth)
  have "c < length ts" using c by (simp add: at_index_def)
  then obtain d where d: "0 < d" "d \<le> length ts" "(c + d) mod length ts = j"
    using j(1) by (rule distance)
  have "runnable s (ts ! ((c + d) mod length ts))" using j(2) d(3) by simp
  then show ?thesis
  proof (rule GetNextThread_first [OF q c d(1)])
    fix k assume "0 < k" "k \<le> d" "runnable s (ts ! ((c + k) mod length ts))"
      "\<And>j. 0 < j \<Longrightarrow> j < k \<Longrightarrow> \<not> runnable s (ts ! ((c + j) mod length ts))"
      "GetNextThread s i = Some (Inr (ts ! ((c + k) mod length ts), moved s i (ts ! ((c + k) mod length ts))))"
    then show thesis using d(2) by (intro that [of k]) simp_all
  qed
qed

definition save_context :: "sched \<Rightarrow> u64 \<Rightarrow> SavedRegs \<Rightarrow> sched" where
  "save_context s t regs = s\<lparr>threads := (threads s)(t := map_option (\<lambda>h. h\<lparr>ctxt := regs\<rparr>) (threads s t))\<rparr>"

lemma save_context_ok:
  "q_ok s i ts \<Longrightarrow> q_ok (save_context s t regs) i ts"
proof -
  assume q: "q_ok s i ts"
  have "\<exists>th. threads (save_context s t regs) (ts ! k) = Some th \<and>
      next_thread th = (if Suc k < length ts then ts ! Suc k else 0)" if "k < length ts" for k
    using q_okD(5) [OF q that] by (auto simp: save_context_def)
  then show ?thesis
    using q_okD(1-4,6-9) [OF q] unfolding q_ok_def by (simp add: save_context_def)
qed

lemma save_context_simps [simp]:
  "runnable (save_context s t regs) u = runnable s u" "cpus (save_context s t regs) = cpus s"
  "at_index (save_context s t regs) = at_index s" "sched_mutex (save_context s t regs) = sched_mutex s"
  by (auto simp: runnable_def save_context_def at_index_def fun_eq_iff split: option.splits)

text \<open>The state \<^verbatim>\<open>Schedule\<close> hands to \<^verbatim>\<open>GetNextThread\<close>: locked, the interrupted thread's registers saved.\<close>

definition interrupted :: "sched \<Rightarrow> u64 \<Rightarrow> SavedRegs \<Rightarrow> sched" where
  "interrupted s cur regs =
     (let t = qcurrent (queue (cpus s cur)); s1 = s\<lparr>sched_mutex := 1\<rparr>
      in if t = 0 then s1 else save_context s1 t regs)"

lemma interrupted_ok: "q_ok s i ts \<Longrightarrow> q_ok (interrupted s cur regs) i ts"
proof -
  assume "q_ok s i ts"
  then have "q_ok (s\<lparr>sched_mutex := 1\<rparr>) i ts" by (simp add: q_ok_def)
  then show ?thesis by (simp add: interrupted_def Let_def save_context_ok)
qed

lemma interrupted_simps [simp]:
  "runnable (interrupted s cur regs) = runnable s" "at_index (interrupted s cur regs) = at_index s"
  "cpus (interrupted s cur regs) = cpus s"
  by (auto simp: interrupted_def Let_def fun_eq_iff runnable_def at_index_def save_context_def
      split: option.splits)

lemma interrupted_threads:
  "threads (interrupted s cur regs) t =
     (if t = qcurrent (queue (cpus s cur)) \<and> t \<noteq> 0
      then map_option (\<lambda>h. h\<lparr>ctxt := regs\<rparr>) (threads s t) else threads s t)"
  by (simp add: interrupted_def Let_def save_context_def)

lemma Schedule_eq:
  assumes q: "q_ok s cur ts" and id: "processor_id (cpus s cur) = cur" and free: "sched_mutex s = 0"
  shows "Schedule cur s pml4 regs =
    (case GetNextThread (interrupted s cur regs) cur of None \<Rightarrow> None
     | Some (Inl e) \<Rightarrow> Some (Inl e)
     | Some (Inr (t, s3)) \<Rightarrow>
         let s4 = spin_unlock s3
         in if t = 0 then Some (Inr (None, pml4, s4))
            else Some (bindE (deref s4 t) (\<lambda>th. Inr (Some (ctxt th, rootTable th), rootTable th, s4))))"
proof -
  let ?c = "cpus s cur" and ?s1 = "s\<lparr>sched_mutex := 1\<rparr>"
  have "bindE (cpu_at s cur) (\<lambda>c. bindE (spin_lock s) (\<lambda>s1.
           if qcurrent (queue c) \<noteq> 0
           then bindE (deref s1 (qcurrent (queue c)))
                  (\<lambda>th. Inr (processor_id c, set_thread s1 (qcurrent (queue c)) (th\<lparr>ctxt := regs\<rparr>)))
           else Inr (processor_id c, s1))) = Inr (cur, interrupted s cur regs)"
  proof (cases "qcurrent (queue ?c) = 0")
    case True
    then show ?thesis
      using q_okD(1) [OF q] id free
      by (simp add: cpu_at_def spin_lock_def compare_exchange_def interrupted_def)
  next
    case False
    then obtain k where k: "k < length ts" "qcurrent (queue ?c) = ts ! k"
      using q_okD(9) [OF q] by (auto simp: in_set_conv_nth)
    obtain th where "threads s (ts ! k) = Some th" using q_okD(5) [OF q k(1)] by blast
    then show ?thesis
      using False k(2) q_okD(1) [OF q] id free
      by (simp add: cpu_at_def spin_lock_def compare_exchange_def interrupted_def deref_def
          set_thread_def save_context_def Let_def)
  qed
  then show ?thesis unfolding Schedule_def by simp
qed

section \<open>Mutual exclusion\<close>

text \<open>
  The processors interleave: each is outside, spinning in \<^verbatim>\<open>lock\<close>, inside a region entered through
  \<^verbatim>\<open>lock\<close>, or in the region of \<^verbatim>\<open>AddThread(Thread*)\<close>, which is entered without \<^verbatim>\<open>lock\<close> and left through \<^verbatim>\<open>unlock\<close>
  like the others. The flag says whether that version is called.
\<close>

datatype region = Outside | Spinning | Inside | Unguarded

record machine =
  lock_value :: i32
  at_cpu :: "nat \<Rightarrow> region"

definition boot_machine :: machine where
  "boot_machine = \<lparr>lock_value = 0, at_cpu = (\<lambda>_. Outside)\<rparr>"

inductive lock_step :: "bool \<Rightarrow> machine \<Rightarrow> machine \<Rightarrow> bool" for unguarded where
  call: "at_cpu m p = Outside \<Longrightarrow> lock_step unguarded m (m\<lparr>at_cpu := (at_cpu m)(p := Spinning)\<rparr>)"
| spin: "at_cpu m p = Spinning \<Longrightarrow> compare_exchange (lock_value m) 0 1 = (False, v) \<Longrightarrow>
    lock_step unguarded m (m\<lparr>lock_value := v\<rparr>)"
| acquire: "at_cpu m p = Spinning \<Longrightarrow> compare_exchange (lock_value m) 0 1 = (True, v) \<Longrightarrow>
    lock_step unguarded m \<lparr>lock_value = v, at_cpu = (at_cpu m)(p := Inside)\<rparr>"
| release: "at_cpu m p \<in> {Inside, Unguarded} \<Longrightarrow>
    lock_step unguarded m \<lparr>lock_value = 0, at_cpu = (at_cpu m)(p := Outside)\<rparr>"
| stray: "unguarded \<Longrightarrow> at_cpu m p = Outside \<Longrightarrow>
    lock_step unguarded m (m\<lparr>at_cpu := (at_cpu m)(p := Unguarded)\<rparr>)"

inductive_cases lock_stepE: "lock_step unguarded m m'"

definition in_region :: "machine \<Rightarrow> nat \<Rightarrow> bool" where
  "in_region m p \<longleftrightarrow> at_cpu m p \<in> {Inside, Unguarded}"

definition lock_inv :: "machine \<Rightarrow> bool" where
  "lock_inv m \<longleftrightarrow> lock_value m \<in> {0, 1} \<and> (\<forall>p. at_cpu m p \<noteq> Unguarded) \<and>
     (\<forall>p. at_cpu m p = Inside \<longrightarrow> lock_value m = 1) \<and>
     (\<forall>p r. at_cpu m p = Inside \<longrightarrow> at_cpu m r = Inside \<longrightarrow> p = r)"

lemma lock_inv_step: "lock_step False m m' \<Longrightarrow> lock_inv m \<Longrightarrow> lock_inv m'"
  by (erule lock_stepE)
     (auto simp: lock_inv_def compare_exchange_def split: if_splits)

lemma lock_inv_reachable: "(lock_step False)\<^sup>*\<^sup>* boot_machine m \<Longrightarrow> lock_inv m"
  by (induction rule: rtranclp_induct) (auto simp: lock_inv_step, simp add: lock_inv_def boot_machine_def)

lemma lock_inv_excludes: "lock_inv m \<Longrightarrow> in_region m p \<Longrightarrow> in_region m r \<Longrightarrow> p = r"
  by (auto simp: lock_inv_def in_region_def)

text \<open>A run in which processor 1 adds a thread while processor 0 schedules.\<close>

lemma two_inside: "\<exists>m. (lock_step True)\<^sup>*\<^sup>* boot_machine m \<and> at_cpu m 0 = Inside \<and> at_cpu m 2 = Inside"
proof -
  let ?m1 = "\<lparr>lock_value = 0, at_cpu = (\<lambda>_. Outside)(0 := Spinning)\<rparr>"
  let ?m2 = "\<lparr>lock_value = 1, at_cpu = (\<lambda>_. Outside)(0 := Inside)\<rparr>"
  let ?m3 = "\<lparr>lock_value = 1, at_cpu = (\<lambda>_. Outside)(0 := Inside, 1 := Unguarded)\<rparr>"
  let ?m4 = "\<lparr>lock_value = 0, at_cpu = (\<lambda>_. Outside)(0 := Inside, 1 := Unguarded, 1 := Outside)\<rparr>"
  let ?m5 = "\<lparr>lock_value = 0, at_cpu = (\<lambda>_. Outside)(0 := Inside, 1 := Unguarded, 1 := Outside, 2 := Spinning)\<rparr>"
  let ?m6 = "\<lparr>lock_value = 1, at_cpu = (\<lambda>_. Outside)(0 := Inside, 1 := Unguarded, 1 := Outside, 2 := Spinning, 2 := Inside)\<rparr>"
  have 1: "lock_step True boot_machine ?m1"
    using lock_step.call [of boot_machine 0 True] by (simp add: boot_machine_def)
  have 2: "lock_step True ?m1 ?m2"
    using lock_step.acquire [of ?m1 0 1 True] by (simp add: compare_exchange_def)
  have 3: "lock_step True ?m2 ?m3" using lock_step.stray [of True ?m2 1] by simp
  have 4: "lock_step True ?m3 ?m4" using lock_step.release [of ?m3 1 True] by simp
  have 5: "lock_step True ?m4 ?m5" using lock_step.call [of ?m4 2 True] by simp
  have 6: "lock_step True ?m5 ?m6"
    using lock_step.acquire [of ?m5 2 1 True] by (simp add: compare_exchange_def)
  have "(lock_step True)\<^sup>*\<^sup>* boot_machine ?m6"
    using 1 2 3 4 5 6 by (meson converse_rtranclp_into_rtranclp rtranclp.rtrancl_refl)
  then show ?thesis by (intro exI [of _ ?m6]) simp
qed

section \<open>A demonstration state\<close>

definition demo_thread :: "bool \<Rightarrow> u64 \<Rightarrow> thread" where
  "demo_thread r nx = \<lparr>ctxt = zero_regs\<lparr>rip := 0x400000\<rparr>, rootTable = 0x9000, pid = 0, canRun = r, next_thread = nx\<rparr>"

text \<open>Three queued threads, of which the middle one cannot run, and a fourth not queued yet.\<close>

definition demo_sched :: sched where
  "demo_sched = \<lparr>s_phys = demo_pm,
     threads = [0x10 \<mapsto> demo_thread True 0x20, 0x20 \<mapsto> demo_thread False 0x30,
                0x30 \<mapsto> demo_thread True 0, 0x40 \<mapsto> demo_thread True 0],
     cpus = (\<lambda>i. \<lparr>queue = \<lparr>qhead = 0x10, qtail = 0x30, qcurrent = 0x10, num_threads = 3\<rparr>,
       processor_id = i, kstack = 0, kstack_phys = 0\<rparr>),
     sched_mutex = 0, curPid = 3, curCpuCore = 0\<rparr>"

lemma demo_q: "q_ok demo_sched 0 [0x10, 0x20, 0x30]"
  by (auto simp: q_ok_def demo_sched_def demo_thread_def less_Suc_eq)

lemma demo_at: "at_index demo_sched 0 [0x10, 0x20, 0x30] 0"
  by (simp add: at_index_def demo_sched_def)

lemma demo_runnable: "runnable demo_sched 0x10" "\<not> runnable demo_sched 0x20" "runnable demo_sched 0x30"
  by (simp_all add: runnable_def demo_sched_def demo_thread_def)

section \<open>Properties\<close>

text \<open>C14. Round robin: with a thread in the queue that can run, \<^verbatim>\<open>GetNextThread\<close> returns the first
  one that can after the current thread, in queue order and around the end (the current
  one itself when it is the only one), and only the current pointer moves. A thread whose
  \<^verbatim>\<open>canRun\<close> was cleared by \<^verbatim>\<open>DeleteCurThread\<close> is therefore never returned.\<close>

theorem next_thread_round_robin:
  assumes "q_ok s i ts" and "at_index s i ts c" and "\<exists>t \<in> set ts. runnable s t"
  shows "\<exists>k t. 0 < k \<and> k \<le> length ts \<and> t = ts ! ((c + k) mod length ts) \<and> runnable s t \<and>
    (\<forall>j. 0 < j \<and> j < k \<longrightarrow> \<not> runnable s (ts ! ((c + j) mod length ts))) \<and>
    GetNextThread s i = Some (Inr (t, moved s i t)) \<and> q_ok (moved s i t) i ts"
proof -
  obtain k where k: "0 < k" "k \<le> length ts" "runnable s (ts ! ((c + k) mod length ts))"
    "\<forall>j. 0 < j \<and> j < k \<longrightarrow> \<not> runnable s (ts ! ((c + j) mod length ts))"
    "GetNextThread s i = Some (Inr (ts ! ((c + k) mod length ts), moved s i (ts ! ((c + k) mod length ts))))"
    by (rule GetNextThread_total [OF assms])
  have "ts ! ((c + k) mod length ts) \<in> set ts"
    by (intro nth_mem mod_less_divisor) (use k(1,2) in linarith)
  then show ?thesis using k moved_ok [OF assms(1)] by blast
qed

theorem next_thread_round_robin_witness:
  "\<exists>t. GetNextThread demo_sched 0 = Some (Inr (t, moved demo_sched 0 t)) \<and> runnable demo_sched t"
proof -
  have "\<exists>t \<in> set [0x10, 0x20, 0x30]. runnable demo_sched t" using demo_runnable(1) by simp
  from next_thread_round_robin [OF demo_q demo_at this] show ?thesis
    by (elim exE conjE) (intro exI conjI; assumption)
qed

text \<open>C15. \<^verbatim>\<open>GetNextThread\<close> never returns exactly when the queue has threads and none of them can run;
  with an empty queue it returns the null pointer.\<close>

theorem next_thread_diverges_iff:
  assumes "q_ok s i ts"
  shows "(GetNextThread s i = None \<longleftrightarrow> ts \<noteq> [] \<and> (\<forall>t \<in> set ts. \<not> runnable s t)) \<and>
    (ts = [] \<longrightarrow> GetNextThread s i = Some (Inr (0, s)))"
proof (cases "ts = []")
  case True
  then show ?thesis
    using num_threads_zero [OF assms] q_okD(1) [OF assms]
    by (simp add: GetNextThread.simps [of s i] cpu_at_def)
next
  case False
  show ?thesis
  proof (cases "\<exists>t \<in> set ts. runnable s t")
    case True
    obtain c where c: "at_index s i ts c" by (rule at_index_exists [OF assms False])
    show ?thesis by (rule GetNextThread_total [OF assms c True]) (use True False in auto)
  next
    case none: False
    then have "GetNextThread s i = None" by (intro GetNextThread_diverges [OF assms False]) blast
    then show ?thesis using none False by simp
  qed
qed

theorem next_thread_diverges_iff_witness:
  "GetNextThread demo_sched 0 \<noteq> None \<and>
   GetNextThread (demo_sched\<lparr>threads := \<lambda>p. map_option (\<lambda>h. h\<lparr>canRun := False\<rparr>) (threads demo_sched p)\<rparr>) 0 = None"
proof -
  let ?s = "demo_sched\<lparr>threads := \<lambda>p. map_option (\<lambda>h. h\<lparr>canRun := False\<rparr>) (threads demo_sched p)\<rparr>"
  have q: "q_ok ?s 0 [0x10, 0x20, 0x30]"
    by (auto simp: q_ok_def demo_sched_def demo_thread_def less_Suc_eq)
  have "\<not> runnable ?s t" for t by (simp add: runnable_def split: option.split)
  then show ?thesis
    using next_thread_diverges_iff [OF demo_q] next_thread_diverges_iff [OF q] demo_runnable(1) by simp
qed

text \<open>C16. Fairness: a thread in the queue that can run is returned by one of at most as many
  successive calls as the queue has threads.\<close>

theorem next_thread_fair:
  assumes "q_ok s i ts" and "t \<in> set ts" and "runnable s t"
  shows "\<exists>m < length ts. \<exists>s'. nth_call m s i = Some (Inr (t, s'))"
proof -
  obtain j where j: "j < length ts" "ts ! j = t" using assms(2) by (auto simp: in_set_conv_nth)
  then have "ts \<noteq> []" by auto
  then obtain c where c: "at_index s i ts c" by (rule at_index_exists [OF assms(1)])
  then have "c < length ts" by (simp add: at_index_def)
  then obtain d where d: "0 < d" "d \<le> length ts" "(c + d) mod length ts = j"
    using j(1) by (rule distance)
  have r: "runnable s (ts ! ((c + d) mod length ts))" using d(3) j(2) assms(3) by simp
  obtain m s' where "m < d" "nth_call m s i = Some (Inr (ts ! ((c + d) mod length ts), s'))"
    using nth_call_reaches [OF assms(1) c d(1) r] by blast
  then show ?thesis using d j(2) by (intro exI [of _ m]) auto
qed

theorem next_thread_fair_witness:
  "\<exists>m < 3. \<exists>s'. nth_call m demo_sched 0 = Some (Inr (0x10, s'))"
  using next_thread_fair [OF demo_q _ demo_runnable(1)] by (simp add: eval_nat_numeral)

lemma add_thread_ok:
  assumes "q_ok s (curCpuCore s) ts" and "t \<noteq> 0" and "t \<notin> set ts" and "threads s t = Some th"
    and "next_thread th = 0" and "Suc (length ts) < 2 ^ 31"
  shows "\<exists>s'. AddThread s t = Inr (t, s') \<and> q_ok s' (curCpuCore s) (ts @ [t]) \<and>
    map_option pid (threads s' t) = Some (curPid s) \<and> curPid s' = curPid s + 1 \<and> sched_mutex s' = 0 \<and>
    (\<forall>u. u \<noteq> t \<longrightarrow> map_option (\<lambda>h. h\<lparr>next_thread := 0\<rparr>) (threads s' u)
                  = map_option (\<lambda>h. h\<lparr>next_thread := 0\<rparr>) (threads s u)) \<and>
    map_option ctxt (threads s' t) = Some (ctxt th)"
proof -
  let ?s1 = "set_thread (s\<lparr>curPid := curPid s + 1\<rparr>) t (th\<lparr>pid := curPid s\<rparr>)"
  have d: "deref s t = Inr th" using assms(2,4) by (simp add: deref_def)
  have "q_ok (s\<lparr>curPid := curPid s + 1\<rparr>) (curCpuCore s) ts"
    using assms(1) by (simp add: q_ok_def)
  then have q1: "q_ok ?s1 (curCpuCore s) ts" by (rule q_ok_set_thread [OF _ assms(3)])
  have t1: "threads ?s1 t = Some (th\<lparr>pid := curPid s\<rparr>)" by (simp add: set_thread_def)
  obtain s2 where e: "enqueue ?s1 (curCpuCore s) t = Inr s2" "q_ok s2 (curCpuCore s) (ts @ [t])"
    "same_threads ?s1 s2" "curPid s2 = curPid ?s1"
    using enqueue_ok [OF q1 assms(2,3) t1 _ assms(6)] assms(5) by auto
  have p: "map_option (\<lambda>h. h\<lparr>next_thread := 0\<rparr>) (threads s2 t) = Some (th\<lparr>pid := curPid s, next_thread := 0\<rparr>)"
    using e(3) t1 unfolding same_threads_def by simp
  then obtain h where h: "threads s2 t = Some h" "h\<lparr>next_thread := 0\<rparr> = th\<lparr>pid := curPid s, next_thread := 0\<rparr>"
    by auto
  have "pid h = pid (h\<lparr>next_thread := 0\<rparr>)" by simp
  then have "pid h = curPid s" unfolding h(2) by simp
  moreover have "ctxt h = ctxt (h\<lparr>next_thread := 0\<rparr>)" by simp
  then have "ctxt h = ctxt th" unfolding h(2) by simp
  moreover have "AddThread s t = Inr (t, spin_unlock s2)"
    using d e(1) by (simp add: AddThread_def Let_def set_thread_def)
  moreover have "q_ok (spin_unlock s2) (curCpuCore s) (ts @ [t])"
    using e(2) by (simp add: spin_unlock_def q_ok_def)
  ultimately show ?thesis
    using h(1) e(3,4) by (auto simp: spin_unlock_def same_threads_def set_thread_def)
qed

text \<open>\<^verbatim>\<open>AddThread\<close> of a thread that is not in the queue puts it at the end, gives it the next
  process identifier and leaves all other threads alone, and it leaves the lock free even
  when another processor holds it, since it releases a lock it never took.\<close>

theorem add_thread_appends:
  assumes "q_ok s (curCpuCore s) ts" and "t \<noteq> 0" and "t \<notin> set ts" and "threads s t = Some th"
    and "next_thread th = 0" and "Suc (length ts) < 2 ^ 31"
  shows "\<exists>s'. AddThread s t = Inr (t, s') \<and> q_ok s' (curCpuCore s) (ts @ [t]) \<and>
    map_option pid (threads s' t) = Some (curPid s) \<and> curPid s' = curPid s + 1 \<and> sched_mutex s' = 0 \<and>
    (\<forall>u. u \<noteq> t \<longrightarrow> map_option (\<lambda>h. h\<lparr>next_thread := 0\<rparr>) (threads s' u)
                  = map_option (\<lambda>h. h\<lparr>next_thread := 0\<rparr>) (threads s u))"
  using add_thread_ok [OF assms] by blast

theorem add_thread_appends_witness:
  "\<exists>s'. AddThread (demo_sched\<lparr>sched_mutex := 1\<rparr>) 0x40 = Inr (0x40, s') \<and>
     q_ok s' 0 [0x10, 0x20, 0x30, 0x40] \<and> sched_mutex s' = 0"
proof -
  let ?s = "demo_sched\<lparr>sched_mutex := 1\<rparr>"
  have "q_ok ?s (curCpuCore ?s) [0x10, 0x20, 0x30]"
    using demo_q by (simp add: q_ok_def) (simp add: demo_sched_def)
  moreover have "threads ?s 0x40 = Some (demo_thread True 0)" by (simp add: demo_sched_def)
  ultimately show ?thesis
    using add_thread_appends [of ?s "[0x10, 0x20, 0x30]" "0x40" "demo_thread True 0"]
    by (simp add: demo_thread_def) (auto simp: demo_sched_def)
qed

section \<open>The address space of a thread\<close>

lemma stack_constants:
  "ALIGN_UP DEFAULT_THREAD_STACK_SIZE 4096 = 65536"
  "(DEFAULT_THREAD_STACK_SIZE + 4096) AND NOT 4096 = 65536"
  by (simp_all add: ALIGN_UP_def DIV_ROUNDUP_def DEFAULT_THREAD_STACK_SIZE_def)

lemma rwu_flags: "3 OR PF_user = (7 :: u64)"
  by (simp add: page_flags)

lemma Thread_ctor_split:
  assumes "Thread_ctor b mmap s cpu g entry usr = Inr (t, s', cpu')" "find_framebuffer mmap = (phyAddr, len)"
  obtains st s0 root s2 s4 s5 s6 s7 where
    "PhysicalMemory_alloc s 65536 = Inr (st, s0)"
    "PhysicalMemory_alloc (s0\<lparr>ram := memset (ram s0) st 0 65536\<rparr>) 1 = Inr (root, s2)"
    "map_range (s2\<lparr>ram := memset (ram s2) root 0 4096\<rparr>) root (virtual_base b) (physical_base b) (kernel_size b) 3 0 = Inr s4"
    "map_range s4 root (fb_address b) phyAddr len 3 0 = Inr s5"
    "map_range s5 root 0xffffa00000000000 st 65536 7 0 = Inr s6"
    "map_range s6 root (hhdm_offset b) 0 0x100000000 3 0 = Inr s7"
    "map_range s7 root 0xffffd00000000000 (kstack_phys cpu) 20480 3 0 = Inr s'"
    "t = \<lparr>ctxt = initial_context entry usr, rootTable = root, pid = g, canRun = True, next_thread = 0\<rparr>"
proof -
  have n: "unat DEFAULT_THREAD_STACK_SIZE = 65536" "(16 * 1024 + 4096 :: u64) = 20480"
    by (simp_all add: DEFAULT_THREAD_STACK_SIZE_def)
  from assms(1) show ?thesis
    unfolding Thread_ctor_def Let_def rw_flags rwu_flags stack_constants n assms(2) prod.case
    by (auto simp: bindE_eq_Inr intro: that)
qed

lemma pm_ok_ram [simp]: "pm_ok (s\<lparr>ram := m\<rparr>) = pm_ok s" "page_limit (s\<lparr>ram := m\<rparr>) = page_limit s"
  "pm_free (s\<lparr>ram := m\<rparr>) = pm_free s" "avail (s\<lparr>ram := m\<rparr>) = avail s"
  by (simp_all add: pm_ok_def page_limit_def pm_free_def avail_def)

text \<open>A thread can be built from memory with a run of pages for its stack and enough free pages.\<close>

lemma thread_ctor_returns:
  assumes ok: "pm_ok s" "page_limit s \<le> 2 ^ 40" and run: "alloc_possible s 65536" and n: "2 ^ 22 \<le> card (avail s)"
  shows "\<exists>t s' c'. Thread_ctor demo_boot demo_fb s c g entry usr = Inr (t, s', c')"
proof -
  obtain st s0 where a0: "PhysicalMemory_alloc s 65536 = Inr (st, s0)"
    using alloc_cases [OF ok(1), of 65536] run by auto
  have ok0: "pm_ok s0" "page_limit s0 = page_limit s"
    using pm_alloc_ok [OF ok(1) a0] by simp_all
  have "avail s0 = avail s - {page_of st..<page_of st + 65536}"
    using pm.alloc_block(4) [OF ok(1) a0] ok0(2) by (auto simp: avail_def)
  then have "card (avail s) \<le> card (avail s0) + card {page_of st..<page_of st + 65536}"
    by (metis Un_Diff_cancel2 Un_commute card_Un_le card_mono finite_Un finite_atLeastLessThan finite_avail order_trans sup_ge1)
  then have c0: "2 ^ 22 \<le> card (avail s0) + 65536" using n by simp
  let ?s1 = "s0\<lparr>ram := memset (ram s0) st 0 65536\<rparr>"
  have ok1: "pm_ok ?s1" "page_limit ?s1 \<le> 2 ^ 40" using ok0 ok(2) by simp_all
  have "avail ?s1 \<noteq> {}" using c0 by auto
  then obtain root s2 where a1: "PhysicalMemory_alloc ?s1 1 = Inr (root, s2)"
    and c1: "card (avail s0) = Suc (card (avail s2))"
    using alloc_page_total [OF ok1(1)] by auto
  let ?s3 = "s2\<lparr>ram := memset (ram s2) root 0 4096\<rparr>"
  note r3 = cleared_root [OF ok1 a1]
  have left: "pages_left 0x3000 0 = 3" "pages_left 0x100000000 0 = 2 ^ 20" "pages_left 0x2000 0 = 2"
    "pages_left 65536 0 = 16" "pages_left 20480 0 = 5"
    by (simp_all add: pages_left_def)
  obtain s4 where s4: "map_range ?s3 root 0xffffffff80000000 0x100000 0x3000 3 0 = Inr s4"
    "card (avail ?s3) \<le> 3 * 3 + card (avail s4)"
    using map_range_total [OF r3(1), of "0x3000" 0] c0 c1 left by fastforce
  note ok4 = map_range_inv(1) [OF r3(1) s4(1)]
  obtain s5 where s5: "map_range s4 root 0xffff8000fd000000 0xfd000000 0x2000 3 0 = Inr s5"
    "card (avail s4) \<le> 3 * 2 + card (avail s5)"
    using map_range_total [OF ok4, of "0x2000" 0] s4(2) c0 c1 left by fastforce
  note ok5 = map_range_inv(1) [OF ok4 s5(1)]
  obtain s6 where s6: "map_range s5 root 0xffffa00000000000 st 65536 7 0 = Inr s6"
    "card (avail s5) \<le> 3 * 16 + card (avail s6)"
    using map_range_total [OF ok5, of 65536 0] s5(2) s4(2) c0 c1 left by fastforce
  note ok6 = map_range_inv(1) [OF ok5 s6(1)]
  obtain s7 where s7: "map_range s6 root 0xffff800000000000 0 0x100000000 3 0 = Inr s7"
    "card (avail s6) \<le> 3 * 2 ^ 20 + card (avail s7)"
    using map_range_total [OF ok6, of "0x100000000" 0] s6(2) s5(2) s4(2) c0 c1 left by fastforce
  note ok7 = map_range_inv(1) [OF ok6 s7(1)]
  obtain s8 where s8: "map_range s7 root 0xffffd00000000000 (kstack_phys c) 20480 3 0 = Inr s8"
    using map_range_total [OF ok7, of 20480 0] s7(2) s6(2) s5(2) s4(2) c0 c1 left by fastforce
  have n: "unat DEFAULT_THREAD_STACK_SIZE = 65536" "(16 * 1024 + 4096 :: u64) = 20480"
    by (simp_all add: DEFAULT_THREAD_STACK_SIZE_def)
  have fb: "find_framebuffer demo_fb = (0xfd000000, 0x2000)"
    by (simp add: demo_fb_def LIMINE_MEMMAP_FRAMEBUFFER_def)
  show ?thesis
    unfolding Thread_ctor_def Let_def rw_flags rwu_flags stack_constants n fb prod.case
    using a0 a1 s4(1) s5(1) s6(1) s7(1) s8 by (simp add: demo_boot_def)
qed

lemma big_run: "alloc_possible big_pm 65536"
proof -
  have "free_run (bitmap big_pm) (unat (lastI big_pm)) (page_limit big_pm) 65536"
    unfolding free_run_def big_limit pm_free_def [symmetric] big_free
    by (intro exI [of _ 8]) (auto simp: big_pm_def)
  then show ?thesis by (simp add: alloc_possible_def)
qed

lemma demo_thread_ctor:
  "\<exists>t s' c'. Thread_ctor demo_boot demo_fb big_pm c 0 0x400000 True = Inr (t, s', c')"
  by (rule thread_ctor_returns) (simp_all add: big_ok big_limit big_run big_avail)

lemma resumed_thread:
  assumes ok: "q_ok s cur ts" and mem: "t \<in> set ts" and th: "threads s t = Some th"
    and s': "s' = spin_unlock (moved (interrupted s cur regs) cur t)"
  shows "q_ok s' cur ts" "sched_mutex s' = 0" "qcurrent (queue (cpus s' cur)) = t"
    "deref s' t = Inr (if t = qcurrent (queue (cpus s cur)) then th\<lparr>ctxt := regs\<rparr> else th)"
    "qcurrent (queue (cpus s cur)) \<noteq> 0 \<Longrightarrow>
      map_option ctxt (threads s' (qcurrent (queue (cpus s cur)))) = Some regs"
proof -
  have tt: "threads s' u = threads (interrupted s cur regs) u" for u by (simp add: s' spin_unlock_def)
  show "q_ok s' cur ts"
    using moved_ok [OF interrupted_ok [OF ok] mem] by (simp add: s' spin_unlock_def q_ok_def)
  show "sched_mutex s' = 0" "qcurrent (queue (cpus s' cur)) = t" by (simp_all add: s' spin_unlock_def)
  have "t \<noteq> 0" using q_okD(3) [OF ok] mem by auto
  then show "deref s' t = Inr (if t = qcurrent (queue (cpus s cur)) then th\<lparr>ctxt := regs\<rparr> else th)"
    using th by (cases "t = qcurrent (queue (cpus s cur))") (simp_all add: deref_def tt interrupted_threads)
  assume nz: "qcurrent (queue (cpus s cur)) \<noteq> 0"
  then obtain j where "j < length ts" "qcurrent (queue (cpus s cur)) = ts ! j"
    using q_okD(9) [OF ok] by (auto simp: in_set_conv_nth)
  then show "map_option ctxt (threads s' (qcurrent (queue (cpus s cur)))) = Some regs"
    using q_okD(5) [OF ok] nz by (fastforce simp: tt interrupted_threads)
qed

text \<open>C17. A context switch saves and restores: with the lock free and a thread that can run,
  \<^verbatim>\<open>Schedule\<close> stores the interrupted registers in the current thread, continues with the saved
  registers and the page table of the next one in turn (with the registers just saved when it
  is the same thread), and leaves the lock free and the queue intact.\<close>

theorem schedule_switches:
  assumes "q_ok s cur ts" and "at_index s cur ts c" and "\<exists>t \<in> set ts. runnable s t"
    and "processor_id (cpus s cur) = cur" and "sched_mutex s = 0"
  shows "\<exists>k t th s'. 0 < k \<and> k \<le> length ts \<and> t = ts ! ((c + k) mod length ts) \<and> runnable s t \<and>
    threads s t = Some th \<and>
    Schedule cur s pml4 regs =
      Some (Inr (Some (if t = qcurrent (queue (cpus s cur)) then regs else ctxt th, rootTable th),
                 rootTable th, s')) \<and>
    sched_mutex s' = 0 \<and> q_ok s' cur ts \<and> qcurrent (queue (cpus s' cur)) = t \<and>
    (qcurrent (queue (cpus s cur)) \<noteq> 0 \<longrightarrow>
       map_option ctxt (threads s' (qcurrent (queue (cpus s cur)))) = Some regs)"
proof -
  let ?i = "interrupted s cur regs"
  have qi: "q_ok ?i cur ts" by (rule interrupted_ok [OF assms(1)])
  have ci: "at_index ?i cur ts c" "\<exists>t \<in> set ts. runnable ?i t" using assms(2,3) by simp_all
  obtain k where k: "0 < k" "k \<le> length ts" "runnable ?i (ts ! ((c + k) mod length ts))"
    "GetNextThread ?i cur = Some (Inr (ts ! ((c + k) mod length ts), moved ?i cur (ts ! ((c + k) mod length ts))))"
    by (rule GetNextThread_total [OF qi ci])
  define t where "t = ts ! ((c + k) mod length ts)"
  have lt: "(c + k) mod length ts < length ts" by (intro mod_less_divisor) (use k(1,2) in linarith)
  have mem: "t \<in> set ts" unfolding t_def by (rule nth_mem [OF lt])
  then have t0: "t \<noteq> 0" using q_okD(3) [OF assms(1)] by auto
  obtain th where th: "threads s t = Some th" using q_okD(5) [OF assms(1) lt] unfolding t_def by blast
  define s' where "s' = spin_unlock (moved ?i cur t)"
  note r = resumed_thread [OF assms(1) mem th s'_def]
  have "Schedule cur s pml4 regs =
      Some (Inr (Some (if t = qcurrent (queue (cpus s cur)) then regs else ctxt th, rootTable th),
                 rootTable th, s'))"
    using k(4) t0 r(4)
    by (simp add: Schedule_eq [OF assms(1,4,5)] t_def [symmetric] s'_def [symmetric] Let_def)
  then show ?thesis
    using k(1-3) th r(1-3,5) t_def by (intro exI [of _ k] exI [of _ t] exI [of _ th] exI [of _ s']) simp
qed

theorem schedule_switches_witness:
  "\<exists>root s'. Schedule 0 demo_sched 0 zero_regs = Some (Inr (Some root, snd root, s')) \<and> sched_mutex s' = 0"
proof -
  have "\<exists>t \<in> set [0x10, 0x20, 0x30]. runnable demo_sched t" using demo_runnable(1) by simp
  moreover have "processor_id (cpus demo_sched 0) = 0" "sched_mutex demo_sched = 0"
    by (simp_all add: demo_sched_def)
  ultimately have "\<exists>k t th s'. 0 < k \<and> k \<le> length [0x10, 0x20, 0x30 :: u64] \<and>
    t = [0x10, 0x20, 0x30] ! ((0 + k) mod length [0x10, 0x20, 0x30 :: u64]) \<and> runnable demo_sched t \<and>
    threads demo_sched t = Some th \<and>
    Schedule 0 demo_sched 0 zero_regs =
      Some (Inr (Some (if t = qcurrent (queue (cpus demo_sched 0)) then zero_regs else ctxt th, rootTable th),
                 rootTable th, s')) \<and>
    sched_mutex s' = 0 \<and> q_ok s' 0 [0x10, 0x20, 0x30] \<and> qcurrent (queue (cpus s' 0)) = t \<and>
    (qcurrent (queue (cpus demo_sched 0)) \<noteq> 0 \<longrightarrow>
       map_option ctxt (threads s' (qcurrent (queue (cpus demo_sched 0)))) = Some zero_regs)"
    by (rule schedule_switches [OF demo_q demo_at])
  then show ?thesis
    by (elim exE conjE) (rule exI [of _ "(_, _)"], unfold snd_conv, intro exI conjI; assumption)
qed

text \<open>C19. The lock excludes: whatever the interleaving of processors that use \<^verbatim>\<open>lock\<close> and \<^verbatim>\<open>unlock\<close>, at
  most one is in a guarded region. The version of \<^verbatim>\<open>AddThread\<close> that only unlocks breaks this: a
  run exists after which two processors are inside regions they entered through \<^verbatim>\<open>lock\<close>.\<close>

theorem lock_mutual_exclusion:
  "(\<forall>m p r. (lock_step False)\<^sup>*\<^sup>* boot_machine m \<longrightarrow> in_region m p \<longrightarrow> in_region m r \<longrightarrow> p = r) \<and>
   (\<exists>m p r. (lock_step True)\<^sup>*\<^sup>* boot_machine m \<and> p \<noteq> r \<and> at_cpu m p = Inside \<and> at_cpu m r = Inside)"
proof
  show "\<forall>m p r. (lock_step False)\<^sup>*\<^sup>* boot_machine m \<longrightarrow> in_region m p \<longrightarrow> in_region m r \<longrightarrow> p = r"
    using lock_inv_reachable lock_inv_excludes by blast
  obtain m where "(lock_step True)\<^sup>*\<^sup>* boot_machine m" "at_cpu m 0 = Inside" "at_cpu m 2 = Inside"
    using two_inside by blast
  then show "\<exists>m p r. (lock_step True)\<^sup>*\<^sup>* boot_machine m \<and> p \<noteq> r \<and> at_cpu m p = Inside \<and> at_cpu m r = Inside"
    by (intro exI [of _ m] exI [of _ 0] exI [of _ 2]) simp
qed

theorem lock_mutual_exclusion_witness:
  "\<exists>m p r. (lock_step False)\<^sup>*\<^sup>* boot_machine m \<and> in_region m p \<and> in_region m r \<and> p = r"
proof -
  let ?m1 = "\<lparr>lock_value = 0, at_cpu = (\<lambda>_. Outside)(0 := Spinning)\<rparr>"
  let ?m2 = "\<lparr>lock_value = 1, at_cpu = (\<lambda>_. Outside)(0 := Inside)\<rparr>"
  have 1: "lock_step False boot_machine ?m1"
    using lock_step.call [of boot_machine 0 False] by (simp add: boot_machine_def)
  have 2: "lock_step False ?m1 ?m2"
    using lock_step.acquire [of ?m1 0 1 False] by (simp add: compare_exchange_def)
  have run: "(lock_step False)\<^sup>*\<^sup>* boot_machine ?m2"
    using 1 2 by (meson converse_rtranclp_into_rtranclp rtranclp.rtrancl_refl)
  have at: "in_region ?m2 0" by (simp add: in_region_def)
  from run at have "(0 :: nat) = 0"
    using conjunct1 [OF lock_mutual_exclusion] by blast
  then show ?thesis using run at by blast
qed

text \<open>A new thread's address space: on success its root table is a well-formed tree of its own, the
  16 pages of its stack are mapped for the user outside the direct map's and the kernel
  stack's ranges, and the kernel stack range has five pages although the processor's stack was
  allocated with four. The stack's allocation takes 65536 pages, since the code passes its size in
  bytes where the allocator counts pages.\<close>

theorem thread_address_space:
  assumes "pm_ok s" and "page_limit s \<le> 2 ^ 40"
    and "Thread_ctor b mmap s cpu g entry usr = Inr (t, s', cpu')"
  shows "\<exists>st. {page_of st..<page_of st + 65536} \<subseteq> pm_free s \<and>
    pm_free s' \<inter> {page_of st..<page_of st + 65536} = {} \<and> vm_ok s' (rootTable t) \<and>
    ctxt t = initial_context entry usr \<and> canRun t \<and> next_thread t = 0 \<and>
    (\<forall>k < 16. let va = 0xffffa00000000000 + of_nat (4096 * k) in
       \<not> in_range (hhdm_offset b) (2 ^ 32) va \<longrightarrow> \<not> in_range 0xffffd00000000000 20480 va \<longrightarrow>
       maps_to s' (rootTable t) 0xffffa00000000000 k st 7) \<and>
    (\<forall>k < 5. maps_to s' (rootTable t) 0xffffd00000000000 k (kstack_phys cpu) 3)"
proof -
  obtain phyAddr len where fb: "find_framebuffer mmap = (phyAddr, len)" by fastforce
  obtain st s0 root s2 s4 s5 s6 s7 where
    a0: "PhysicalMemory_alloc s 65536 = Inr (st, s0)" and
    a1: "PhysicalMemory_alloc (s0\<lparr>ram := memset (ram s0) st 0 65536\<rparr>) 1 = Inr (root, s2)" and
    m4: "map_range (s2\<lparr>ram := memset (ram s2) root 0 4096\<rparr>) root (virtual_base b) (physical_base b) (kernel_size b) 3 0 = Inr s4" and
    m5: "map_range s4 root (fb_address b) phyAddr len 3 0 = Inr s5" and
    m6: "map_range s5 root 0xffffa00000000000 st 65536 7 0 = Inr s6" and
    m7: "map_range s6 root (hhdm_offset b) 0 0x100000000 3 0 = Inr s7" and
    m8: "map_range s7 root 0xffffd00000000000 (kstack_phys cpu) 20480 3 0 = Inr s'" and
    t: "t = \<lparr>ctxt = initial_context entry usr, rootTable = root, pid = g, canRun = True, next_thread = 0\<rparr>"
    by (rule Thread_ctor_split [OF assms(3) fb])
  note blk = pm.alloc_block(3,4) [OF assms(1) a0]
  have ok1: "pm_ok (s0\<lparr>ram := memset (ram s0) st 0 65536\<rparr>)" "page_limit (s0\<lparr>ram := memset (ram s0) st 0 65536\<rparr>) \<le> 2 ^ 40"
    using pm_alloc_ok [OF assms(1) a0] assms(2) by simp_all
  note r3 = cleared_root [OF ok1 a1]
  note r4 = map_range_inv [OF r3(1) m4]
  note r5 = map_range_inv [OF r4(1) m5]
  note r6 = map_range_inv [OF r5(1) m6]
  note r7 = map_range_inv [OF r6(1) m7]
  note r8 = map_range_inv [OF r7(1) m8]
  have "pm_free s2 \<subseteq> pm_free s0" using pm.alloc_one(2) [OF ok1(1) a1] by auto
  then have free: "pm_free s' \<subseteq> pm_free s0"
    using r4(2) r5(2) r6(2) r7(2) r8(2) by auto
  have stack: "maps_to s' root 0xffffa00000000000 k st 7"
    if "k < 16" "\<not> in_range (hhdm_offset b) (2 ^ 32) (0xffffa00000000000 + of_nat (4096 * k))"
      "\<not> in_range 0xffffd00000000000 20480 (0xffffa00000000000 + of_nat (4096 * k))" for k
    using that r6(4) [of k] r7(3) r8(3) by (simp add: maps_to_def)
  have kst: "maps_to s' root 0xffffd00000000000 k (kstack_phys cpu) 3" if "k < 5" for k
    using that r8(4) [of k] by (simp add: maps_to_def)
  show ?thesis
    using blk free r8(1) stack kst by (intro exI [of _ st]) (auto simp: t Let_def)
qed

theorem thread_address_space_witness:
  "\<exists>t s' c'. Thread_ctor demo_boot demo_fb big_pm (cpus demo_sched 0) 0 0x400000 True = Inr (t, s', c') \<and>
    vm_ok s' (rootTable t) \<and> maps_to s' (rootTable t) 0xffffd00000000000 4 0 3"
proof -
  obtain t s' c' where c: "Thread_ctor demo_boot demo_fb big_pm (cpus demo_sched 0) 0 0x400000 True = Inr (t, s', c')"
    using demo_thread_ctor by blast
  have "page_limit big_pm \<le> 2 ^ 40" by (simp add: big_limit)
  from thread_address_space [OF big_ok this c] have "vm_ok s' (rootTable t) \<and>
      maps_to s' (rootTable t) 0xffffd00000000000 4 (kstack_phys (cpus demo_sched 0)) 3"
    by auto
  then show ?thesis using c by (auto simp: demo_sched_def)
qed

end
