(* ===== verification/Liballoc.thy ===== *)
theory Liballoc
  imports Pmm
begin

text \<open>
  The kernel heap, \<^verbatim>\<open>src/src/mm/liballoc.cpp\<close> with the hooks of \<^verbatim>\<open>src/src/include/mm/liballoc.h\<close>. The
  boundary tags live in a typed store from addresses to tags, beside the bytes of the blocks
  in the page allocator's \<open>ram\<close>; the store keeps what the memory keeps, so a tag that was merged
  into its neighbour still has its fields. Addresses are those of the direct map, \<open>hhdm\<close> above the
  physical ones. Following a pointer that has no tag is \<open>OutOfBounds\<close>.
\<close>

section \<open>State\<close>

record boundary_tag =
  magic :: u32
  sz :: u32
  real_size :: u32
  index :: int
  split_left :: u64
  split_right :: u64
  next_tag :: u64
  prev_tag :: u64

record heap =
  h_phys :: phys
  hhdm :: u64
  tags :: "u64 \<Rightarrow> boundary_tag option"
  l_freePages :: "u64 list"
  l_completePages :: "int list"
  l_initialized :: bool

definition LIBALLOC_MAGIC :: u32 where "LIBALLOC_MAGIC = 0xc001c0de"
definition MAXCOMPLETE :: int where "MAXCOMPLETE = 5"
definition MAXEXP :: nat where "MAXEXP = 32"
definition MINEXP :: nat where "MINEXP = 8"
definition MODE :: int where "MODE = 0"
definition l_pageSize :: u32 where "l_pageSize = 4096"
definition l_pageCount :: u32 where "l_pageCount = 16"

text \<open>\<^verbatim>\<open>sizeof(struct boundary_tag)\<close>: four 32-bit fields and four pointers.\<close>

definition tag_size :: u64 where "tag_size = 48"

lemmas heap_constants = LIBALLOC_MAGIC_def MAXCOMPLETE_def MAXEXP_def MINEXP_def MODE_def
  l_pageSize_def l_pageCount_def tag_size_def

section \<open>Access to tags and bins\<close>

definition tag_at :: "heap \<Rightarrow> u64 \<Rightarrow> boundary_tag result" where
  "tag_at h p =
     (if p = 0 then Inl NullPointer
      else case tags h p of None \<Rightarrow> Inl OutOfBounds | Some t \<Rightarrow> Inr t)"

definition set_tag :: "heap \<Rightarrow> u64 \<Rightarrow> boundary_tag \<Rightarrow> heap" where
  "set_tag h p t = h\<lparr>tags := (tags h)(p \<mapsto> t)\<rparr>"

text \<open>Changing a field through a pointer.\<close>

definition upd_tag :: "heap \<Rightarrow> u64 \<Rightarrow> (boundary_tag \<Rightarrow> boundary_tag) \<Rightarrow> heap result" where
  "upd_tag h p f = bindE (tag_at h p) (\<lambda>t. Inr (set_tag h p (f t)))"

definition bin_at :: "heap \<Rightarrow> int \<Rightarrow> u64 result" where
  "bin_at h i = (if 0 \<le> i \<and> i < int MAXEXP then Inr (l_freePages h ! nat i) else Inl OutOfBounds)"

definition set_bin :: "heap \<Rightarrow> int \<Rightarrow> u64 \<Rightarrow> heap result" where
  "set_bin h i p =
     (if 0 \<le> i \<and> i < int MAXEXP then Inr (h\<lparr>l_freePages := (l_freePages h)[nat i := p]\<rparr>)
      else Inl OutOfBounds)"

definition complete_at :: "heap \<Rightarrow> int \<Rightarrow> int result" where
  "complete_at h i = (if 0 \<le> i \<and> i < int MAXEXP then Inr (l_completePages h ! nat i) else Inl OutOfBounds)"

definition set_complete :: "heap \<Rightarrow> int \<Rightarrow> int \<Rightarrow> heap result" where
  "set_complete h i n =
     (if 0 \<le> i \<and> i < int MAXEXP then Inr (h\<lparr>l_completePages := (l_completePages h)[nat i := n]\<rparr>)
      else Inl OutOfBounds)"

section \<open>Exponents\<close>

function getexp_loop :: "u32 \<Rightarrow> nat \<Rightarrow> nat" where
  "getexp_loop bytes shift =
     (if shift < MAXEXP then (if push_bit shift 1 > bytes then shift else getexp_loop bytes (shift + 1))
      else shift)"
  by pat_completeness auto
termination by (relation "measure (\<lambda>(bytes, shift). MAXEXP - shift)") auto

declare getexp_loop.simps [simp del]

definition getexp :: "u32 \<Rightarrow> int" where
  "getexp bytes =
     (if bytes < push_bit MINEXP 1 then - 1 else int (getexp_loop bytes MINEXP) - 1)"

section \<open>Free lists\<close>

definition insert_tag :: "heap \<Rightarrow> u64 \<Rightarrow> int \<Rightarrow> heap result" where
  "insert_tag h tag i =
     bindE (tag_at h tag) (\<lambda>t.
     let e = getexp (ucast (ucast (real_size t) - tag_size :: u64));
         realIndex = (if i < 0 then (if e < int MINEXP then int MINEXP else e) else i)
     in bindE (upd_tag h tag (\<lambda>t. t\<lparr>index := realIndex\<rparr>)) (\<lambda>h1.
        bindE (bin_at h1 realIndex) (\<lambda>first.
        bindE (if first \<noteq> 0
               then bindE (upd_tag h1 first (\<lambda>f. f\<lparr>prev_tag := tag\<rparr>)) (\<lambda>h2.
                    upd_tag h2 tag (\<lambda>t. t\<lparr>next_tag := first\<rparr>))
               else Inr h1) (\<lambda>h3.
        set_bin h3 realIndex tag))))"

definition remove_tag :: "heap \<Rightarrow> u64 \<Rightarrow> heap result" where
  "remove_tag h tag =
     bindE (tag_at h tag) (\<lambda>t.
     bindE (bin_at h (index t)) (\<lambda>first.
     bindE (if first = tag then set_bin h (index t) (next_tag t) else Inr h) (\<lambda>h1.
     bindE (if prev_tag t \<noteq> 0 then upd_tag h1 (prev_tag t) (\<lambda>p. p\<lparr>next_tag := next_tag t\<rparr>)
            else Inr h1) (\<lambda>h2.
     bindE (tag_at h2 tag) (\<lambda>t2.
     bindE (if next_tag t2 \<noteq> 0 then upd_tag h2 (next_tag t2) (\<lambda>n. n\<lparr>prev_tag := prev_tag t2\<rparr>)
            else Inr h2) (\<lambda>h3.
     upd_tag h3 tag (\<lambda>t. t\<lparr>next_tag := 0, prev_tag := 0, index := - 1\<rparr>)))))))"

section \<open>Splitting and melting\<close>

definition melt_left :: "heap \<Rightarrow> u64 \<Rightarrow> (u64 \<times> heap) result" where
  "melt_left h tag =
     bindE (tag_at h tag) (\<lambda>t.
     let left = split_left t
     in bindE (upd_tag h left (\<lambda>l. l\<lparr>real_size := real_size l + real_size t,
                                     split_right := split_right t\<rparr>)) (\<lambda>h1.
        bindE (if split_right t \<noteq> 0
               then upd_tag h1 (split_right t) (\<lambda>r. r\<lparr>split_left := left\<rparr>) else Inr h1) (\<lambda>h2.
        Inr (left, h2))))"

definition absorb_right :: "heap \<Rightarrow> u64 \<Rightarrow> (u64 \<times> heap) result" where
  "absorb_right h tag =
     bindE (tag_at h tag) (\<lambda>t.
     let right = split_right t
     in bindE (remove_tag h right) (\<lambda>h1.
        bindE (tag_at h1 right) (\<lambda>r.
        bindE (upd_tag h1 tag (\<lambda>t. t\<lparr>real_size := real_size t + real_size r,
                                     split_right := split_right r\<rparr>)) (\<lambda>h2.
        bindE (if split_right r \<noteq> 0
               then upd_tag h2 (split_right r) (\<lambda>rr. rr\<lparr>split_left := tag\<rparr>) else Inr h2) (\<lambda>h3.
        Inr (tag, h3))))))"

definition split_tag :: "heap \<Rightarrow> u64 \<Rightarrow> (u64 \<times> heap) result" where
  "split_tag h tag =
     bindE (tag_at h tag) (\<lambda>t.
     let remainder = ucast (ucast (real_size t) - tag_size - ucast (sz t) :: u64) :: u32;
         new_tag = tag + tag_size + ucast (sz t);
         n = \<lparr>magic = LIBALLOC_MAGIC,
              sz = (case tags h new_tag of None \<Rightarrow> 0 | Some old \<Rightarrow> sz old),
              real_size = remainder,
              index = (case tags h new_tag of None \<Rightarrow> 0 | Some old \<Rightarrow> index old),
              split_left = tag, split_right = split_right t, next_tag = 0, prev_tag = 0\<rparr>
     in bindE (if split_right t \<noteq> 0
               then upd_tag (set_tag h new_tag n) (split_right t) (\<lambda>r. r\<lparr>split_left := new_tag\<rparr>)
               else Inr (set_tag h new_tag n)) (\<lambda>h1.
        bindE (upd_tag h1 tag (\<lambda>t. t\<lparr>split_right := new_tag, real_size := real_size t - remainder\<rparr>))
          (\<lambda>h2. bindE (insert_tag h2 new_tag (- 1)) (\<lambda>h3. Inr (new_tag, h3)))))"

section \<open>Pages\<close>

definition liballoc_alloc :: "heap \<Rightarrow> u32 \<Rightarrow> (u64 \<times> heap) result" where
  "liballoc_alloc h pages =
     bindE (PhysicalMemory_alloc (h_phys h) (scast pages)) (\<lambda>(a, p).
     Inr (a + hhdm h, h\<lparr>h_phys := p\<rparr>))"

definition liballoc_free :: "heap \<Rightarrow> u64 \<Rightarrow> u32 \<Rightarrow> heap result" where
  "liballoc_free h ptr pages =
     bindE (PhysicalMemory_free (h_phys h) (ptr - hhdm h) (scast pages)) (\<lambda>p.
     Inr (h\<lparr>h_phys := p\<rparr>))"

definition needed_pages :: "u32 \<Rightarrow> u32" where
  "needed_pages usage =
     (let pages = usage div l_pageSize;
          pages = (if usage mod l_pageSize \<noteq> 0 then pages + 1 else pages)
      in if pages < l_pageCount then l_pageCount else pages)"

definition allocate_new_tag :: "heap \<Rightarrow> u32 \<Rightarrow> (u64 \<times> heap) result" where
  "allocate_new_tag h bytes =
     (let pages = needed_pages (ucast (ucast bytes + tag_size :: u64))
      in bindE (liballoc_alloc h pages) (\<lambda>(tag, h1).
         if tag = 0 then Inr (0, h1)
         else Inr (tag, set_tag h1 tag
                \<lparr>magic = LIBALLOC_MAGIC, sz = bytes, real_size = pages * l_pageSize, index = - 1,
                 split_left = 0, split_right = 0, next_tag = 0, prev_tag = 0\<rparr>)))"

section \<open>malloc\<close>

text \<open>The scan of one free list; \<open>None\<close> is a list that never ends.\<close>

partial_function (option) find_tag :: "heap \<Rightarrow> u64 \<Rightarrow> u64 \<Rightarrow> u64 result option" where
  "find_tag h bytes tag =
     (if tag = 0 then Some (Inr 0)
      else (case tag_at h tag of Inl e \<Rightarrow> Some (Inl e)
           | Inr t \<Rightarrow>
               if ucast (real_size t) - tag_size \<ge> bytes + tag_size then Some (Inr tag)
               else find_tag h bytes (next_tag t)))"

text \<open>A computation that may never return, as a result.\<close>

definition returned :: "'a result option \<Rightarrow> 'a result" where
  "returned r = (case r of None \<Rightarrow> Inl Diverges | Some x \<Rightarrow> x)"

definition heap_init :: "heap \<Rightarrow> heap" where
  "heap_init h =
     (if l_initialized h then h
      else h\<lparr>l_freePages := replicate MAXEXP 0, l_completePages := replicate MAXEXP 0,
             l_initialized := True\<rparr>)"

text \<open>The second half: set the size, and split off what is left when it is worth it.\<close>

definition finish_malloc :: "heap \<Rightarrow> u64 \<Rightarrow> u64 \<Rightarrow> (u64 \<times> heap) result" where
  "finish_malloc h bytes tag =
     bindE (upd_tag h tag (\<lambda>t. t\<lparr>sz := ucast bytes\<rparr>)) (\<lambda>h1.
     bindE (tag_at h1 tag) (\<lambda>t.
     let remainder = ucast (ucast (real_size t) - bytes - tag_size * 2) :: u32
     in bindE (if sint remainder > 0 \<and> getexp remainder \<ge> 0
               then bindE (split_tag h1 tag) (\<lambda>(_, h2). Inr h2) else Inr h1)
          (\<lambda>h3. Inr (tag + tag_size, h3))))"

definition malloc :: "heap \<Rightarrow> u64 \<Rightarrow> (u64 \<times> heap) result" where
  "malloc h0 bytes =
     (let h = heap_init h0;
          e = getexp (ucast bytes) + MODE;
          i = (if e < int MINEXP then int MINEXP else e)
      in bindE (bin_at h i) (\<lambda>first.
         bindE (returned (find_tag h bytes first)) (\<lambda>found.
         if found = 0
         then bindE (allocate_new_tag h (ucast bytes)) (\<lambda>(tag, h1).
              if tag = 0 then Inr (0, h1) else finish_malloc h1 bytes tag)
         else bindE (remove_tag h found) (\<lambda>h1.
              bindE (tag_at h1 found) (\<lambda>t.
              bindE (if split_left t = 0 \<and> split_right t = 0
                     then bindE (complete_at h1 i) (\<lambda>c. set_complete h1 i (c - 1)) else Inr h1)
                (\<lambda>h2. finish_malloc h2 bytes found))))))"

section \<open>free\<close>

partial_function (option) melt_left_loop :: "heap \<Rightarrow> u64 \<Rightarrow> (u64 \<times> heap) result option" where
  "melt_left_loop h tag =
     (case bindE (tag_at h tag) (\<lambda>t.
             if split_left t = 0 then Inr None
             else bindE (tag_at h (split_left t)) (\<lambda>l.
                  if index l < 0 then Inr None
                  else bindE (melt_left h tag) (\<lambda>(left, h1).
                       bindE (remove_tag h1 left) (\<lambda>h2. Inr (Some (left, h2))))))
      of Inl e \<Rightarrow> Some (Inl e)
      | Inr None \<Rightarrow> Some (Inr (tag, h))
      | Inr (Some r) \<Rightarrow> melt_left_loop (snd r) (fst r))"

partial_function (option) absorb_right_loop :: "heap \<Rightarrow> u64 \<Rightarrow> (u64 \<times> heap) result option" where
  "absorb_right_loop h tag =
     (case bindE (tag_at h tag) (\<lambda>t.
             if split_right t = 0 then Inr None
             else bindE (tag_at h (split_right t)) (\<lambda>r.
                  if index r < 0 then Inr None
                  else bindE (absorb_right h tag) (\<lambda>r. Inr (Some r))))
      of Inl e \<Rightarrow> Some (Inl e)
      | Inr None \<Rightarrow> Some (Inr (tag, h))
      | Inr (Some r) \<Rightarrow> absorb_right_loop (snd r) (fst r))"

definition heap_free :: "heap \<Rightarrow> u64 \<Rightarrow> heap result" where
  "heap_free h ptr =
     (if ptr = 0 then Inr h
      else bindE (tag_at h (ptr - tag_size)) (\<lambda>t0.
      if magic t0 \<noteq> LIBALLOC_MAGIC then Inr h
      else bindE (returned (melt_left_loop h (ptr - tag_size))) (\<lambda>(tag1, h1).
      bindE (returned (absorb_right_loop h1 tag1)) (\<lambda>(tag, h2).
      bindE (tag_at h2 tag) (\<lambda>t.
      let e = getexp (ucast (ucast (real_size t) - tag_size :: u64));
          i = (if e < int MINEXP then int MINEXP else e)
      in if split_left t = 0 \<and> split_right t = 0
         then bindE (complete_at h2 i) (\<lambda>c.
              if c = MAXCOMPLETE
              then liballoc_free h2 tag (needed_pages (real_size t))
              else bindE (set_complete h2 i (c + 1)) (\<lambda>h3. insert_tag h3 tag i))
         else insert_tag h2 tag i)))))"

section \<open>calloc and realloc\<close>

text \<open>
  \<^verbatim>\<open>liballoc_memset\<close> counts with an \<^verbatim>\<open>int\<close> up to a \<^verbatim>\<open>size_t\<close>: from \<open>2^31\<close> on it runs out of its object.
\<close>

definition liballoc_memset :: "heap \<Rightarrow> u64 \<Rightarrow> u8 \<Rightarrow> u64 \<Rightarrow> heap result" where
  "liballoc_memset h s c n =
     (if n = 0 then Inr h
      else if s = 0 then Inl NullPointer
      else if n \<le> 0x7fffffff
      then Inr (h\<lparr>h_phys := (h_phys h)\<lparr>ram := memset (ram (h_phys h)) (s - hhdm h) c (unat n)\<rparr>\<rparr>)
      else Inl OutOfBounds)"

text \<open>\<^verbatim>\<open>liballoc_memcpy\<close>: words of four bytes first, then the rest byte by byte.\<close>

fun copy_words :: "mem \<Rightarrow> u64 \<Rightarrow> u64 \<Rightarrow> nat \<Rightarrow> mem" where
  "copy_words m d s 0 = m"
| "copy_words m d s (Suc n) =
     copy_words (m(d := m s, d + 1 := m (s + 1), d + 2 := m (s + 2), d + 3 := m (s + 3))) (d + 4) (s + 4) n"

definition liballoc_memcpy :: "heap \<Rightarrow> u64 \<Rightarrow> u64 \<Rightarrow> u64 \<Rightarrow> heap result" where
  "liballoc_memcpy h s1 s2 n =
     (if n = 0 then Inr h
      else if s1 = 0 \<or> s2 = 0 then Inl NullPointer
      else let d = s1 - hhdm h; s = s2 - hhdm h; w = unat n div 4; r = unat n mod 4;
               m = copy_words (ram (h_phys h)) d s w
           in Inr (h\<lparr>h_phys := (h_phys h)\<lparr>ram := memcpy m (d + of_nat (4 * w)) (s + of_nat (4 * w)) r\<rparr>\<rparr>))"

definition calloc :: "heap \<Rightarrow> u64 \<Rightarrow> u64 \<Rightarrow> (u64 \<times> heap) result" where
  "calloc h nobj bytes =
     (let n = scast (ucast (nobj * bytes) :: u32) :: u64
      in bindE (malloc h n) (\<lambda>(p, h1).
         bindE (liballoc_memset h1 p 0 n) (\<lambda>h2. Inr (p, h2))))"

definition realloc :: "heap \<Rightarrow> u64 \<Rightarrow> u64 \<Rightarrow> (u64 \<times> heap) result" where
  "realloc h p bytes =
     (if bytes = 0 then bindE (heap_free h p) (\<lambda>h1. Inr (0, h1))
      else if p = 0 then malloc h bytes
      else bindE (tag_at h (p - tag_size)) (\<lambda>t.
           let old = scast (sz t) :: u64;
               n = (if old > bytes then bytes else old)
           in bindE (malloc h bytes) (\<lambda>(ptr, h1).
              bindE (liballoc_memcpy h1 ptr p n) (\<lambda>h2.
              bindE (heap_free h2 p) (\<lambda>h3. Inr (ptr, h3))))))"

section \<open>Hooks and operators\<close>

text \<open>The lock hooks do nothing and answer success.\<close>

definition liballoc_lock :: int where "liballoc_lock = 0"
definition liballoc_unlock :: int where "liballoc_unlock = 0"

definition operator_new :: "heap \<Rightarrow> u64 \<Rightarrow> (u64 \<times> heap) result" where
  "operator_new h bytes = malloc h bytes"

definition operator_new_array :: "heap \<Rightarrow> u64 \<Rightarrow> (u64 \<times> heap) result" where
  "operator_new_array h bytes = malloc h bytes"

definition operator_delete :: "heap \<Rightarrow> u64 \<Rightarrow> heap result" where
  "operator_delete h ptr = heap_free h ptr"

definition operator_delete_sized :: "heap \<Rightarrow> u64 \<Rightarrow> u64 \<Rightarrow> heap result" where
  "operator_delete_sized h ptr bytes = heap_free h ptr"

section \<open>The exponent of a size\<close>

lemma unat_exp32: "k < 32 \<Longrightarrow> unat (push_bit k 1 :: u32) = 2 ^ k"
proof -
  assume k: "k < 32"
  have "push_bit k 1 = (of_nat (2 ^ k) :: u32)" by simp
  moreover have "(2 :: nat) ^ k < 2 ^ 32" by (rule power_strict_increasing [OF k]) simp
  ultimately show ?thesis by (simp only: unat_of_nat) simp
qed

lemma getexp_loop_spec:
  assumes "shift \<le> 32" "0 < shift" "2 ^ (shift - 1) \<le> unat n"
  shows "shift \<le> getexp_loop n shift \<and> getexp_loop n shift \<le> 32 \<and>
    2 ^ (getexp_loop n shift - 1) \<le> unat n \<and> unat n < 2 ^ getexp_loop n shift"
  using assms
proof (induction n shift rule: getexp_loop.induct)
  case (1 n shift)
  show ?case
  proof (cases "shift < 32")
    case False
    then show ?thesis
      using 1(2,4) unat_less_u32 [of n] by (simp add: getexp_loop.simps MAXEXP_def)
  next
    case True
    show ?thesis
    proof (cases "push_bit shift 1 > n")
      case gt: True
      then have "unat n < 2 ^ shift" using unat_exp32 [OF True] by (simp add: word_less_nat_alt)
      then show ?thesis using True gt 1(2,4) by (simp add: getexp_loop.simps MAXEXP_def)
    next
      case le: False
      then have "2 ^ shift \<le> unat n" using unat_exp32 [OF True] by (simp add: word_less_nat_alt not_less)
      then show ?thesis
        using 1(1) True le by (simp add: getexp_loop.simps [of n shift] MAXEXP_def)
    qed
  qed
qed

lemma getexp_small: "unat n < 256 \<Longrightarrow> getexp n = - 1"
  using unat_exp32 [of 8] by (simp add: getexp_def MINEXP_def word_less_nat_alt)

lemma getexp_large:
  assumes "256 \<le> unat n"
  shows "\<exists>e. getexp n = int e \<and> 8 \<le> e \<and> e \<le> 31 \<and> 2 ^ e \<le> unat n \<and> unat n < 2 ^ Suc e"
proof -
  have l: "getexp_loop n 8 = getexp_loop n 9"
    using unat_exp32 [of 8] assms
    by (subst getexp_loop.simps) (simp add: MAXEXP_def word_less_nat_alt not_less)
  have s: "9 \<le> getexp_loop n 9" "getexp_loop n 9 \<le> 32" "2 ^ (getexp_loop n 9 - 1) \<le> unat n"
    "unat n < 2 ^ getexp_loop n 9"
    using getexp_loop_spec [of 9 n] assms by simp_all
  obtain e where e: "getexp_loop n 9 = Suc e" "8 \<le> e" using s(1) by (cases "getexp_loop n 9") auto
  have "getexp n = int e"
    using unat_exp32 [of 8] assms l e by (simp add: getexp_def MINEXP_def word_less_nat_alt)
  then show ?thesis using s e by auto
qed

lemma getexp_range: "- 1 \<le> getexp n \<and> getexp n < 32"
  using getexp_small [of n] getexp_large [of n] by (cases "unat n < 256") auto

text \<open>The bin a tag with \<open>n\<close> bytes of room goes to.\<close>

definition bin_of :: "u32 \<Rightarrow> int" where
  "bin_of n = (if getexp n < 8 then 8 else getexp n)"

lemma bin_of_range: "8 \<le> bin_of n" "0 \<le> bin_of n" "bin_of n < 32"
  using getexp_range [of n] by (simp_all add: bin_of_def)

section \<open>Tags that are alone or alone in their bin\<close>

lemma tag_at_set [simp]:
  "p \<noteq> 0 \<Longrightarrow> tag_at (set_tag h p t) p = Inr t"
  "q \<noteq> p \<Longrightarrow> tag_at (set_tag h p t) q = tag_at h q"
  by (simp_all add: tag_at_def set_tag_def)

lemma set_tag_twice [simp]: "set_tag (set_tag h p t) p u = set_tag h p u"
  by (simp add: set_tag_def)

lemma upd_tag_set [simp]:
  "p \<noteq> 0 \<Longrightarrow> upd_tag (set_tag h p t) p f = Inr (set_tag h p (f t))"
  by (simp add: upd_tag_def)

lemma bins_set_tag [simp]:
  "bin_at (set_tag h p t) i = bin_at h i" "complete_at (set_tag h p t) i = complete_at h i"
  "l_freePages (set_tag h p t) = l_freePages h" "l_completePages (set_tag h p t) = l_completePages h"
  "h_phys (set_tag h p t) = h_phys h" "hhdm (set_tag h p t) = hhdm h"
  "l_initialized (set_tag h p t) = l_initialized h"
  by (simp_all add: set_tag_def bin_at_def complete_at_def)

lemma set_bin_ok: "0 \<le> i \<Longrightarrow> i < 32 \<Longrightarrow> set_bin h i p = Inr (h\<lparr>l_freePages := (l_freePages h)[nat i := p]\<rparr>)"
  by (simp add: set_bin_def MAXEXP_def)

lemma bin_at_ok: "0 \<le> i \<Longrightarrow> i < 32 \<Longrightarrow> bin_at h i = Inr (l_freePages h ! nat i)"
  by (simp add: bin_at_def MAXEXP_def)

lemma tag_bins_commute [simp]:
  "tag_at (h\<lparr>l_freePages := b\<rparr>) p = tag_at h p" "tag_at (h\<lparr>l_completePages := c\<rparr>) p = tag_at h p"
  "set_tag (h\<lparr>l_freePages := b\<rparr>) p t = (set_tag h p t)\<lparr>l_freePages := b\<rparr>"
  "set_tag (h\<lparr>l_completePages := c\<rparr>) p t = (set_tag h p t)\<lparr>l_completePages := c\<rparr>"
  by (simp_all add: tag_at_def set_tag_def)

text \<open>Putting a tag into an empty bin, and taking the only tag out of its bin.\<close>

lemma insert_tag_empty:
  assumes "tag_at h p = Inr t" "p \<noteq> 0"
    and "b = (if i < 0 then bin_of (ucast (ucast (real_size t) - tag_size :: u64)) else i)"
    and "0 \<le> b" "b < 32" "l_freePages h ! nat b = 0"
  shows "insert_tag h p i =
    Inr ((set_tag h p (t\<lparr>index := b\<rparr>))\<lparr>l_freePages := (l_freePages h)[nat b := p]\<rparr>)"
proof -
  have e: "(if i < 0 then (if getexp (ucast (ucast (real_size t) - tag_size :: u64)) < int MINEXP
      then int MINEXP else getexp (ucast (ucast (real_size t) - tag_size :: u64))) else i) = b"
    using assms(3) by (simp add: bin_of_def MINEXP_def)
  show ?thesis
    unfolding insert_tag_def assms(1) bindE_simps Let_def e
    using assms by (simp add: upd_tag_def bin_at_ok set_bin_ok)
qed

lemma remove_tag_only:
  assumes "tag_at h p = Inr t" "p \<noteq> 0" "index t = b" "0 \<le> b" "b < 32" "l_freePages h ! nat b = p"
    and "next_tag t = 0" "prev_tag t = 0"
  shows "remove_tag h p =
    Inr ((set_tag h p (t\<lparr>index := - 1\<rparr>))\<lparr>l_freePages := (l_freePages h)[nat b := 0]\<rparr>)"
proof -
  have "remove_tag h p = Inr ((set_tag h p (t\<lparr>next_tag := 0, prev_tag := 0, index := - 1\<rparr>))
      \<lparr>l_freePages := (l_freePages h)[nat b := 0]\<rparr>)"
    using assms by (simp add: remove_tag_def bin_at_ok set_bin_ok upd_tag_def)
  moreover have "t\<lparr>next_tag := 0, prev_tag := 0, index := - 1\<rparr> = t\<lparr>index := - 1\<rparr>"
    using assms(7,8) by (cases t) simp
  ultimately show ?thesis by (simp only:)
qed

text \<open>Splitting the only tag of its pages, and merging the two again.\<close>

lemma split_single:
  assumes t: "tag_at h p = Inr t" "p \<noteq> 0" "split_right t = 0"
    and n: "q = p + tag_size + ucast (sz t)" "q \<noteq> 0" "q \<noteq> p"
    and r: "rem = ucast (ucast (real_size t) - tag_size - ucast (sz t) :: u64)"
    and b: "b = bin_of (ucast (ucast rem - tag_size :: u64))" "l_freePages h ! nat b = 0"
  shows "\<exists>nt. split_tag h p = Inr (q, (set_tag (set_tag h p (t\<lparr>split_right := q, real_size := real_size t - rem\<rparr>)) q nt)
        \<lparr>l_freePages := (l_freePages h)[nat b := q]\<rparr>) \<and>
      magic nt = LIBALLOC_MAGIC \<and> real_size nt = rem \<and> index nt = b \<and>
      split_left nt = p \<and> split_right nt = 0 \<and> next_tag nt = 0 \<and> prev_tag nt = 0"
proof -
  define n0 where "n0 = \<lparr>magic = LIBALLOC_MAGIC, sz = (case tags h q of None \<Rightarrow> 0 | Some old \<Rightarrow> sz old),
      real_size = rem, index = (case tags h q of None \<Rightarrow> 0 | Some old \<Rightarrow> index old),
      split_left = p, split_right = 0, next_tag = 0, prev_tag = 0\<rparr>"
  let ?h2 = "set_tag (set_tag h q n0) p (t\<lparr>split_right := q, real_size := real_size t - rem\<rparr>)"
  have u: "upd_tag (set_tag h q n0) p (\<lambda>t. t\<lparr>split_right := q, real_size := real_size t - rem\<rparr>) = Inr ?h2"
    using t n by (simp add: upd_tag_def)
  have "insert_tag ?h2 q (- 1) = Inr ((set_tag ?h2 q (n0\<lparr>index := b\<rparr>))\<lparr>l_freePages := (l_freePages ?h2)[nat b := q]\<rparr>)"
    by (rule insert_tag_empty [of _ _ n0]) (use n b bin_of_range in \<open>simp_all add: n0_def\<close>)
  moreover have "set_tag ?h2 q (n0\<lparr>index := b\<rparr>) =
      set_tag (set_tag h p (t\<lparr>split_right := q, real_size := real_size t - rem\<rparr>)) q (n0\<lparr>index := b\<rparr>)"
    using n(3) by (simp add: set_tag_def fun_upd_twist)
  ultimately have "split_tag h p = Inr (q, (set_tag (set_tag h p (t\<lparr>split_right := q, real_size := real_size t - rem\<rparr>)) q (n0\<lparr>index := b\<rparr>))
        \<lparr>l_freePages := (l_freePages h)[nat b := q]\<rparr>)"
    using t(3) u unfolding split_tag_def t(1) bindE_simps Let_def n(1) [symmetric] r [symmetric]
    by (simp add: n0_def [symmetric])
  then show ?thesis by (intro exI [of _ "n0\<lparr>index := b\<rparr>"]) (simp add: n0_def)
qed

lemma absorb_single:
  assumes "tag_at h p = Inr t" "tag_at h q = Inr nt" "p \<noteq> 0" "q \<noteq> 0" "q \<noteq> p" "split_right t = q"
    and "index nt = b" "0 \<le> b" "b < 32" "l_freePages h ! nat b = q"
    and "next_tag nt = 0" "prev_tag nt = 0" "split_right nt = 0"
  shows "absorb_right h p = Inr (p, (set_tag (set_tag h q (nt\<lparr>index := - 1\<rparr>)) p
      (t\<lparr>real_size := real_size t + real_size nt, split_right := 0\<rparr>))\<lparr>l_freePages := (l_freePages h)[nat b := 0]\<rparr>)"
  using assms remove_tag_only [OF assms(2,4,7-12)]
  by (simp add: absorb_right_def upd_tag_def Let_def)

lemma needed_pages_spec:
  assumes "unat usage < 2 ^ 31 - 4096"
  shows "unat usage \<le> 4096 * unat (needed_pages usage)" "16 \<le> unat (needed_pages usage)"
    "unat (needed_pages usage) < 2 ^ 19"
    "unat (needed_pages usage * l_pageSize) = 4096 * unat (needed_pages usage)"
proof -
  let ?q = "unat usage div 4096"
  have q: "unat (usage div l_pageSize) = ?q" by (simp add: unat_div l_pageSize_def)
  have m: "usage mod l_pageSize = 0 \<longleftrightarrow> unat usage mod 4096 = 0"
    by (simp add: word_unat_eq_iff unat_mod l_pageSize_def)
  have lt: "?q < 2 ^ 19 - 1" using assms by (simp add: less_mult_imp_div_less)
  then have s: "unat (usage div l_pageSize + 1) = Suc ?q" using q by (simp add: unat_add_nowrap)
  define r where "r = (if usage mod l_pageSize \<noteq> 0 then usage div l_pageSize + 1 else usage div l_pageSize)"
  have r: "unat r = (if unat usage mod 4096 = 0 then ?q else Suc ?q)"
    using q s m by (simp add: r_def)
  have n: "unat (needed_pages usage) = (if unat r < 16 then 16 else unat r)"
    unfolding needed_pages_def Let_def r_def [symmetric]
    by (simp add: word_less_nat_alt l_pageCount_def)
  have "unat usage \<le> 4096 * unat r"
  proof (cases "unat usage mod 4096 = 0")
    case True
    then have "unat usage = 4096 * ?q" using mult_div_mod_eq [of 4096 "unat usage"] by linarith
    then show ?thesis using r True by simp
  next
    case False
    have "unat usage = 4096 * ?q + unat usage mod 4096" by simp
    moreover have "unat usage mod 4096 < 4096" by simp
    ultimately show ?thesis using False r by simp
  qed
  then show a: "unat usage \<le> 4096 * unat (needed_pages usage)" using n by simp
  show b: "16 \<le> unat (needed_pages usage)" using n by simp
  show c: "unat (needed_pages usage) < 2 ^ 19" using n r lt by auto
  show "unat (needed_pages usage * l_pageSize) = 4096 * unat (needed_pages usage)"
    using c by (simp add: unat_word_ariths l_pageSize_def)
qed

text \<open>A heap without any free block.\<close>

definition fresh_heap :: "heap \<Rightarrow> bool" where
  "fresh_heap h \<longleftrightarrow> l_initialized h \<and> l_freePages h = replicate 32 0 \<and> l_completePages h = replicate 32 0"

lemma fresh_bin: "fresh_heap h \<Longrightarrow> 0 \<le> b \<Longrightarrow> b < 32 \<Longrightarrow> l_freePages h ! nat b = 0"
  by (simp add: fresh_heap_def)

lemma malloc_fresh_eq:
  assumes "fresh_heap (heap_init h)"
    and "liballoc_alloc (heap_init h) (needed_pages (ucast (ucast (ucast n :: u32) + tag_size :: u64))) = Inr (T, h')"
    and "T \<noteq> 0"
  shows "malloc h n = finish_malloc (set_tag h' T
      \<lparr>magic = LIBALLOC_MAGIC, sz = ucast n,
       real_size = needed_pages (ucast (ucast (ucast n :: u32) + tag_size :: u64)) * l_pageSize,
       index = - 1, split_left = 0, split_right = 0, next_tag = 0, prev_tag = 0\<rparr>) n T"
proof -
  define i where "i = bin_of (ucast n)"
  have i: "0 \<le> i" "i < 32" by (simp_all add: i_def bin_of_range)
  have e: "(if getexp (ucast n) + MODE < int MINEXP then int MINEXP else getexp (ucast n) + MODE) = i"
    by (simp add: i_def bin_of_def MODE_def MINEXP_def)
  have b: "bin_at (heap_init h) i = Inr 0"
    using bin_at_ok [OF i] fresh_bin [OF assms(1) i] by simp
  have f: "returned (find_tag (heap_init h) n 0) = Inr 0"
    by (subst find_tag.simps) (simp add: returned_def)
  show ?thesis
    unfolding malloc_def Let_def e b bindE_simps f
    using assms(2,3) by (simp add: allocate_new_tag_def)
qed

lemma find_tag_nil: "find_tag h n 0 = Some (Inr 0)"
  by (subst find_tag.simps) simp

text \<open>Melting loops that have nothing to do.\<close>

lemma melt_left_loop_stops:
  assumes "tag_at h p = Inr t" "split_left t = 0"
  shows "melt_left_loop h p = Some (Inr (p, h))"
  using assms by (subst melt_left_loop.simps) simp

lemma absorb_right_loop_stops:
  assumes "tag_at h p = Inr t" "split_right t = 0"
  shows "absorb_right_loop h p = Some (Inr (p, h))"
  using assms by (subst absorb_right_loop.simps) simp

lemma absorb_right_loop_step:
  assumes "tag_at h p = Inr t" "split_right t \<noteq> 0" "tag_at h (split_right t) = Inr r" "0 \<le> index r"
    and "absorb_right h p = Inr (q, h')"
  shows "absorb_right_loop h p = absorb_right_loop h' q"
  using assms by (subst absorb_right_loop.simps) simp

lemma fresh_set_tag [simp]: "fresh_heap (set_tag h p t) = fresh_heap h"
  by (simp add: fresh_heap_def)

lemma replicate_restore: "i < n \<Longrightarrow> ((replicate n x)[i := y])[i := x] = replicate n x"
  by (simp add: list_update_same_conv)

text \<open>
  The two shapes \<open>finish_malloc\<close> leaves: the tag alone, or the tag followed by a free one.
\<close>

definition whole_tag :: "u32 \<Rightarrow> u32 \<Rightarrow> boundary_tag" where
  "whole_tag n R = \<lparr>magic = LIBALLOC_MAGIC, sz = n, real_size = R, index = - 1,
     split_left = 0, split_right = 0, next_tag = 0, prev_tag = 0\<rparr>"

definition split_pair :: "heap \<Rightarrow> u64 \<Rightarrow> u64 \<Rightarrow> u32 \<Rightarrow> u32 \<Rightarrow> boundary_tag \<Rightarrow> heap" where
  "split_pair h T q n R nt = (set_tag (set_tag h T
       ((whole_tag n R)\<lparr>split_right := q, real_size := R - real_size nt\<rparr>)) q nt)
     \<lparr>l_freePages := (replicate 32 0)[nat (index nt) := q]\<rparr>"

lemma finish_malloc_fresh:
  assumes h: "fresh_heap h" "T \<noteq> 0" and n: "unat n < 2 ^ 30"
    and R: "48 + unat n \<le> unat R" "unat R < 2 ^ 31" and top: "unat T + unat R < 2 ^ 64"
  shows "finish_malloc (set_tag h T (whole_tag (ucast n) R)) n T =
      Inr (T + tag_size, set_tag h T (whole_tag (ucast n) R)) \<or>
    (\<exists>q nt. finish_malloc (set_tag h T (whole_tag (ucast n) R)) n T =
        Inr (T + tag_size, split_pair h T q (ucast n) R nt) \<and>
      q = T + tag_size + n \<and> q \<noteq> T \<and> q \<noteq> 0 \<and> magic nt = LIBALLOC_MAGIC \<and>
      unat (real_size nt) = unat R - 48 - unat n \<and>
      8 \<le> index nt \<and> index nt < 32 \<and> split_left nt = T \<and> split_right nt = 0 \<and> next_tag nt = 0 \<and> prev_tag nt = 0)"
proof -
  let ?w = "whole_tag (ucast n) R" and ?h = "set_tag h T (whole_tag (ucast n) R)"
  define r where "r = (ucast (ucast R - n - tag_size * 2 :: u64) :: u32)"
  have un: "unat (ucast n :: u32) = unat n"
    by (rule unat_ucast_down) (use n in simp)
  have nn: "ucast (ucast n :: u32) = n"
    by (simp only: word_unat_eq_iff unat_ucast_up un)
  have w: "?w\<lparr>sz := ucast n\<rparr> = ?w" by (simp add: whole_tag_def)
  have fm: "finish_malloc ?h n T = bindE (if sint r > 0 \<and> getexp r \<ge> 0
      then bindE (split_tag ?h T) (\<lambda>(_, h2). Inr h2) else Inr ?h) (\<lambda>h3. Inr (T + tag_size, h3))"
    unfolding finish_malloc_def r_def Let_def using h(2) w by (simp add: whole_tag_def)
  show ?thesis
  proof (cases "sint r > 0 \<and> getexp r \<ge> 0")
    case False
    show ?thesis by (rule disjI1) (simp only: fm if_not_P [OF False] bindE_simps)
  next
    case True
    let ?q = "T + tag_size + n"
    define rm where "rm = (ucast (ucast R - tag_size - ucast (ucast n :: u32) :: u64) :: u32)"
    define b where "b = bin_of (ucast (ucast rm - tag_size :: u64))"
    have q: "unat ?q = unat T + 48 + unat n"
      using n R top by (simp add: unat_add_nowrap tag_size_def)
    have qn: "?q \<noteq> 0" "?q \<noteq> T" using q by (auto simp: word_unat_eq_iff)
    have rm: "unat rm = unat R - 48 - unat n"
    proof -
      have "unat (ucast R - tag_size - n :: u64) = unat R - 48 - unat n"
        using R n by (simp only: unat_sub_nowrap unat_ucast_up tag_size_def) (simp add: unat_sub_nowrap unat_ucast_up)
      then show ?thesis unfolding rm_def nn using R by (subst unat_ucast_down) simp_all
    qed
    obtain nt where s: "split_tag ?h T = Inr (?q, (set_tag (set_tag ?h T (?w\<lparr>split_right := ?q, real_size := real_size ?w - rm\<rparr>)) ?q nt)
        \<lparr>l_freePages := (l_freePages ?h)[nat b := ?q]\<rparr>)"
      and nt: "magic nt = LIBALLOC_MAGIC" "real_size nt = rm" "index nt = b"
      "split_left nt = T" "split_right nt = 0" "next_tag nt = 0" "prev_tag nt = 0"
      using split_single [of ?h T ?w ?q rm b] h qn bin_of_range fresh_bin [of ?h b]
      by (auto simp: whole_tag_def nn rm_def b_def)
    have "finish_malloc ?h n T = Inr (T + tag_size, split_pair h T ?q (ucast n) R nt)"
      using fm True s h(1) nt(2,3) by (simp add: split_pair_def whole_tag_def fresh_heap_def)
    then show ?thesis using qn nt rm bin_of_range by (intro disjI2 exI [of _ ?q] exI [of _ nt]) (simp add: b_def)
  qed
qed

lemma free_finish:
  assumes m: "tag_at h T = Inr t0" "magic t0 = LIBALLOC_MAGIC" "melt_left_loop h T = Some (Inr (T, h))"
    and a: "absorb_right_loop h T = Some (Inr (T, h2))"
    and t: "tag_at h2 T = Inr t" "split_left t = 0" "split_right t = 0" "T \<noteq> 0" "T + tag_size \<noteq> 0"
    and f: "fresh_heap h2" and i: "i = bin_of (ucast (ucast (real_size t) - tag_size :: u64))"
  shows "heap_free h (T + tag_size) = Inr ((set_tag h2 T (t\<lparr>index := i\<rparr>))
    \<lparr>l_freePages := (replicate 32 0)[nat i := T], l_completePages := (replicate 32 0)[nat i := 1]\<rparr>)"
proof -
  have r: "0 \<le> i" "i < 32" using i bin_of_range by simp_all
  have e: "(if getexp (ucast (ucast (real_size t) - tag_size :: u64)) < int MINEXP then int MINEXP
      else getexp (ucast (ucast (real_size t) - tag_size :: u64))) = i"
    by (simp add: i bin_of_def MINEXP_def)
  have bins: "complete_at h2 i = Inr 0"
    "set_complete h2 i (0 + 1) = Inr (h2\<lparr>l_completePages := (replicate 32 0)[nat i := 1]\<rparr>)"
    using f r by (simp_all add: complete_at_def set_complete_def fresh_heap_def MAXEXP_def)
  have ins: "insert_tag (h2\<lparr>l_completePages := (replicate 32 0)[nat i := 1]\<rparr>) T i =
      Inr ((set_tag (h2\<lparr>l_completePages := (replicate 32 0)[nat i := 1]\<rparr>) T (t\<lparr>index := i\<rparr>))
        \<lparr>l_freePages := (replicate 32 0)[nat i := T]\<rparr>)"
    using insert_tag_empty [of "h2\<lparr>l_completePages := (replicate 32 0)[nat i := 1]\<rparr>" T t i i] t r f
    by (simp add: fresh_heap_def)
  show ?thesis
    unfolding heap_free_def Let_def using m a t bins ins e
    by (simp add: returned_def MAXCOMPLETE_def)
qed

section \<open>A first allocation and its release\<close>

lemma replicate_same: "i < n \<Longrightarrow> (replicate n x)[i := x] = replicate n x"
  by (simp add: list_update_same_conv)

lemma absorb_restores:
  assumes h: "fresh_heap h" "T \<noteq> 0" "q \<noteq> 0" "q \<noteq> T"
    and nt: "8 \<le> index nt" "index nt < 32" "split_right nt = 0" "next_tag nt = 0" "prev_tag nt = 0"
    and h1: "h1 = split_pair h T q n R nt"
  shows "absorb_right_loop h1 T = Some (Inr (T, set_tag (set_tag h q (nt\<lparr>index := - 1\<rparr>)) T (whole_tag n R)))"
proof -
  let ?t = "(whole_tag n R)\<lparr>split_right := q, real_size := R - real_size nt\<rparr>"
  let ?h2 = "set_tag (set_tag h1 q (nt\<lparr>index := - 1\<rparr>)) T (?t\<lparr>real_size := real_size ?t + real_size nt, split_right := 0\<rparr>)
    \<lparr>l_freePages := (l_freePages h1)[nat (index nt) := 0]\<rparr>"
  let ?h3 = "set_tag (set_tag h q (nt\<lparr>index := - 1\<rparr>)) T (whole_tag n R)"
  have at: "tag_at h1 T = Inr ?t" "tag_at h1 q = Inr nt"
    using h by (simp_all add: h1 split_pair_def)
  have bin: "l_freePages h1 ! nat (index nt) = q"
    using nt(1,2) by (simp add: h1 split_pair_def nat_less_iff)
  have a: "absorb_right h1 T = Inr (T, ?h2)"
    by (rule absorb_single [OF at]) (use h nt bin in \<open>simp_all add: whole_tag_def\<close>)
  have w: "?t\<lparr>real_size := real_size ?t + real_size nt, split_right := 0\<rparr> = whole_tag n R"
    by (simp add: whole_tag_def)
  have "?h2 = ?h3"
    unfolding w using h nt(1,2)
    by (cases h) (simp add: h1 split_pair_def set_tag_def replicate_same nat_less_iff fresh_heap_def fun_upd_twist)
  then have "absorb_right_loop h1 T = absorb_right_loop ?h3 T"
    using absorb_right_loop_step [OF at(1) _ _ _ a] at(2) h(3) nt(1) by simp
  also have "\<dots> = Some (Inr (T, ?h3))"
    by (rule absorb_right_loop_stops [of _ _ "whole_tag n R"]) (use h(2) in \<open>simp_all add: whole_tag_def\<close>)
  finally show ?thesis .
qed

text \<open>What the heap looks like when its only pages are cached in a bin.\<close>

definition cached :: "heap \<Rightarrow> u64 \<Rightarrow> u32 \<Rightarrow> bool" where
  "cached h T R \<longleftrightarrow> (\<exists>n i. tag_at h T = Inr ((whole_tag n R)\<lparr>index := i\<rparr>) \<and>
     i = bin_of (ucast (ucast R - tag_size :: u64)) \<and>
     l_freePages h = (replicate 32 0)[nat i := T] \<and> l_completePages h = (replicate 32 0)[nat i := 1])"

lemma finish_free_fresh:
  assumes h: "fresh_heap h" "T \<noteq> 0" "unat n < 2 ^ 30"
    and R: "48 + unat n \<le> unat R" "unat R < 2 ^ 31" "unat T + unat R < 2 ^ 64"
    and m: "finish_malloc (set_tag h T (whole_tag (ucast n) R)) n T = Inr (p, h1)"
  shows "p = T + tag_size \<and> h_phys h1 = h_phys h \<and>
    (\<exists>t. tag_at h1 T = Inr t \<and> sz t = ucast n \<and> index t = - 1 \<and>
      48 + unat n \<le> unat (real_size t) \<and> unat (real_size t) \<le> unat R) \<and>
    (\<exists>h2. heap_free h1 p = Inr h2 \<and> h_phys h2 = h_phys h \<and> cached h2 T R)"
proof -
  define i where "i = bin_of (ucast (ucast R - tag_size :: u64))"
  have Tn: "T + tag_size \<noteq> 0"
  proof
    assume "T + tag_size = 0"
    then have "unat (T + tag_size) = 0" by simp
    moreover have "unat (T + tag_size) = unat T + 48" using R by (simp add: unat_add_nowrap tag_size_def)
    ultimately show False by simp
  qed
  show ?thesis
    using finish_malloc_fresh [OF h(1-3) R]
  proof (elim disjE exE conjE)
    assume f: "finish_malloc (set_tag h T (whole_tag (ucast n) R)) n T =
      Inr (T + tag_size, set_tag h T (whole_tag (ucast n) R))"
    then have p: "p = T + tag_size" "h1 = set_tag h T (whole_tag (ucast n) R)" using m by simp_all
    have at: "tag_at h1 T = Inr (whole_tag (ucast n) R)" using p(2) h(2) by simp
    have fr: "heap_free h1 (T + tag_size) = Inr ((set_tag h1 T ((whole_tag (ucast n) R)\<lparr>index := i\<rparr>))
        \<lparr>l_freePages := (replicate 32 0)[nat i := T], l_completePages := (replicate 32 0)[nat i := 1]\<rparr>)"
      by (rule free_finish [OF at _ melt_left_loop_stops [OF at] absorb_right_loop_stops [OF at] at])
        (use h Tn p(2) in \<open>simp_all add: whole_tag_def i_def\<close>)
    have "cached ((set_tag h1 T ((whole_tag (ucast n) R)\<lparr>index := i\<rparr>))
        \<lparr>l_freePages := (replicate 32 0)[nat i := T], l_completePages := (replicate 32 0)[nat i := 1]\<rparr>) T R"
      using h(2) by (auto simp: cached_def i_def)
    then show ?thesis using at fr p R(1) by (simp add: whole_tag_def)
  next
    fix q nt
    assume f: "finish_malloc (set_tag h T (whole_tag (ucast n) R)) n T =
        Inr (T + tag_size, split_pair h T q (ucast n) R nt)"
      and q: "q \<noteq> T" "q \<noteq> 0" and r: "unat (real_size nt) = unat R - 48 - unat n"
      and nt: "8 \<le> index nt" "index nt < 32" "split_right nt = 0" "next_tag nt = 0" "prev_tag nt = 0"
    let ?t = "(whole_tag (ucast n) R)\<lparr>split_right := q, real_size := R - real_size nt\<rparr>"
    let ?h2 = "set_tag (set_tag h q (nt\<lparr>index := - 1\<rparr>)) T (whole_tag (ucast n) R)"
    have p: "p = T + tag_size" "h1 = split_pair h T q (ucast n) R nt" using m f by simp_all
    have at: "tag_at h1 T = Inr ?t" "tag_at ?h2 T = Inr (whole_tag (ucast n) R)"
      using h q by (simp_all add: p split_pair_def)
    have rs: "unat (R - real_size nt) = 48 + unat n" using r R(1) by (simp add: unat_sub_nowrap)
    have fr: "heap_free h1 (T + tag_size) = Inr ((set_tag ?h2 T ((whole_tag (ucast n) R)\<lparr>index := i\<rparr>))
        \<lparr>l_freePages := (replicate 32 0)[nat i := T], l_completePages := (replicate 32 0)[nat i := 1]\<rparr>)"
      by (rule free_finish [OF at(1) _ melt_left_loop_stops [OF at(1)]
            absorb_restores [OF h(1,2) q(2,1) nt p(2)] at(2)])
        (use h Tn in \<open>simp_all add: whole_tag_def i_def\<close>)
    have "cached ((set_tag ?h2 T ((whole_tag (ucast n) R)\<lparr>index := i\<rparr>))
        \<lparr>l_freePages := (replicate 32 0)[nat i := T], l_completePages := (replicate 32 0)[nat i := 1]\<rparr>) T R"
      using h(2) by (auto simp: cached_def i_def)
    then show ?thesis using at(1) fr p R(1) rs by (simp add: whole_tag_def split_pair_def)
  qed
qed

lemma malloc_fresh_pages:
  assumes h: "fresh_heap (heap_init h)" and ok: "pm_ok (h_phys h)"
    and top: "unat (hhdm h) + 4096 * page_limit (h_phys h) < 2 ^ 64"
    and n: "unat n < 2 ^ 30" and m: "malloc h n = Inr (p, h1)"
  shows "\<exists>page R h'. page \<noteq> 0 \<and> {page..<page + unat R div 4096} \<subseteq> pm_free (h_phys h) \<and>
    pm_free (h_phys h') = pm_free (h_phys h) - {page..<page + unat R div 4096} \<and>
    unat (hhdm h + of_nat page * 4096) = unat (hhdm h) + page * 4096 \<and>
    fresh_heap h' \<and> hhdm h' = hhdm h \<and> pm_ok (h_phys h') \<and>
    48 + unat n \<le> unat R \<and> unat R < 2 ^ 31 \<and> unat (hhdm h) + page * 4096 + unat R < 2 ^ 64 \<and>
    finish_malloc (set_tag h' (hhdm h + of_nat page * 4096) (whole_tag (ucast n) R)) n
      (hhdm h + of_nat page * 4096) = Inr (p, h1)"
proof -
  define u where "u = (ucast (ucast (ucast n :: u32) + tag_size :: u64) :: u32)"
  define k where "k = needed_pages u"
  have hp: "h_phys (heap_init h) = h_phys h" "hhdm (heap_init h) = hhdm h"
    by (simp_all add: heap_init_def)
  have n64: "unat (ucast (ucast n :: u32) + tag_size :: u64) = unat n + 48"
  proof -
    have "unat (ucast (ucast n :: u32) :: u64) = unat n"
      using n by (simp only: unat_ucast_up) (simp add: unat_ucast_down)
    then show ?thesis using n by (subst unat_add_nowrap) (simp_all add: tag_size_def)
  qed
  have u: "unat u = unat n + 48"
    unfolding u_def using n n64 by (subst unat_ucast_down) simp_all
  then have k: "unat u \<le> 4096 * unat k" "16 \<le> unat k" "unat k < 2 ^ 19"
    "unat (k * l_pageSize) = 4096 * unat k"
    using needed_pages_spec [of u] n by (simp_all add: k_def)
  have sk: "unat (scast k :: u64) = unat k" using k(3) by (intro unat_scast_up) simp
  obtain a s' where al: "PhysicalMemory_alloc (h_phys h) (scast k) = Inr (a, s')"
  proof (cases "PhysicalMemory_alloc (h_phys h) (scast k)")
    case (Inl e)
    then have "liballoc_alloc (heap_init h) k = Inl e" by (simp add: liballoc_alloc_def hp)
    then have "malloc h n = Inl e"
      using fresh_bin [OF h bin_of_range(2,3), of "ucast n"] bin_of_range [of "ucast n"]
      by (simp add: malloc_def allocate_new_tag_def k_def u_def bin_at_ok bin_of_def MODE_def MINEXP_def
          Let_def find_tag_nil returned_def split: if_splits)
    then show thesis using m by simp
  qed auto
  obtain page where pg: "page \<noteq> 0" "a = of_nat page * 4096" "page + unat k \<le> page_limit (h_phys h)"
    "{page..<page + unat k} \<subseteq> pm_free (h_phys h)"
    "pm_free s' = pm_free (h_phys h) - {page..<page + unat k}" "pm_ok s'"
    using pm_alloc_ok(1,2) [OF ok al] unfolding takes_pages_def sk by auto
  let ?h' = "(heap_init h)\<lparr>h_phys := s'\<rparr>" and ?T = "hhdm h + of_nat page * 4096"
  have T: "unat ?T = unat (hhdm h) + page * 4096"
  proof -
    have "unat (of_nat page * 4096 :: u64) = page * 4096"
      using pg(3) top by (simp add: unat_word_ariths unat_of_nat)
    then show ?thesis using pg(3) top by (simp add: unat_add_nowrap)
  qed
  have "?T \<noteq> 0" using T pg(1) by (auto simp: word_unat_eq_iff)
  moreover have "liballoc_alloc (heap_init h) (needed_pages (ucast (ucast (ucast n :: u32) + tag_size :: u64))) = Inr (?T, ?h')"
    using al by (simp add: liballoc_alloc_def hp k_def u_def pg(2) add.commute)
  ultimately have "finish_malloc (set_tag ?h' ?T (whole_tag (ucast n) (k * l_pageSize))) n ?T = Inr (p, h1)"
    using malloc_fresh_eq [OF h] m by (simp add: whole_tag_def k_def u_def)
  moreover have "fresh_heap ?h'" using h by (simp add: fresh_heap_def)
  ultimately show ?thesis
    using pg k u T top
    by (intro exI [of _ page] exI [of _ "k * l_pageSize"] exI [of _ ?h']) (simp add: hp)
qed

section \<open>Oversized requests\<close>

text \<open>Only the low 32 bits of a size reach the tag and the remainder.\<close>

lemma ucast_of_int: "(ucast (word_of_int k :: u64) :: u32) = word_of_int k"
  by (simp add: unsigned_of_int word_of_int_eq_iff)

lemma ucast_diff: "(ucast (a - b :: u64) :: u32) = ucast a - ucast b"
proof -
  have "(ucast (a - b) :: u32) = word_of_int (uint a - uint b)"
    by (simp only: word_sub_wi ucast_of_int)
  also have "\<dots> = word_of_int (uint a) - word_of_int (uint b)" by (rule of_int_diff)
  finally show ?thesis by (simp only: ucast_eq)
qed

lemma finish_malloc_low:
  assumes "(ucast n :: u32) = ucast m"
  shows "finish_malloc h n T = finish_malloc h m T"
  unfolding finish_malloc_def ucast_diff assms ..

section \<open>Freeing twice\<close>

lemma find_tag_cycle:
  assumes t: "tag_at h T = Inr t" "next_tag t = T" "T \<noteq> 0" "\<not> ucast (real_size t) - tag_size \<ge> n + tag_size"
  shows "find_tag h n T = None"
proof (cases "find_tag h n T")
  case (Some r)
  have "h = h \<longrightarrow> n = n \<longrightarrow> T \<noteq> T"
  proof (rule find_tag.raw_induct [OF _ Some, where P = "\<lambda>h' n' p r. h' = h \<longrightarrow> n' = n \<longrightarrow> p \<noteq> T"])
    fix f h' n' p r
    assume IH: "\<And>h' n' p r. f h' n' p = Some r \<Longrightarrow> h' = h \<longrightarrow> n' = n \<longrightarrow> p \<noteq> T"
      and r: "(if p = 0 then Some (Inr 0)
      else (case tag_at h' p of Inl e \<Rightarrow> Some (Inl e)
           | Inr t \<Rightarrow> if ucast (real_size t) - tag_size \<ge> n' + tag_size then Some (Inr p)
               else f h' n' (next_tag t))) = Some r"
    show "h' = h \<longrightarrow> n' = n \<longrightarrow> p \<noteq> T"
    proof (intro impI notI)
      assume "h' = h" "n' = n" "p = T"
      with r t have "f h n T = Some r" by simp
      then show False using IH by blast
    qed
  qed
  then show ?thesis by simp
qed

lemma double_free_links:
  assumes t: "tag_at h T = Inr t" "magic t = LIBALLOC_MAGIC" "split_left t = 0" "split_right t = 0" "T \<noteq> 0" "T + tag_size \<noteq> 0"
    and i: "i = bin_of (ucast (ucast (real_size t) - tag_size :: u64))" "l_freePages h ! nat i = T" "length (l_freePages h) = 32"
    and c: "l_completePages h ! nat i \<noteq> MAXCOMPLETE"
  shows "\<exists>h'. heap_free h (T + tag_size) = Inr h' \<and>
    tag_at h' T = Inr (t\<lparr>index := i, prev_tag := T, next_tag := T\<rparr>) \<and> l_freePages h' ! nat i = T \<and>
    l_initialized h' = l_initialized h"
proof -
  have r: "0 \<le> i" "i < 32" using i bin_of_range by simp_all
  have e: "(if getexp (ucast (ucast (real_size t) - tag_size :: u64)) < int MINEXP then int MINEXP
      else getexp (ucast (ucast (real_size t) - tag_size :: u64))) = i"
    by (simp add: i bin_of_def MINEXP_def)
  let ?h1 = "h\<lparr>l_completePages := (l_completePages h)[nat i := l_completePages h ! nat i + 1]\<rparr>"
  let ?h2 = "(set_tag ?h1 T (t\<lparr>index := i, prev_tag := T, next_tag := T\<rparr>))\<lparr>l_freePages := (l_freePages h)[nat i := T]\<rparr>"
  have cs: "complete_at h i = Inr (l_completePages h ! nat i)"
    "set_complete h i (l_completePages h ! nat i + 1) = Inr ?h1"
    using r by (simp_all add: complete_at_def set_complete_def MAXEXP_def)
  have ins: "insert_tag ?h1 T i = Inr ?h2"
    using t r i(2) by (simp add: insert_tag_def upd_tag_def bin_at_ok set_bin_ok)
  have "heap_free h (T + tag_size) = Inr ?h2"
    unfolding heap_free_def Let_def
    using t melt_left_loop_stops [OF t(1,3)] absorb_right_loop_stops [OF t(1,4)] e cs c ins
    by (simp add: returned_def)
  moreover have "l_freePages ?h2 ! nat i = T" using r i(3) by (simp add: nat_less_iff)
  ultimately show ?thesis using t(5) by (intro exI [of _ ?h2]) (simp add: set_tag_def tag_at_def)
qed

lemma bins_eq: "(if getexp (ucast n) + MODE < int MINEXP then int MINEXP else getexp (ucast n) + MODE) = bin_of (ucast n)"
  by (simp add: bin_of_def MODE_def MINEXP_def)

lemma malloc_fresh_low:
  assumes "fresh_heap (heap_init h)" "(ucast n :: u32) = ucast m"
  shows "malloc h n = malloc h m"
proof -
  have "bin_at (heap_init h) (bin_of (ucast m)) = Inr 0"
    using bin_at_ok [OF bin_of_range(2,3)] fresh_bin [OF assms(1) bin_of_range(2,3)] by simp
  then show ?thesis
    using finish_malloc_low [OF assms(2)]
    by (simp add: malloc_def Let_def bins_eq assms(2) find_tag_nil returned_def cong del: if_weak_cong)
qed

section \<open>A demonstration heap\<close>

text \<open>Thirty-two pages of memory, the first eight in use, and a heap not yet initialised.\<close>

definition demo_heap_pm :: phys where
  "demo_heap_pm = \<lparr>bitmap = [0xFF, 0, 0, 0], bitmap_at = 0x1000, lastI = 0, highest_addr = 0x20000,
     usedRam = 0, freeRam = 0x18000, ram = (\<lambda>_. 0)\<rparr>"

definition demo_heap :: heap where
  "demo_heap = \<lparr>h_phys = demo_heap_pm, hhdm = 0xffff800000000000, tags = Map.empty,
     l_freePages = [], l_completePages = [], l_initialized = False\<rparr>"

lemma demo_heap_free: "pm_free demo_heap_pm = {8..<32}"
proof -
  have "pm_free demo_heap_pm = set (filter (\<lambda>i. \<not> page_bit [0xFF, 0, 0, 0] i) [0..<32])"
    by (auto simp: pm_free_def free_pages_def demo_heap_pm_def)
  also have "filter (\<lambda>i. \<not> page_bit [0xFF, 0, 0, 0] i) [0..<32] = [8..<32]"
    by code_simp
  finally show ?thesis by (simp only: set_upt)
qed

lemma demo_heap_pm_ok: "pm_ok demo_heap_pm"
  by (simp add: pm_ok_def page_limit_def demo_heap_free) (simp add: demo_heap_pm_def)

lemma demo_heap_fresh: "fresh_heap (heap_init demo_heap)"
  by (simp add: fresh_heap_def heap_init_def demo_heap_def MAXEXP_def)

lemma demo_heap_alloc: "\<exists>s'. PhysicalMemory_alloc demo_heap_pm 16 = Inr (0x8000, s')"
  by (simp add: PhysicalMemory_alloc_def inner_alloc_def demo_heap_pm_def inner_alloc_loop.simps
      Bitmap_SetRange.simps Bitmap_Get_def Bitmap_Set_def Let_def)

lemma demo_malloc:
  assumes "n = 3 \<or> n = 100"
  shows "\<exists>h1. malloc demo_heap n = Inr (0xffff800000008030, h1)"
proof -
  obtain s' where s': "PhysicalMemory_alloc demo_heap_pm 16 = Inr (0x8000, s')"
    using demo_heap_alloc by blast
  let ?h' = "(heap_init demo_heap)\<lparr>h_phys := s'\<rparr>" and ?T = "0xffff800000008000 :: u64"
  have np: "needed_pages (ucast (ucast (ucast n :: u32) + tag_size :: u64)) = 16"
    using assms by (auto simp: needed_pages_def tag_size_def l_pageSize_def l_pageCount_def)
  have hp: "h_phys (heap_init demo_heap) = demo_heap_pm" "hhdm (heap_init demo_heap) = 0xffff800000000000"
    by (simp_all add: heap_init_def demo_heap_def)
  have al: "liballoc_alloc (heap_init demo_heap)
      (needed_pages (ucast (ucast (ucast n :: u32) + tag_size :: u64))) = Inr (?T, ?h')"
    unfolding np using s' by (simp add: liballoc_alloc_def hp)
  have fh: "fresh_heap ?h'" using demo_heap_fresh by (simp add: fresh_heap_def)
  have "malloc demo_heap n = finish_malloc (set_tag ?h' ?T (whole_tag (ucast n) (16 * l_pageSize))) n ?T"
    using malloc_fresh_eq [OF demo_heap_fresh al] by (simp only: whole_tag_def np) simp
  moreover have "\<exists>h1. finish_malloc (set_tag ?h' ?T (whole_tag (ucast n) (16 * l_pageSize))) n ?T
      = Inr (?T + tag_size, h1)"
    using finish_malloc_fresh [OF fh, of ?T n "16 * l_pageSize"] assms by (auto simp: l_pageSize_def)
  ultimately show ?thesis by (simp add: tag_size_def)
qed

section \<open>Properties\<close>

text \<open>\<^verbatim>\<open>getexp\<close> is what its comment says on every 32-bit size from 256 on, the exponent \<open>n\<close> with
  \<open>2^n \<le> size < 2^(n+1)\<close>, at most 31, and \<open>-1\<close> below; no bin beyond the 32 is ever named.\<close>

theorem getexp_exponent:
  "(unat n < 256 \<and> getexp n = - 1) \<or>
   (\<exists>e. getexp n = int e \<and> 8 \<le> e \<and> e \<le> 31 \<and> 2 ^ e \<le> unat n \<and> unat n < 2 ^ Suc e)"
  using getexp_small [of n] getexp_large [of n] by (cases "unat n < 256") auto

text \<open>The first allocation and its release. On a heap without free blocks, a successful
  \<^verbatim>\<open>malloc\<close> of less than \<open>2^30\<close> bytes returns a block behind its tag at the direct-map
  address of pages that the page allocator had free and has no longer, with room for the
  request inside them, the tag's size the request. Freeing it merges what was split off back,
  keeps the pages, and leaves one whole tag over all of them, alone in its bin and counted there.\<close>

theorem malloc_free_roundtrip:
  assumes "fresh_heap (heap_init h)" and "pm_ok (h_phys h)"
    and "unat (hhdm h) + 4096 * page_limit (h_phys h) < 2 ^ 64"
    and "unat n < 2 ^ 30" and "malloc h n = Inr (p, h1)"
  shows "\<exists>page T R t h2. page \<noteq> 0 \<and> unat T = unat (hhdm h) + page * 4096 \<and> p = T + tag_size \<and>
    {page..<page + unat R div 4096} \<subseteq> pm_free (h_phys h) \<and>
    pm_free (h_phys h1) = pm_free (h_phys h) - {page..<page + unat R div 4096} \<and>
    tag_at h1 T = Inr t \<and> sz t = ucast n \<and> index t = - 1 \<and>
    48 + unat n \<le> unat (real_size t) \<and> unat (real_size t) \<le> unat R \<and>
    heap_free h1 p = Inr h2 \<and> h_phys h2 = h_phys h1 \<and> cached h2 T R"
proof -
  obtain page R h' where *: "page \<noteq> 0" "{page..<page + unat R div 4096} \<subseteq> pm_free (h_phys h)"
    "pm_free (h_phys h') = pm_free (h_phys h) - {page..<page + unat R div 4096}"
    "unat (hhdm h + of_nat page * 4096) = unat (hhdm h) + page * 4096" "fresh_heap h'"
    "48 + unat n \<le> unat R" "unat R < 2 ^ 31" "unat (hhdm h) + page * 4096 + unat R < 2 ^ 64"
    "finish_malloc (set_tag h' (hhdm h + of_nat page * 4096) (whole_tag (ucast n) R)) n
      (hhdm h + of_nat page * 4096) = Inr (p, h1)"
    using malloc_fresh_pages [OF assms] by blast
  let ?T = "hhdm h + of_nat page * 4096"
  have "?T \<noteq> 0" using *(1,4) by (auto simp: word_unat_eq_iff)
  from finish_free_fresh [OF *(5) this assms(4) *(6,7) _ *(9)] *(4,8)
  obtain t h2 where "p = ?T + tag_size" "h_phys h1 = h_phys h'" "tag_at h1 ?T = Inr t" "sz t = ucast n"
    "index t = - 1" "48 + unat n \<le> unat (real_size t)" "unat (real_size t) \<le> unat R"
    "heap_free h1 p = Inr h2" "h_phys h2 = h_phys h'" "cached h2 ?T R"
    by auto
  then show ?thesis using * by (intro exI [of _ page] exI [of _ ?T] exI [of _ R] exI [of _ t] exI [of _ h2]) simp
qed

theorem malloc_free_roundtrip_witness:
  "\<exists>h1 page T R t h2. malloc demo_heap 100 = Inr (0xffff800000008030, h1) \<and> page \<noteq> 0 \<and>
    unat T = 0xffff800000000000 + page * 4096 \<and>
    tag_at h1 T = Inr t \<and> sz t = 100 \<and> heap_free h1 0xffff800000008030 = Inr h2 \<and> cached h2 T R"
proof -
  obtain h1 where m: "malloc demo_heap 100 = Inr (0xffff800000008030, h1)" using demo_malloc [of 100] by auto
  have top: "unat (hhdm demo_heap) + 4096 * page_limit (h_phys demo_heap) < 2 ^ 64"
    by (simp add: demo_heap_def demo_heap_pm_def page_limit_def)
  have ok: "pm_ok (h_phys demo_heap)" using demo_heap_pm_ok by (simp add: demo_heap_def)
  have hd: "unat (hhdm demo_heap) = 0xffff800000000000" by (simp add: demo_heap_def)
  have n: "unat (100 :: u64) < 2 ^ 30" by simp
  have u: "(ucast (100 :: u64) :: u32) = 100" by simp
  show ?thesis
    using malloc_free_roundtrip [OF demo_heap_fresh ok top n m] unfolding hd u
    by (elim exE conjE) (intro exI conjI; (rule m)?; assumption)
qed

text \<open>Sizes are cut to 32 bits. On a heap without free blocks, \<^verbatim>\<open>malloc\<close> does the same for
  any two requests that agree modulo \<open>2^32\<close>, so that a request of more than 4 GiB returns
  a block with room for its low 32 bits only.\<close>

theorem malloc_truncates:
  assumes "fresh_heap (heap_init h)"
  shows "malloc h n = malloc h (of_nat (unat n mod 2 ^ 32))"
  by (rule malloc_fresh_low [OF assms]) (simp add: word_unat_eq_iff unsigned_ucast_eq unat_of_nat take_bit_eq_mod)

theorem malloc_truncates_witness:
  "malloc demo_heap 0x100000064 = malloc demo_heap 100"
  using malloc_truncates [OF demo_heap_fresh, of "0x100000064"] by simp

text \<open>A block freed twice ties the heap into a knot. If the freed tag is whole and still heads
  its bin, \<^verbatim>\<open>free\<close> accepts it again, since nothing in the tag says it is free, and links it to
  itself; the next request for that bin that does not fit the block then never returns.\<close>

theorem double_free_cycle:
  assumes "T \<noteq> 0" "T + tag_size \<noteq> 0" "l_initialized h" "length (l_freePages h) = 32"
    and "tag_at h T = Inr t" "magic t = LIBALLOC_MAGIC" "split_left t = 0" "split_right t = 0"
    and "i = bin_of (ucast (ucast (real_size t) - tag_size :: u64))"
    and "index t = i" "l_freePages h ! nat i = T" "l_completePages h ! nat i \<noteq> MAXCOMPLETE"
    and "bin_of (ucast n) = i" "ucast (real_size t) - tag_size < n + tag_size"
  shows "\<exists>h'. heap_free h (T + tag_size) = Inr h' \<and> malloc h' n = Inl Diverges"
proof -
  obtain h' where h': "heap_free h (T + tag_size) = Inr h'"
    "tag_at h' T = Inr (t\<lparr>index := i, prev_tag := T, next_tag := T\<rparr>)" "l_freePages h' ! nat i = T"
    "l_initialized h' = l_initialized h"
    using double_free_links [OF assms(5,6,7,8,1,2,9,11,4,12)] by blast
  have f: "find_tag h' n T = None"
    by (rule find_tag_cycle [OF h'(2)]) (use assms in \<open>simp_all add: not_le\<close>)
  have e: "(if getexp (ucast n) + MODE < int MINEXP then int MINEXP else getexp (ucast n) + MODE) = i"
    unfolding MODE_def MINEXP_def assms(13) [symmetric] bin_of_def by simp
  have "heap_init h' = h'" using h'(4) assms(3) by (simp add: heap_init_def)
  then have "malloc h' n = Inl Diverges"
    using bin_at_ok [of i h'] bin_of_range [of "ucast n"] assms(13) h'(3) f
    unfolding malloc_def Let_def e by (simp add: returned_def)
  then show ?thesis using h'(1) by blast
qed

theorem double_free_cycle_witness:
  "\<exists>h'. heap_free (demo_heap\<lparr>tags := [0xffff800000008000 \<mapsto> (whole_tag 100 0x10000)\<lparr>index := 15\<rparr>],
      l_freePages := (replicate 32 0)[15 := 0xffff800000008000],
      l_completePages := (replicate 32 0)[15 := 1], l_initialized := True\<rparr>) (0xffff800000008000 + tag_size)
    = Inr h' \<and> malloc h' 0xffff = Inl Diverges"
proof -
  have e: "getexp 0xffd0 = 15" "getexp 0xffff = 15"
    by (simp_all add: getexp_def MINEXP_def MAXEXP_def getexp_loop.simps)
  show ?thesis
    by (rule double_free_cycle [where T = "0xffff800000008000" and i = 15 and n = "0xffff"
          and t = "(whole_tag 100 0x10000)\<lparr>index := 15\<rparr>"])
      (simp_all add: tag_size_def tag_at_def whole_tag_def bin_of_def e MAXCOMPLETE_def)
qed

end
