(* ===== verification/Heap_Invariant.thy ===== *)
theory Heap_Invariant
  imports Liballoc
begin

text \<open>
  The invariant of the kernel heap: the runs of pages taken from the page allocator are divided into
  tags without gaps, linked to their neighbours; the free ones are in the doubly linked free lists, each
  in the list its index says; the others belong to callers. Every step of \<^verbatim>\<open>malloc\<close> and \<^verbatim>\<open>free\<close> keeps it, so
  blocks never overlap and freeing a live block always succeeds.
\<close>

section \<open>Doubly linked sequences\<close>

text \<open>
  The addresses \<open>ts\<close> are linked by the fields \<open>L\<close> and \<open>R\<close>, between the neighbours \<open>l\<close> and \<open>r\<close>: the shape of
  a free list and of the tags a run of pages is divided into.
\<close>

fun linked :: "(u64 \<Rightarrow> u64) \<Rightarrow> (u64 \<Rightarrow> u64) \<Rightarrow> u64 \<Rightarrow> u64 list \<Rightarrow> u64 \<Rightarrow> bool" where
  "linked L R l [] r \<longleftrightarrow> True"
| "linked L R l (t # ts) r \<longleftrightarrow> L t = l \<and> R t = hd (ts @ [r]) \<and> linked L R t ts r"

lemma linked_append:
  "linked L R l (xs @ ys) r \<longleftrightarrow> linked L R l xs (hd (ys @ [r])) \<and> linked L R (last (l # xs)) ys r"
  by (induction xs arbitrary: l) (auto simp: hd_append)

lemma linked_cong:
  "(\<And>t. t \<in> set ts \<Longrightarrow> L t = L' t \<and> R t = R' t) \<Longrightarrow> linked L R l ts r = linked L' R' l ts r"
  by (induction ts arbitrary: l) auto

lemma linked_mid:
  "linked L R l (xs @ t # ys) r \<Longrightarrow> L t = last (l # xs) \<and> R t = hd (ys @ [r])"
  by (simp add: linked_append)

lemma linked_new_right:
  assumes "linked L R l xs r" "distinct xs"
    and "\<And>u. u \<in> set xs \<Longrightarrow> L' u = L u \<and> R' u = (if u = last xs then r' else R u)"
  shows "linked L' R' l xs r'"
  using assms
proof (induction xs arbitrary: l)
  case (Cons x xs)
  show ?case
  proof (cases "xs = []")
    case True
    then show ?thesis using Cons.prems by simp
  next
    case False
    then have "last xs \<noteq> x" using Cons.prems(2) by auto
    moreover have "linked L' R' x xs r'" using Cons.IH [of x] Cons.prems False by simp
    ultimately show ?thesis using Cons.prems(1,3) False by (auto simp: hd_append)
  qed
qed simp

lemma linked_new_left:
  assumes "linked L R l ys r" "distinct ys"
    and "\<And>u. u \<in> set ys \<Longrightarrow> R' u = R u \<and> L' u = (if u = hd ys then l' else L u)"
  shows "linked L' R' l' ys r"
proof (cases ys)
  case (Cons y zs)
  have "linked L' R' y zs r = linked L R y zs r"
    by (rule linked_cong) (use assms(2,3) Cons in auto)
  then show ?thesis using assms Cons by auto
qed simp

lemma linked_delete:
  assumes "linked L R l (xs @ t # ys) r" "distinct (xs @ t # ys)"
    and R: "\<And>u. u \<in> set xs \<union> set ys \<Longrightarrow> R' u = (if xs \<noteq> [] \<and> u = last xs then hd (ys @ [r]) else R u)"
    and L: "\<And>u. u \<in> set xs \<union> set ys \<Longrightarrow> L' u = (if ys \<noteq> [] \<and> u = hd ys then last (l # xs) else L u)"
  shows "linked L' R' l (xs @ ys) r"
  unfolding linked_append
proof
  have d: "distinct xs" "distinct ys" "set xs \<inter> set ys = {}" using assms(2) by auto
  show "linked L' R' l xs (hd (ys @ [r]))"
  proof (rule linked_new_right)
    show "linked L R l xs t" using assms(1) by (simp add: linked_append)
    fix u assume u: "u \<in> set xs"
    then have "ys \<noteq> [] \<Longrightarrow> u \<noteq> hd ys" using d(3) by auto
    then show "L' u = L u \<and> R' u = (if u = last xs then hd (ys @ [r]) else R u)" using L [of u] R [of u] u by auto
  qed (rule d)
  show "linked L' R' (last (l # xs)) ys r"
  proof (rule linked_new_left)
    show "linked L R t ys r" using assms(1) by (simp add: linked_append)
    fix u assume u: "u \<in> set ys"
    then have "xs \<noteq> [] \<Longrightarrow> u \<noteq> last xs" using d(3) last_in_set [of xs] by blast
    then show "R' u = R u \<and> L' u = (if u = hd ys then last (l # xs) else L u)" using L [of u] R [of u] u by auto
  qed (rule d)
qed

lemma linked_insert_after:
  assumes "linked L R l (xs @ t # ys) r" "distinct (xs @ t # ys)" "n \<notin> set (xs @ t # ys)"
    and R: "\<And>u. u \<in> set (xs @ t # ys) \<Longrightarrow> R' u = (if u = t then n else R u)" "R' n = hd (ys @ [r])"
    and L: "\<And>u. u \<in> set (xs @ t # ys) \<Longrightarrow> L' u = (if ys \<noteq> [] \<and> u = hd ys then n else L u)" "L' n = t"
  shows "linked L' R' l (xs @ t # n # ys) r"
proof -
  have d: "distinct xs" "distinct ys" "set xs \<inter> set ys = {}" "t \<notin> set xs" "t \<notin> set ys" using assms(2) by auto
  have h: "ys \<noteq> [] \<Longrightarrow> hd ys \<in> set ys" by simp
  have "linked L' R' l xs t = linked L R l xs t"
  proof (rule linked_cong)
    fix u assume "u \<in> set xs"
    then show "L' u = L u \<and> R' u = R u" using L(1) [of u] R(1) [of u] d(3,4) h by auto
  qed
  moreover have "linked L' R' n ys r"
  proof (rule linked_new_left)
    show "linked L R t ys r" using assms(1) by (simp add: linked_append)
    fix u assume u: "u \<in> set ys"
    then show "R' u = R u \<and> L' u = (if u = hd ys then n else L u)" using L(1) [of u] R(1) [of u] d(5) by auto
  qed (rule d)
  moreover have "L' t = L t" using L(1) [of t] d(5) h by auto
  ultimately show ?thesis using assms(1) R(1) [of t] R(2) L(2) by (simp add: linked_append)
qed

section \<open>Tiling\<close>

text \<open>The tags \<open>ts\<close> with sizes \<open>f\<close> follow each other without gaps from address \<open>a\<close> up to \<open>e\<close>.\<close>

fun tiles :: "(u64 \<Rightarrow> nat) \<Rightarrow> nat \<Rightarrow> u64 list \<Rightarrow> nat \<Rightarrow> bool" where
  "tiles f a [] e \<longleftrightarrow> a = e"
| "tiles f a (t # ts) e \<longleftrightarrow> unat t = a \<and> tiles f (a + f t) ts e"

lemma tiles_append: "tiles f a (xs @ ys) e \<longleftrightarrow> (\<exists>m. tiles f a xs m \<and> tiles f m ys e)"
  by (induction xs arbitrary: a) auto

lemma tiles_cong: "(\<And>t. t \<in> set ts \<Longrightarrow> f t = g t) \<Longrightarrow> tiles f a ts e = tiles g a ts e"
  by (induction ts arbitrary: a) auto

lemma tiles_le: "tiles f a ts e \<Longrightarrow> a \<le> e"
  by (induction ts arbitrary: a) force+

lemma tiles_in: "tiles f a ts e \<Longrightarrow> t \<in> set ts \<Longrightarrow> a \<le> unat t \<and> unat t + f t \<le> e"
proof (induction ts arbitrary: a)
  case (Cons u ts)
  show ?case
  proof (cases "t = u")
    case True
    then show ?thesis using Cons.prems(1) tiles_le by auto
  next
    case False
    then have "a + f u \<le> unat t \<and> unat t + f t \<le> e" using Cons by auto
    then show ?thesis by simp
  qed
qed simp

lemma tiles_apart:
  assumes "tiles f a ts e" "t \<in> set ts" "u \<in> set ts" "t \<noteq> u"
  shows "unat t + f t \<le> unat u \<or> unat u + f u \<le> unat t"
  using assms
proof (induction ts arbitrary: a)
  case (Cons v ts)
  consider "t = v" "u \<in> set ts" | "u = v" "t \<in> set ts" | "t \<in> set ts" "u \<in> set ts" using Cons.prems by auto
  then show ?case
  proof cases
    case 1
    then show ?thesis using Cons.prems(1) tiles_in [of f "a + f v" ts e u] by auto
  next
    case 2
    then show ?thesis using Cons.prems(1) tiles_in [of f "a + f v" ts e t] by auto
  next
    case 3
    then show ?thesis using Cons.IH [of "a + f v"] Cons.prems by simp
  qed
qed simp

lemma tiles_distinct:
  assumes "tiles f a ts e" "\<forall>t \<in> set ts. 0 < f t"
  shows "distinct ts"
  using assms
proof (induction ts arbitrary: a)
  case (Cons t ts)
  have "t \<notin> set ts"
  proof
    assume "t \<in> set ts"
    then have "a + f t \<le> unat t" using Cons.prems(1) tiles_in [of f "a + f t" ts e t] by simp
    moreover have "unat t = a" "0 < f t" using Cons.prems by simp_all
    ultimately show False by linarith
  qed
  then show ?case using Cons by auto
qed simp

section \<open>The invariant\<close>

definition tg :: "heap \<Rightarrow> u64 \<Rightarrow> boundary_tag" where
  "tg h a = the (tags h a)"

text \<open>
  \<open>bins_ok h A B\<close>: \<open>A\<close> are the tags of the heap, \<open>B i\<close> those in the free list \<open>i\<close>, in order. A tag in no
  list has index \<open>- 1\<close> and null links.
\<close>

definition bins_ok :: "heap \<Rightarrow> u64 set \<Rightarrow> (nat \<Rightarrow> u64 list) \<Rightarrow> bool" where
  "bins_ok h A B \<longleftrightarrow> length (l_freePages h) = 32 \<and> 0 \<notin> A \<and> A \<subseteq> dom (tags h) \<and>
     (\<forall>i < 32. distinct (B i) \<and> linked (\<lambda>a. prev_tag (tg h a)) (\<lambda>a. next_tag (tg h a)) 0 (B i) 0 \<and>
        l_freePages h ! i = hd (B i @ [0])) \<and>
     (\<forall>i < 32. \<forall>t \<in> set (B i). t \<in> A \<and> index (tg h t) = int i) \<and>
     (\<forall>t \<in> A. if index (tg h t) < 0 then index (tg h t) = - 1 \<and> next_tag (tg h t) = 0 \<and> prev_tag (tg h t) = 0
        else index (tg h t) < 32 \<and> t \<in> set (B (nat (index (tg h t)))))"

lemma bins_okD:
  assumes "bins_ok h A B"
  shows "length (l_freePages h) = 32" "0 \<notin> A" "A \<subseteq> dom (tags h)"
    "\<And>i. i < 32 \<Longrightarrow> distinct (B i)"
    "\<And>i. i < 32 \<Longrightarrow> linked (\<lambda>a. prev_tag (tg h a)) (\<lambda>a. next_tag (tg h a)) 0 (B i) 0"
    "\<And>i. i < 32 \<Longrightarrow> l_freePages h ! i = hd (B i @ [0])"
    "\<And>i t. i < 32 \<Longrightarrow> t \<in> set (B i) \<Longrightarrow> t \<in> A \<and> index (tg h t) = int i"
    "\<And>t. t \<in> A \<Longrightarrow> index (tg h t) < 0 \<Longrightarrow> index (tg h t) = - 1 \<and> next_tag (tg h t) = 0 \<and> prev_tag (tg h t) = 0"
    "\<And>t. t \<in> A \<Longrightarrow> 0 \<le> index (tg h t) \<Longrightarrow> index (tg h t) < 32 \<and> t \<in> set (B (nat (index (tg h t))))"
  using assms unfolding bins_ok_def by (auto split: if_splits)

lemma tag_at_tg: "bins_ok h A B \<Longrightarrow> t \<in> A \<Longrightarrow> tag_at h t = Inr (tg h t)"
  using bins_okD(2,3) [of h A B] by (force simp: tag_at_def tg_def)

lemma tag_at_Some: "tags h t = Some b \<Longrightarrow> t \<noteq> 0 \<Longrightarrow> tag_at h t = Inr b"
  by (simp add: tag_at_def)

lemma tg_set_tag [simp]: "tg (set_tag h p t) a = (if a = p then t else tg h a)"
  by (simp add: tg_def set_tag_def)

lemma tags_set_tag [simp]: "dom (tags (set_tag h p t)) = insert p (dom (tags h))"
  by (simp add: set_tag_def)

text \<open>What the free list operations leave alone.\<close>

definition same_blocks :: "heap \<Rightarrow> heap \<Rightarrow> bool" where
  "same_blocks h h' \<longleftrightarrow> dom (tags h') = dom (tags h) \<and> h_phys h' = h_phys h \<and> hhdm h' = hhdm h \<and>
     l_initialized h' = l_initialized h \<and> length (l_completePages h') = length (l_completePages h) \<and>
     (\<forall>a. magic (tg h' a) = magic (tg h a) \<and> sz (tg h' a) = sz (tg h a) \<and> real_size (tg h' a) = real_size (tg h a) \<and>
        split_left (tg h' a) = split_left (tg h a) \<and> split_right (tg h' a) = split_right (tg h a))"

section \<open>Free lists\<close>

lemma tag_at_dom: "a \<noteq> 0 \<Longrightarrow> a \<in> dom (tags h) \<Longrightarrow> tag_at h a = Inr (tg h a)"
  by (auto simp: tag_at_def tg_def)

lemma bin_mid:
  assumes b: "bins_ok h A B" and i: "i < 32" and s: "B i = xs @ t # ys"
  shows "t \<in> A" "index (tg h t) = int i" "prev_tag (tg h t) = last (0 # xs)" "next_tag (tg h t) = hd (ys @ [0])"
    "l_freePages h ! i = hd (xs @ [t])" "t \<notin> set xs" "t \<notin> set ys" "distinct xs" "distinct ys" "set xs \<inter> set ys = {}"
    "set xs \<subseteq> A" "set ys \<subseteq> A" "t \<noteq> 0" "0 \<notin> set xs" "0 \<notin> set ys"
proof -
  show t: "t \<in> A" "index (tg h t) = int i" using bins_okD(7) [OF b i, of t] s by simp_all
  show "prev_tag (tg h t) = last (0 # xs)" "next_tag (tg h t) = hd (ys @ [0])"
    using linked_mid [OF bins_okD(5) [OF b i, unfolded s]] by simp_all
  show "l_freePages h ! i = hd (xs @ [t])" using bins_okD(6) [OF b i] s by (cases xs) simp_all
  show "t \<notin> set xs" "t \<notin> set ys" "distinct xs" "distinct ys" "set xs \<inter> set ys = {}"
    using bins_okD(4) [OF b i] s by auto
  show x: "set xs \<subseteq> A" "set ys \<subseteq> A" using bins_okD(7) [OF b i] s by auto
  show "t \<noteq> 0" "0 \<notin> set xs" "0 \<notin> set ys" using bins_okD(2) [OF b] t x by auto
qed

definition unlinked :: "(u64 \<Rightarrow> boundary_tag) \<Rightarrow> u64 list \<Rightarrow> u64 \<Rightarrow> u64 list \<Rightarrow> u64 \<Rightarrow> boundary_tag" where
  "unlinked T xs t ys a =
     (if a = t then (T t)\<lparr>next_tag := 0, prev_tag := 0, index := - 1\<rparr>
      else if xs \<noteq> [] \<and> a = last xs then (T a)\<lparr>next_tag := hd (ys @ [0])\<rparr>
      else if ys \<noteq> [] \<and> a = hd ys then (T a)\<lparr>prev_tag := last (0 # xs)\<rparr>
      else T a)"

lemma remove_tag_eq:
  assumes b: "bins_ok h A B" and i: "i < 32" and s: "B i = xs @ t # ys"
  shows "\<exists>h'. remove_tag h t = Inr h' \<and> tg h' = unlinked (tg h) xs t ys \<and> dom (tags h') = dom (tags h) \<and>
    l_freePages h' = (l_freePages h)[i := hd (xs @ ys @ [0])] \<and> l_completePages h' = l_completePages h \<and>
    h_phys h' = h_phys h \<and> hhdm h' = hhdm h \<and> l_initialized h' = l_initialized h"
proof -
  note m = bin_mid [OF b i s]
  define v where "v = (if xs = [] then (l_freePages h)[i := hd (ys @ [0])] else l_freePages h)"
  have v: "v = (l_freePages h)[i := hd (xs @ ys @ [0])]"
    unfolding v_def using m(5) by (cases xs) (simp_all, metis list_update_id)
  define h1 where "h1 = h\<lparr>l_freePages := v\<rparr>"
  have first: "hd (xs @ [t]) = t \<longleftrightarrow> xs = []" using m(6) by (cases xs) auto
  have 1: "(if l_freePages h ! i = t then set_bin h (int i) (next_tag (tg h t)) else Inr h) = Inr h1"
    unfolding h1_def v_def m(4,5) first using i by (simp add: set_bin_ok)
  have t1: "tags h1 = tags h" "tg h1 = tg h" unfolding h1_def tg_def by simp_all
  define h2 where "h2 = (if xs = [] then h1 else set_tag h1 (last xs) ((tg h (last xs))\<lparr>next_tag := hd (ys @ [0])\<rparr>))"
  have lx: "last xs \<in> A \<and> last xs \<noteq> 0 \<and> last xs \<noteq> t" if "xs \<noteq> []"
    using last_in_set [OF that] m(6,11,14) by auto
  have hy: "hd ys \<in> A \<and> hd ys \<noteq> 0 \<and> hd ys \<noteq> t" if "ys \<noteq> []"
    using hd_in_set [OF that] m(7,12,15) by auto
  have xy: "last xs \<noteq> hd ys" if "xs \<noteq> []" "ys \<noteq> []"
    using last_in_set [OF that(1)] hd_in_set [OF that(2)] m(10) by auto
  have live: "u \<noteq> 0" "u \<in> dom (tags h)" if "u \<in> A" for u
    using that bins_okD(2,3) [OF b] by auto
  have at1: "tag_at h1 u = Inr (tg h u)" if "u \<in> A" for u
    using tag_at_dom [of u h1] live [OF that] t1 by simp
  have 2: "(if prev_tag (tg h t) \<noteq> 0 then upd_tag h1 (prev_tag (tg h t)) (\<lambda>p. p\<lparr>next_tag := next_tag (tg h t)\<rparr>) else Inr h1) = Inr h2"
    unfolding m(3,4) h2_def upd_tag_def using lx at1 by simp
  have at2: "tag_at h2 u = Inr (tg h2 u)" if "u \<in> A" for u
    using tag_at_dom [of u h2] live [OF that] t1 by (simp add: h2_def)
  have t2: "tg h2 t = tg h t" "ys \<noteq> [] \<Longrightarrow> tg h2 (hd ys) = tg h (hd ys)" unfolding h2_def using lx xy t1 by auto
  define h3 where "h3 = (if ys = [] then h2 else set_tag h2 (hd ys) ((tg h (hd ys))\<lparr>prev_tag := last (0 # xs)\<rparr>))"
  have 3: "(if next_tag (tg h2 t) \<noteq> 0 then upd_tag h2 (next_tag (tg h2 t)) (\<lambda>n. n\<lparr>prev_tag := prev_tag (tg h2 t)\<rparr>) else Inr h2) = Inr h3"
    unfolding t2(1) m(3,4) h3_def upd_tag_def using hy at2 t2(2) by (cases ys) simp_all
  have t3: "tag_at h3 t = Inr (tg h t)"
    using tag_at_dom [of t h3] live [OF m(1)] t1 t2(1) hy lx by (auto simp: h3_def h2_def)
  define h4 where "h4 = set_tag h3 t ((tg h t)\<lparr>next_tag := 0, prev_tag := 0, index := - 1\<rparr>)"
  have "remove_tag h t = Inr h4"
    unfolding remove_tag_def tag_at_tg [OF b m(1)] bindE_simps m(2) using i 1 2 3 at2 [OF m(1)] t3
    by (simp add: bin_at_ok upd_tag_def h4_def)
  moreover have "tg h4 = unlinked (tg h) xs t ys"
    unfolding h4_def h3_def h2_def unlinked_def using t1 lx hy xy by (auto simp: fun_eq_iff)
  moreover have "dom (tags h4) = dom (tags h)"
    unfolding h4_def h3_def h2_def using t1 lx hy m(1) bins_okD(3) [OF b] by (auto simp: insert_absorb)
  moreover have "l_freePages h4 = v" "l_completePages h4 = l_completePages h" "h_phys h4 = h_phys h" "hhdm h4 = hhdm h"
      "l_initialized h4 = l_initialized h"
    unfolding h4_def h3_def h2_def h1_def by (simp_all add: set_tag_def)
  ultimately show ?thesis unfolding v by blast
qed

lemma remove_tag_ok:
  assumes b: "bins_ok h A B" and i: "i < 32" and s: "B i = xs @ t # ys"
  shows "\<exists>h'. remove_tag h t = Inr h' \<and> bins_ok h' A (B(i := xs @ ys)) \<and> same_blocks h h' \<and>
    l_completePages h' = l_completePages h \<and> index (tg h' t) = - 1 \<and> (\<forall>u. u \<noteq> t \<longrightarrow> index (tg h' u) = index (tg h u))"
proof -
  note m = bin_mid [OF b i s]
  obtain h' where h': "remove_tag h t = Inr h'" "tg h' = unlinked (tg h) xs t ys" "dom (tags h') = dom (tags h)"
    "l_freePages h' = (l_freePages h)[i := hd (xs @ ys @ [0])]" "l_completePages h' = l_completePages h"
    "h_phys h' = h_phys h" "hhdm h' = hhdm h" "l_initialized h' = l_initialized h"
    using remove_tag_eq [OF assms] by blast
  have ix: "index (tg h' u) = (if u = t then - 1 else index (tg h u))" for u
    unfolding h'(2) unlinked_def by simp
  have sb: "same_blocks h h'" unfolding same_blocks_def using h' by (simp add: unlinked_def)
  have out: "tg h' u = tg h u" if "u \<notin> set xs" "u \<notin> set ys" "u \<noteq> t" for u
  proof -
    have "xs \<noteq> [] \<Longrightarrow> u \<noteq> last xs" "ys \<noteq> [] \<Longrightarrow> u \<noteq> hd ys" using that by auto
    then show ?thesis unfolding h'(2) unlinked_def using that(3) by auto
  qed
  have other: "u \<notin> set xs \<and> u \<notin> set ys \<and> u \<noteq> t" if "j < 32" "j \<noteq> i" "u \<in> set (B j)" for u j
  proof -
    have "index (tg h u) = int j" using bins_okD(7) [OF b that(1,3)] by simp
    moreover have "v \<in> set (B i) \<Longrightarrow> index (tg h v) = int i" for v using bins_okD(7) [OF b i] by blast
    ultimately have "u \<notin> set (B i)" using that(2) by auto
    then show ?thesis using s by auto
  qed
  have links: "linked (\<lambda>a. prev_tag (tg h' a)) (\<lambda>a. next_tag (tg h' a)) 0 (xs @ ys) 0"
  proof (rule linked_delete [OF bins_okD(5) [OF b i, unfolded s]])
    show "distinct (xs @ t # ys)" using bins_okD(4) [OF b i] s by simp
    fix u assume u: "u \<in> set xs \<union> set ys"
    then have ut: "u \<noteq> t" using m(6,7) by auto
    have e: "last xs \<noteq> hd ys" if "xs \<noteq> []" "ys \<noteq> []"
      using last_in_set [OF that(1)] hd_in_set [OF that(2)] m(10) by auto
    show "next_tag (tg h' u) = (if xs \<noteq> [] \<and> u = last xs then hd (ys @ [0]) else next_tag (tg h u))"
      unfolding h'(2) unlinked_def using ut by simp
    show "prev_tag (tg h' u) = (if ys \<noteq> [] \<and> u = hd ys then last (0 # xs) else prev_tag (tg h u))"
      unfolding h'(2) unlinked_def using ut e by auto
  qed
  have "bins_ok h' A (B(i := xs @ ys))"
    unfolding bins_ok_def
  proof (intro conjI allI impI ballI)
    show "length (l_freePages h') = 32" using h'(4) bins_okD(1) [OF b] by simp
    show "0 \<notin> A" "A \<subseteq> dom (tags h')" using bins_okD(2,3) [OF b] h'(3) by simp_all
  next
    fix j :: nat assume j: "j < 32"
    show "distinct ((B(i := xs @ ys)) j)" using bins_okD(4) [OF b j] m(8,9,10) by simp
    show "linked (\<lambda>a. prev_tag (tg h' a)) (\<lambda>a. next_tag (tg h' a)) 0 ((B(i := xs @ ys)) j) 0"
    proof (cases "j = i")
      case False
      have "linked (\<lambda>a. prev_tag (tg h' a)) (\<lambda>a. next_tag (tg h' a)) 0 (B j) 0
          = linked (\<lambda>a. prev_tag (tg h a)) (\<lambda>a. next_tag (tg h a)) 0 (B j) 0"
      proof (rule linked_cong)
        fix u assume "u \<in> set (B j)"
        then have "u \<in> A" "u \<notin> set xs \<and> u \<notin> set ys \<and> u \<noteq> t" using bins_okD(7) [OF b j] other [OF j False] by simp_all
        then show "prev_tag (tg h' u) = prev_tag (tg h u) \<and> next_tag (tg h' u) = next_tag (tg h u)" using out by simp
      qed
      then show ?thesis using bins_okD(5) [OF b j] False by simp
    qed (simp add: links)
    show "l_freePages h' ! j = hd ((B(i := xs @ ys)) j @ [0])"
      unfolding h'(4) using bins_okD(1,6) [OF b] j by simp
  next
    fix j u assume j: "j < (32 :: nat)" and u: "u \<in> set ((B(i := xs @ ys)) j)"
    have ut: "u \<noteq> t \<and> u \<in> set (B j)" using u m(6,7) other [OF j] s by (cases "j = i") auto
    show "u \<in> A" "index (tg h' u) = int j" using bins_okD(7) [OF b j, of u] ut ix by simp_all
  next
    fix u assume u: "u \<in> A"
    show "if index (tg h' u) < 0 then index (tg h' u) = - 1 \<and> next_tag (tg h' u) = 0 \<and> prev_tag (tg h' u) = 0
        else index (tg h' u) < 32 \<and> u \<in> set ((B(i := xs @ ys)) (nat (index (tg h' u))))"
    proof (cases "u = t")
      case True
      then show ?thesis unfolding h'(2) unlinked_def by simp
    next
      case False
      show ?thesis
      proof (cases "index (tg h u) < 0")
        case True
        have "v \<in> set (B i) \<Longrightarrow> 0 \<le> index (tg h v)" for v using bins_okD(7) [OF b i] by fastforce
        then have "u \<notin> set (B i)" using True by force
        then have "tg h' u = tg h u" using out [of u] s False by simp
        then show ?thesis using True bins_okD(8) [OF b u] by simp
      next
        case n: False
        then have *: "index (tg h u) < 32" "u \<in> set (B (nat (index (tg h u))))" using bins_okD(9) [OF b u] by simp_all
        have "u \<in> set ((B(i := xs @ ys)) (nat (index (tg h u))))"
          using * False s by (cases "nat (index (tg h u)) = i") auto
        then show ?thesis using ix [of u] False n * by simp
      qed
    qed
  qed
  then show ?thesis using h'(1,5) sb ix by (intro exI [of _ h']) simp
qed

lemma bins_ok_cong:
  assumes "bins_ok h A B" "l_freePages h' = l_freePages h" "A \<subseteq> dom (tags h')"
    "\<And>t. t \<in> A \<Longrightarrow> index (tg h' t) = index (tg h t) \<and> next_tag (tg h' t) = next_tag (tg h t) \<and> prev_tag (tg h' t) = prev_tag (tg h t)"
  shows "bins_ok h' A B"
  unfolding bins_ok_def
proof (intro conjI allI impI ballI)
  note b = bins_okD [OF assms(1)]
  show "length (l_freePages h') = 32" "0 \<notin> A" "A \<subseteq> dom (tags h')" using b(1,2) assms(2,3) by simp_all
  fix i :: nat assume i: "i < 32"
  show "distinct (B i)" "l_freePages h' ! i = hd (B i @ [0])" using b(4,6) i assms(2) by simp_all
  have "linked (\<lambda>a. prev_tag (tg h' a)) (\<lambda>a. next_tag (tg h' a)) 0 (B i) 0 =
      linked (\<lambda>a. prev_tag (tg h a)) (\<lambda>a. next_tag (tg h a)) 0 (B i) 0"
    by (rule linked_cong) (use b(7) i assms(4) in blast)
  then show "linked (\<lambda>a. prev_tag (tg h' a)) (\<lambda>a. next_tag (tg h' a)) 0 (B i) 0" using b(5) i by simp
next
  note b = bins_okD [OF assms(1)]
  fix i :: nat and t assume "i < 32" "t \<in> set (B i)"
  then show "t \<in> A" "index (tg h' t) = int i" using b(7) assms(4) by auto
next
  note b = bins_okD [OF assms(1)]
  fix t assume "t \<in> A"
  then show "if index (tg h' t) < 0 then index (tg h' t) = - 1 \<and> next_tag (tg h' t) = 0 \<and> prev_tag (tg h' t) = 0
      else index (tg h' t) < 32 \<and> t \<in> set (B (nat (index (tg h' t))))"
    using b(8,9) assms(4) by simp
qed

lemma bins_ok_drop:
  assumes "bins_ok h A B" "t \<in> A" "index (tg h t) < 0"
  shows "bins_ok h (A - {t}) B"
proof -
  have "t \<notin> set (B i)" if "i < 32" for i
  proof
    assume "t \<in> set (B i)"
    from bins_okD(7) [OF assms(1) that this] show False using assms(3) by simp
  qed
  then show ?thesis using assms(1) unfolding bins_ok_def by auto
qed

lemma bins_ok_add:
  assumes "bins_ok h A B" "t \<noteq> 0" "t \<in> dom (tags h)" "index (tg h t) = - 1" "next_tag (tg h t) = 0" "prev_tag (tg h t) = 0"
  shows "bins_ok h (insert t A) B"
  using assms unfolding bins_ok_def by auto

lemma insert_tag_eq:
  assumes b: "bins_ok h A B" and t: "t \<notin> A" "t \<noteq> 0" "t \<in> dom (tags h)" "next_tag (tg h t) = 0" and i: "i < 32"
  shows "\<exists>h' r. insert_tag h t i = Inr h' \<and> r < 32 \<and> (0 \<le> i \<longrightarrow> int r = i) \<and>
    (\<forall>a. tg h' a = (if a = t then (tg h t)\<lparr>index := int r, next_tag := hd (B r @ [0])\<rparr>
       else if B r \<noteq> [] \<and> a = hd (B r) then (tg h a)\<lparr>prev_tag := t\<rparr> else tg h a)) \<and>
    dom (tags h') = dom (tags h) \<and> l_freePages h' = (l_freePages h)[r := t] \<and> l_completePages h' = l_completePages h \<and>
    h_phys h' = h_phys h \<and> hhdm h' = hhdm h \<and> l_initialized h' = l_initialized h"
proof -
  define k where "k = (if i < 0 then (if getexp (ucast (ucast (real_size (tg h t)) - tag_size :: u64)) < int MINEXP then int MINEXP
      else getexp (ucast (ucast (real_size (tg h t)) - tag_size :: u64))) else i)"
  have k: "0 \<le> k" "k < 32" "0 \<le> i \<Longrightarrow> k = i"
    unfolding k_def using i getexp_range [of "ucast (ucast (real_size (tg h t)) - tag_size :: u64)"] by (simp_all add: MINEXP_def)
  define r where "r = nat k"
  have r: "int r = k" "r < 32" unfolding r_def using k by simp_all
  define h1 where "h1 = set_tag h t ((tg h t)\<lparr>index := k\<rparr>)"
  have h1: "tag_at h1 t = Inr ((tg h t)\<lparr>index := k\<rparr>)" "l_freePages h1 = l_freePages h"
    unfolding h1_def using t by (simp_all add: set_tag_def tag_at_def)
  have first: "l_freePages h ! r = hd (B r @ [0])" by (rule bins_okD(6) [OF b r(2)])
  define f where "f = hd (B r @ [0])"
  have f: "f \<in> A \<and> f \<noteq> 0 \<and> f \<noteq> t \<and> f \<in> dom (tags h)" if "B r \<noteq> []"
  proof -
    have "f \<in> set (B r)" unfolding f_def using that by simp
    then have "f \<in> A" using bins_okD(7) [OF b r(2)] by blast
    then show ?thesis using bins_okD(2,3) [OF b] t(1) by auto
  qed
  have f0: "f \<noteq> 0 \<longleftrightarrow> B r \<noteq> []" using f by (cases "B r = []") (auto simp: f_def)
  define h3 where "h3 = (if B r = [] then h1 else set_tag (set_tag h1 f ((tg h f)\<lparr>prev_tag := t\<rparr>)) t ((tg h t)\<lparr>index := k, next_tag := f\<rparr>))"
  have 3: "(if f \<noteq> 0 then bindE (upd_tag h1 f (\<lambda>f. f\<lparr>prev_tag := t\<rparr>)) (\<lambda>h2. upd_tag h2 t (\<lambda>t. t\<lparr>next_tag := f\<rparr>)) else Inr h1) = Inr h3"
  proof (cases "B r = []")
    case False
    have "tag_at h1 f = Inr (tg h f)" using tag_at_dom [of f h1] f [OF False] by (simp add: h1_def)
    moreover have "tag_at (set_tag h1 f ((tg h f)\<lparr>prev_tag := t\<rparr>)) t = Inr ((tg h t)\<lparr>index := k\<rparr>)"
      using h1(1) f [OF False] t(2) by (auto simp: tag_at_def set_tag_def)
    ultimately show ?thesis unfolding h3_def upd_tag_def using f0 False by simp
  qed (use f0 in \<open>simp add: h3_def\<close>)
  define h4 where "h4 = h3\<lparr>l_freePages := (l_freePages h)[r := t]\<rparr>"
  have h3: "l_freePages h3 = l_freePages h" unfolding h3_def using h1(2) by (simp add: set_tag_def)
  have "insert_tag h t i = Inr h4"
    unfolding insert_tag_def tag_at_dom [OF t(2,3)] bindE_simps Let_def k_def [symmetric]
    using tag_at_dom [OF t(2,3)] bin_at_ok [OF k(1,2), of h1] h1(2) first r(1) 3
    unfolding upd_tag_def h1_def [symmetric] f_def [symmetric] r_def [symmetric]
    by (simp add: h1_def [symmetric] set_bin_ok [OF k(1,2)] h4_def h3 r_def [symmetric])
  moreover have "tg h4 a = (if a = t then (tg h t)\<lparr>index := int r, next_tag := hd (B r @ [0])\<rparr>
       else if B r \<noteq> [] \<and> a = hd (B r) then (tg h a)\<lparr>prev_tag := t\<rparr> else tg h a)" for a
  proof -
    have "tg h4 = tg h3" unfolding h4_def tg_def by simp
    moreover have "(tg h t)\<lparr>index := k\<rparr> = (tg h t)\<lparr>index := k, next_tag := 0\<rparr>" using t(4) by simp
    ultimately show ?thesis unfolding h3_def h1_def r(1) f_def by (cases "B r") simp_all
  qed
  moreover have "dom (tags h4) = dom (tags h)"
    unfolding h4_def h3_def h1_def using t(3) f by (simp add: insert_absorb)
  moreover have "l_freePages h4 = (l_freePages h)[r := t]" "l_completePages h4 = l_completePages h"
      "h_phys h4 = h_phys h" "hhdm h4 = hhdm h" "l_initialized h4 = l_initialized h"
    unfolding h4_def h3_def h1_def by (simp_all add: set_tag_def)
  ultimately show ?thesis using r k(3) by blast
qed

lemma insert_tag_ok:
  assumes b: "bins_ok h A B" and t: "t \<notin> A" "t \<noteq> 0" "t \<in> dom (tags h)" "next_tag (tg h t) = 0" "prev_tag (tg h t) = 0"
    and i: "i < 32"
  shows "\<exists>h' r. insert_tag h t i = Inr h' \<and> r < 32 \<and> (0 \<le> i \<longrightarrow> int r = i) \<and>
    bins_ok h' (insert t A) (B(r := t # B r)) \<and> same_blocks h h' \<and> l_completePages h' = l_completePages h \<and>
    index (tg h' t) = int r \<and> (\<forall>u. u \<noteq> t \<longrightarrow> index (tg h' u) = index (tg h u))"
proof -
  obtain h' r where h': "insert_tag h t i = Inr h'" "r < 32" "0 \<le> i \<longrightarrow> int r = i"
    "\<And>a. tg h' a = (if a = t then (tg h t)\<lparr>index := int r, next_tag := hd (B r @ [0])\<rparr>
       else if B r \<noteq> [] \<and> a = hd (B r) then (tg h a)\<lparr>prev_tag := t\<rparr> else tg h a)"
    "dom (tags h') = dom (tags h)" "l_freePages h' = (l_freePages h)[r := t]" "l_completePages h' = l_completePages h"
    "h_phys h' = h_phys h" "hhdm h' = hhdm h" "l_initialized h' = l_initialized h"
    using insert_tag_eq [OF b t(1-4) i] by blast
  have ix: "index (tg h' u) = (if u = t then int r else index (tg h u))" for u unfolding h'(4) by simp
  have sb: "same_blocks h h'" unfolding same_blocks_def using h'(5-10) by (simp add: h'(4))
  have tB: "t \<notin> set (B j)" if "j < 32" for j using bins_okD(7) [OF b that] t(1) by blast
  have hr: "hd (B r) \<in> set (B r)" if "B r \<noteq> []" using that by simp
  have "bins_ok h' (insert t A) (B(r := t # B r))"
    unfolding bins_ok_def
  proof (intro conjI allI impI ballI)
    show "length (l_freePages h') = 32" using h'(6) bins_okD(1) [OF b] by simp
    show "0 \<notin> insert t A" "insert t A \<subseteq> dom (tags h')" using bins_okD(2,3) [OF b] t(2,3) h'(5) by auto
  next
    fix j :: nat assume j: "j < 32"
    show "distinct ((B(r := t # B r)) j)" using bins_okD(4) [OF b j] tB [OF j] by (cases "j = r") simp_all
    show "l_freePages h' ! j = hd ((B(r := t # B r)) j @ [0])"
      unfolding h'(6) using bins_okD(1,6) [OF b] j by simp
    have other: "u \<noteq> hd (B r)" if "j \<noteq> r" "B r \<noteq> []" "u \<in> set (B j)" for u
      using bins_okD(7) [OF b j that(3)] bins_okD(7) [OF b h'(2) hr [OF that(2)]] that(1) by auto
    show "linked (\<lambda>a. prev_tag (tg h' a)) (\<lambda>a. next_tag (tg h' a)) 0 ((B(r := t # B r)) j) 0"
    proof (cases "j = r")
      case True
      have "linked (\<lambda>a. prev_tag (tg h' a)) (\<lambda>a. next_tag (tg h' a)) t (B r) 0"
      proof (rule linked_new_left [OF bins_okD(5) [OF b h'(2)] bins_okD(4) [OF b h'(2)]])
        fix u assume u: "u \<in> set (B r)"
        then have "u \<noteq> t" using tB [OF h'(2)] by auto
        moreover have "B r \<noteq> []" using u by auto
        ultimately show "next_tag (tg h' u) = next_tag (tg h u) \<and> prev_tag (tg h' u) = (if u = hd (B r) then t else prev_tag (tg h u))"
          unfolding h'(4) by simp
      qed
      moreover have "prev_tag (tg h' t) = 0" "next_tag (tg h' t) = hd (B r @ [0])" unfolding h'(4) using t(5) by simp_all
      ultimately show ?thesis using True by simp
    next
      case False
      have "linked (\<lambda>a. prev_tag (tg h' a)) (\<lambda>a. next_tag (tg h' a)) 0 (B j) 0
          = linked (\<lambda>a. prev_tag (tg h a)) (\<lambda>a. next_tag (tg h a)) 0 (B j) 0"
      proof (rule linked_cong)
        fix u assume u: "u \<in> set (B j)"
        then have "u \<noteq> t" using tB [OF j] by auto
        then show "prev_tag (tg h' u) = prev_tag (tg h u) \<and> next_tag (tg h' u) = next_tag (tg h u)"
          unfolding h'(4) using other [OF False _ u] by auto
      qed
      then show ?thesis using bins_okD(5) [OF b j] False by simp
    qed
  next
    fix j u assume j: "j < (32 :: nat)" and u: "u \<in> set ((B(r := t # B r)) j)"
    show "u \<in> insert t A" "index (tg h' u) = int j"
      using u bins_okD(7) [OF b j, of u] tB [OF j] ix [of u] by (auto split: if_splits)
  next
    fix u assume u: "u \<in> insert t A"
    show "if index (tg h' u) < 0 then index (tg h' u) = - 1 \<and> next_tag (tg h' u) = 0 \<and> prev_tag (tg h' u) = 0
        else index (tg h' u) < 32 \<and> u \<in> set ((B(r := t # B r)) (nat (index (tg h' u))))"
    proof (cases "u = t")
      case True
      then show ?thesis unfolding ix using h'(2) by simp
    next
      case False
      then have uA: "u \<in> A" using u by simp
      show ?thesis
      proof (cases "index (tg h u) < 0")
        case True
        have "B r \<noteq> [] \<Longrightarrow> u \<noteq> hd (B r)" using bins_okD(7) [OF b h'(2) hr] True by auto
        then have "tg h' u = tg h u" unfolding h'(4) using False by auto
        then show ?thesis using True bins_okD(8) [OF b uA] by simp
      next
        case n: False
        then have *: "index (tg h u) < 32" "u \<in> set (B (nat (index (tg h u))))" using bins_okD(9) [OF b uA] by simp_all
        then show ?thesis using ix [of u] False n by auto
      qed
    qed
  qed
  then show ?thesis using h'(1-3,7) sb ix by (intro exI [of _ h'] exI [of _ r]) simp
qed

section \<open>Runs of pages\<close>

text \<open>
  The runs taken from the page allocator, by the number of their first page: the number of pages and the
  tags, in the order of their addresses.
\<close>

type_synonym runs = "nat \<Rightarrow> (nat \<times> u64 list) option"

definition tags_of :: "runs \<Rightarrow> u64 set" where
  "tags_of C = {t. \<exists>p n ts. C p = Some (n, ts) \<and> t \<in> set ts}"

definition tsize :: "heap \<Rightarrow> u64 \<Rightarrow> nat" where
  "tsize h t = unat (real_size (tg h t))"

definition run_at :: "heap \<Rightarrow> nat \<Rightarrow> nat" where
  "run_at h p = unat (hhdm h) + 4096 * p"

definition run_tags :: "heap \<Rightarrow> nat \<Rightarrow> nat \<Rightarrow> u64 list \<Rightarrow> bool" where
  "run_tags h p n ts \<longleftrightarrow> tiles (tsize h) (run_at h p) ts (run_at h (p + n)) \<and>
     linked (\<lambda>a. split_left (tg h a)) (\<lambda>a. split_right (tg h a)) 0 ts 0 \<and>
     (\<forall>t \<in> set ts. magic (tg h t) = LIBALLOC_MAGIC \<and> 48 \<le> tsize h t)"

definition run_pages :: "heap \<Rightarrow> nat \<Rightarrow> nat \<Rightarrow> bool" where
  "run_pages h p n \<longleftrightarrow> 1 \<le> p \<and> 16 \<le> n \<and> n < 2 ^ 19 \<and> p + n \<le> pm_total (h_phys h) \<and>
     {p..<p + n} \<inter> pm_free (h_phys h) = {}"

definition runs_ok :: "heap \<Rightarrow> runs \<Rightarrow> bool" where
  "runs_ok h C \<longleftrightarrow> pm_ok (h_phys h) \<and> unat (hhdm h) + 4096 * pm_total (h_phys h) < 2 ^ 64 \<and>
     (\<forall>p n ts. C p = Some (n, ts) \<longrightarrow> run_pages h p n \<and> run_tags h p n ts) \<and>
     (\<forall>p q n m ts us. C p = Some (n, ts) \<longrightarrow> C q = Some (m, us) \<longrightarrow> p \<noteq> q \<longrightarrow> {p..<p + n} \<inter> {q..<q + m} = {})"

definition heap_ok :: "heap \<Rightarrow> runs \<Rightarrow> (nat \<Rightarrow> u64 list) \<Rightarrow> bool" where
  "heap_ok h C B \<longleftrightarrow> l_initialized h \<and> length (l_completePages h) = 32 \<and> runs_ok h C \<and> bins_ok h (tags_of C) B"

lemma runs_okD:
  assumes "runs_ok h C"
  shows "pm_ok (h_phys h)" "unat (hhdm h) + 4096 * pm_total (h_phys h) < 2 ^ 64"
    "\<And>p n ts. C p = Some (n, ts) \<Longrightarrow> run_pages h p n"
    "\<And>p n ts. C p = Some (n, ts) \<Longrightarrow> run_tags h p n ts"
    "\<And>p q n m ts us. C p = Some (n, ts) \<Longrightarrow> C q = Some (m, us) \<Longrightarrow> p \<noteq> q \<Longrightarrow> {p..<p + n} \<inter> {q..<q + m} = {}"
  using assms unfolding runs_ok_def by blast+

lemma run_tagsD:
  assumes "run_tags h p n ts"
  shows "tiles (tsize h) (run_at h p) ts (run_at h (p + n))"
    "linked (\<lambda>a. split_left (tg h a)) (\<lambda>a. split_right (tg h a)) 0 ts 0"
    "\<And>t. t \<in> set ts \<Longrightarrow> magic (tg h t) = LIBALLOC_MAGIC" "\<And>t. t \<in> set ts \<Longrightarrow> 48 \<le> tsize h t"
    "distinct ts" "\<And>t. t \<in> set ts \<Longrightarrow> run_at h p \<le> unat t \<and> unat t + tsize h t \<le> run_at h (p + n)"
proof -
  show t: "tiles (tsize h) (run_at h p) ts (run_at h (p + n))"
    "linked (\<lambda>a. split_left (tg h a)) (\<lambda>a. split_right (tg h a)) 0 ts 0"
    "\<And>t. t \<in> set ts \<Longrightarrow> magic (tg h t) = LIBALLOC_MAGIC" and s: "\<And>t. t \<in> set ts \<Longrightarrow> 48 \<le> tsize h t"
    using assms unfolding run_tags_def by blast+
  show "distinct ts" by (rule tiles_distinct [OF t(1)]) (use s in force)
  show "\<And>t. t \<in> set ts \<Longrightarrow> run_at h p \<le> unat t \<and> unat t + tsize h t \<le> run_at h (p + n)"
    by (rule tiles_in [OF t(1)])
qed

lemma run_of_tag:
  assumes r: "runs_ok h C" and p: "C p = Some (n, ts)" "t \<in> set ts" and q: "C q = Some (m, us)" "t \<in> set us"
  shows "p = q"
proof (rule ccontr)
  assume n: "p \<noteq> q"
  define k where "k = (unat t - unat (hhdm h)) div 4096"
  have in_run: "k \<in> {p..<p + n}" if "C p = Some (n, ts)" "t \<in> set ts" for p n ts
  proof -
    have l: "unat (hhdm h) + 4096 * p \<le> unat t" "unat t + 48 \<le> unat (hhdm h) + 4096 * (p + n)"
      using run_tagsD(4,6) [OF runs_okD(4) [OF r that(1)] that(2)] unfolding run_at_def by simp_all
    have "4096 * p \<le> unat t - unat (hhdm h)" "unat t - unat (hhdm h) < 4096 * (p + n)" using l by linarith+
    then have "p \<le> k" "k < p + n" unfolding k_def by (simp_all add: div_le_mono less_mult_imp_div_less div_less_iff_less_mult less_eq_div_iff_mult_less_eq mult.commute)
    then show ?thesis by simp
  qed
  show False using runs_okD(5) [OF r p(1) q(1) n] in_run [OF p] in_run [OF q] by blast
qed

lemma tag_position:
  assumes "t \<in> tags_of C"
  obtains p n xs ys where "C p = Some (n, xs @ t # ys)"
proof -
  obtain p n ts where c: "C p = Some (n, ts)" "t \<in> set ts" using assms unfolding tags_of_def by blast
  obtain xs ys where "ts = xs @ t # ys" using split_list [OF c(2)] by blast
  then show thesis using that c(1) by blast
qed

lemma tags_of_update:
  assumes r: "runs_ok h C" and p: "C p = Some (n, ts)"
  shows "tags_of (C(p \<mapsto> (n, us))) = (tags_of C - set ts) \<union> set us" "tags_of (C(p := None)) = tags_of C - set ts"
proof -
  have *: "q \<noteq> p \<and> C q = Some (m, vs) \<and> t \<in> set vs \<longrightarrow> t \<notin> set ts" for q m vs t
    using run_of_tag [OF r p] by blast
  have other: "x \<in> tags_of C \<and> x \<notin> set ts \<longleftrightarrow> (\<exists>q m vs. q \<noteq> p \<and> C q = Some (m, vs) \<and> x \<in> set vs)" for x
  proof
    assume x: "x \<in> tags_of C \<and> x \<notin> set ts"
    then obtain q m vs where q: "C q = Some (m, vs)" "x \<in> set vs" unfolding tags_of_def by blast
    then have "q \<noteq> p" using x p by auto
    then show "\<exists>q m vs. q \<noteq> p \<and> C q = Some (m, vs) \<and> x \<in> set vs" using q by blast
  next
    assume "\<exists>q m vs. q \<noteq> p \<and> C q = Some (m, vs) \<and> x \<in> set vs"
    then show "x \<in> tags_of C \<and> x \<notin> set ts" using * unfolding tags_of_def by blast
  qed
  show "tags_of (C(p \<mapsto> (n, us))) = (tags_of C - set ts) \<union> set us"
  proof (rule set_eqI)
    fix x
    have "x \<in> tags_of (C(p \<mapsto> (n, us))) \<longleftrightarrow> x \<in> set us \<or> (\<exists>q m vs. q \<noteq> p \<and> C q = Some (m, vs) \<and> x \<in> set vs)"
      unfolding tags_of_def by (auto split: if_splits)
    then show "x \<in> tags_of (C(p \<mapsto> (n, us))) \<longleftrightarrow> x \<in> (tags_of C - set ts) \<union> set us" using other [of x] by blast
  qed
  show "tags_of (C(p := None)) = tags_of C - set ts"
  proof (rule set_eqI)
    fix x
    have "x \<in> tags_of (C(p := None)) \<longleftrightarrow> (\<exists>q m vs. q \<noteq> p \<and> C q = Some (m, vs) \<and> x \<in> set vs)"
      unfolding tags_of_def by (auto split: if_splits)
    then show "x \<in> tags_of (C(p := None)) \<longleftrightarrow> x \<in> tags_of C - set ts" using other [of x] by blast
  qed
qed

text \<open>Runs whose tags are as they were.\<close>

definition same_tag :: "heap \<Rightarrow> heap \<Rightarrow> u64 \<Rightarrow> bool" where
  "same_tag h h' a \<longleftrightarrow> magic (tg h' a) = magic (tg h a) \<and> real_size (tg h' a) = real_size (tg h a) \<and>
     split_left (tg h' a) = split_left (tg h a) \<and> split_right (tg h' a) = split_right (tg h a)"

lemma run_tags_cong:
  assumes "run_tags h p n ts" "hhdm h' = hhdm h" "\<And>t. t \<in> set ts \<Longrightarrow> same_tag h h' t"
  shows "run_tags h' p n ts"
proof -
  have s: "tsize h' t = tsize h t" if "t \<in> set ts" for t using assms(3) [OF that] by (simp add: tsize_def same_tag_def)
  have a: "run_at h' = run_at h" unfolding run_at_def assms(2) ..
  show ?thesis
    unfolding run_tags_def a
  proof (intro conjI ballI)
    show "tiles (tsize h') (run_at h p) ts (run_at h (p + n))"
      using run_tagsD(1) [OF assms(1)] tiles_cong [of ts "tsize h'" "tsize h"] s by simp
    show "linked (\<lambda>a. split_left (tg h' a)) (\<lambda>a. split_right (tg h' a)) 0 ts 0"
      using run_tagsD(2) [OF assms(1)] assms(3)
      by (subst linked_cong [of ts _ "\<lambda>a. split_left (tg h a)" _ "\<lambda>a. split_right (tg h a)"]) (simp_all add: same_tag_def)
    fix t assume t: "t \<in> set ts"
    show "magic (tg h' t) = LIBALLOC_MAGIC" using run_tagsD(3) [OF assms(1) t] assms(3) [OF t] by (simp add: same_tag_def)
    show "48 \<le> tsize h' t" using run_tagsD(4) [OF assms(1) t] s [OF t] by simp
  qed
qed

lemma runs_ok_replace:
  assumes r: "runs_ok h C" and p: "C p = Some (n, ts)" and h: "h_phys h' = h_phys h" "hhdm h' = hhdm h"
    and s: "\<And>t. t \<in> tags_of C \<Longrightarrow> t \<notin> set ts \<Longrightarrow> same_tag h h' t" and n: "run_tags h' p n us"
  shows "runs_ok h' (C(p \<mapsto> (n, us)))"
  unfolding runs_ok_def
proof (intro conjI allI impI)
  show "pm_ok (h_phys h')" "unat (hhdm h') + 4096 * pm_total (h_phys h') < 2 ^ 64"
    unfolding h by (rule runs_okD [OF r])+
  fix q m vs assume q: "(C(p \<mapsto> (n, us))) q = Some (m, vs)"
  show "run_pages h' q m"
    using q runs_okD(3) [OF r, of q m vs] runs_okD(3) [OF r p] unfolding run_pages_def h by (auto split: if_splits)
  show "run_tags h' q m vs"
  proof (cases "q = p")
    case True
    then show ?thesis using q n by simp
  next
    case False
    then have c: "C q = Some (m, vs)" using q by simp
    show ?thesis
    proof (rule run_tags_cong [OF runs_okD(4) [OF r c] h(2)])
      fix t assume t: "t \<in> set vs"
      then have "t \<in> tags_of C" using c unfolding tags_of_def by blast
      moreover have "t \<notin> set ts" using run_of_tag [OF r c t p] False by blast
      ultimately show "same_tag h h' t" by (rule s)
    qed
  qed
next
  fix q q' m m' vs ws assume "(C(p \<mapsto> (n, us))) q = Some (m, vs)" "(C(p \<mapsto> (n, us))) q' = Some (m', ws)" "q \<noteq> q'"
  then show "{q..<q + m} \<inter> {q'..<q' + m'} = {}"
    using runs_okD(5) [OF r] p by (auto split: if_splits)
qed

lemma runs_ok_same_blocks:
  assumes "runs_ok h C" "same_blocks h h'"
  shows "runs_ok h' C"
proof -
  have s: "same_tag h h' t" for t using assms(2) unfolding same_blocks_def same_tag_def by simp
  have h: "h_phys h' = h_phys h" "hhdm h' = hhdm h" using assms(2) unfolding same_blocks_def by simp_all
  show ?thesis
    unfolding runs_ok_def
  proof (intro conjI allI impI)
    show "pm_ok (h_phys h')" "unat (hhdm h') + 4096 * pm_total (h_phys h') < 2 ^ 64"
      unfolding h by (rule runs_okD [OF assms(1)])+
    fix p n ts assume p: "C p = Some (n, ts)"
    show "run_pages h' p n" using runs_okD(3) [OF assms(1) p] unfolding run_pages_def h .
    show "run_tags h' p n ts" by (rule run_tags_cong [OF runs_okD(4) [OF assms(1) p] h(2) s])
  next
    fix p q n m ts us assume "C p = Some (n, ts)" "C q = Some (m, us)" "p \<noteq> q"
    then show "{p..<p + n} \<inter> {q..<q + m} = {}" by (rule runs_okD(5) [OF assms(1)])
  qed
qed

end
