(* ===== verification/Heap_Free.thy ===== *)
theory Heap_Free
  imports Heap_Invariant
begin

text \<open>
  Releasing a block, \<^verbatim>\<open>free\<close> of \<^verbatim>\<open>src/src/mm/liballoc.cpp\<close>, on a heap that satisfies the invariant: the merging
  loops end, the merged tag goes into its list or its pages back to the page allocator, and nobody
  else's block is touched.
\<close>

section \<open>Blocks\<close>


lemma heap_okD:
  assumes "heap_ok h C B"
  shows "l_initialized h" "length (l_completePages h) = 32" "runs_ok h C" "bins_ok h (tags_of C) B"
  using assms unfolding heap_ok_def by simp_all

lemma heap_tag:
  assumes "heap_ok h C B" "t \<in> tags_of C"
  shows "t \<noteq> 0" "t \<in> dom (tags h)" "tag_at h t = Inr (tg h t)"
  using bins_okD(2,3) [OF heap_okD(4) [OF assms(1)]] tag_at_tg [OF heap_okD(4) [OF assms(1)] assms(2)] assms(2) by auto

lemma run_tag_in: "C p = Some (n, ts) \<Longrightarrow> t \<in> set ts \<Longrightarrow> t \<in> tags_of C"
  unfolding tags_of_def by blast

definition used :: "heap \<Rightarrow> runs \<Rightarrow> u64 set" where
  "used h C = {t \<in> tags_of C. index (tg h t) < 0}"

text \<open>Other callers' blocks are as they were.\<close>

definition keeps :: "u64 set \<Rightarrow> heap \<Rightarrow> heap \<Rightarrow> bool" where
  "keeps U h h' \<longleftrightarrow> (\<forall>u \<in> U. real_size (tg h' u) = real_size (tg h u) \<and> sz (tg h' u) = sz (tg h u))"

section \<open>Taking a tag out of its list\<close>

lemma heap_remove_tag:
  assumes h: "heap_ok h C B" and t: "t \<in> tags_of C" "0 \<le> index (tg h t)"
  shows "\<exists>h' B'. remove_tag h t = Inr h' \<and> heap_ok h' C B' \<and> same_blocks h h' \<and> l_completePages h' = l_completePages h \<and>
    index (tg h' t) = - 1 \<and> (\<forall>u. u \<noteq> t \<longrightarrow> index (tg h' u) = index (tg h u))"
proof -
  note b = heap_okD(4) [OF h]
  define i where "i = nat (index (tg h t))"
  have i: "i < 32" "t \<in> set (B i)" using bins_okD(9) [OF b t] t(2) unfolding i_def by (simp_all add: nat_less_iff)
  obtain xs ys where "B i = xs @ t # ys" using split_list [OF i(2)] by blast
  from remove_tag_ok [OF b i(1) this] obtain h' where h': "remove_tag h t = Inr h'" "bins_ok h' (tags_of C) (B(i := xs @ ys))"
    "same_blocks h h'" "l_completePages h' = l_completePages h" "index (tg h' t) = - 1"
    "\<forall>u. u \<noteq> t \<longrightarrow> index (tg h' u) = index (tg h u)" by blast
  have "heap_ok h' C (B(i := xs @ ys))"
    unfolding heap_ok_def using heap_okD(1,2) [OF h] runs_ok_same_blocks [OF heap_okD(3) [OF h] h'(3)] h'(2,4) h'(3)
    by (simp add: same_blocks_def)
  then show ?thesis using h' by blast
qed

section \<open>Merging neighbours\<close>

definition merged :: "heap \<Rightarrow> u64 \<Rightarrow> u64 \<Rightarrow> u64 list \<Rightarrow> heap" where
  "merged h a b ys =
     (let h1 = set_tag h a ((tg h a)\<lparr>real_size := real_size (tg h a) + real_size (tg h b), split_right := split_right (tg h b)\<rparr>)
      in if ys = [] then h1 else set_tag h1 (hd ys) ((tg h (hd ys))\<lparr>split_left := a\<rparr>))"

lemma run_size_bound:
  assumes "run_pages h p n" "run_tags h p n ts" "t \<in> set ts"
  shows "tsize h t < 2 ^ 31"
proof -
  have "unat t + tsize h t \<le> run_at h (p + n)" "run_at h p \<le> unat t" using run_tagsD(6) [OF assms(2,3)] by simp_all
  then have "tsize h t \<le> 4096 * n" unfolding run_at_def by simp
  then show ?thesis using assms(1) unfolding run_pages_def by simp
qed

lemma run_neighbours:
  assumes "run_tags h p n (xs @ a # b # ys)"
  shows "split_left (tg h b) = a" "split_right (tg h b) = hd (ys @ [0])" "split_left (tg h a) = last (0 # xs)" "split_right (tg h a) = b"
proof -
  have l: "linked (\<lambda>a. split_left (tg h a)) (\<lambda>a. split_right (tg h a)) 0 ((xs @ [a]) @ b # ys) 0"
    using run_tagsD(2) [OF assms] by simp
  show "split_left (tg h b) = a" "split_right (tg h b) = hd (ys @ [0])" using linked_mid [OF l] by simp_all
  show "split_left (tg h a) = last (0 # xs)" "split_right (tg h a) = b"
    using linked_mid [OF run_tagsD(2) [OF assms]] by simp_all
qed

lemma merge_ok:
  assumes h: "heap_ok h C B" and p: "C p = Some (n, xs @ a # b # ys)" and b: "index (tg h b) < 0"
  shows "heap_ok (merged h a b ys) (C(p \<mapsto> (n, xs @ a # ys))) B" "tags_of (C(p \<mapsto> (n, xs @ a # ys))) = tags_of C - {b}"
    "index (tg (merged h a b ys) u) = index (tg h u)" "sz (tg (merged h a b ys) u) = sz (tg h u)"
    "u \<noteq> a \<Longrightarrow> real_size (tg (merged h a b ys) u) = real_size (tg h u)" "l_completePages (merged h a b ys) = l_completePages h"
proof -
  let ?h = "merged h a b ys"
  note r = heap_okD(3) [OF h]
  note rt = run_tagsD [OF runs_okD(4) [OF r p]] and rp = runs_okD(3) [OF r p]
  have d: "distinct (xs @ a # b # ys)" by (rule rt(5))
  have hy: "hd ys \<in> set ys \<and> hd ys \<noteq> a \<and> hd ys \<noteq> b" if "ys \<noteq> []" using hd_in_set [OF that] d by auto
  have T: "tg ?h u = (if ys \<noteq> [] \<and> u = hd ys then (tg h u)\<lparr>split_left := a\<rparr>
      else if u = a then (tg h a)\<lparr>real_size := real_size (tg h a) + real_size (tg h b), split_right := split_right (tg h b)\<rparr>
      else tg h u)" for u
    unfolding merged_def Let_def by simp
  show ix: "index (tg ?h u) = index (tg h u)" for u unfolding T by simp
  show "sz (tg ?h u) = sz (tg h u)" unfolding T by simp
  show "u \<noteq> a \<Longrightarrow> real_size (tg ?h u) = real_size (tg h u)" unfolding T by simp
  have fields: "h_phys ?h = h_phys h" "hhdm ?h = hhdm h" "l_freePages ?h = l_freePages h" "l_initialized ?h = l_initialized h"
    and comp: "l_completePages ?h = l_completePages h" unfolding merged_def Let_def by (simp_all add: set_tag_def)
  show "l_completePages ?h = l_completePages h" by (rule comp)
  have mem: "u \<in> tags_of C" if "u \<in> set (xs @ a # b # ys)" for u using run_tag_in [of C p n "xs @ a # b # ys" u] p that by blast
  show A: "tags_of (C(p \<mapsto> (n, xs @ a # ys))) = tags_of C - {b}"
    unfolding tags_of_update(1) [OF r p] using mem d by auto
  have ab: "a \<in> tags_of C" "b \<in> tags_of C" by (rule mem; simp)+
  have ba: "a \<noteq> b" using d by auto
  have size: "tsize ?h a = tsize h a + tsize h b"
  proof -
    have "tsize h a < 2 ^ 31" "tsize h b < 2 ^ 31" using run_size_bound [OF rp runs_okD(4) [OF r p]] by simp_all
    moreover have "real_size (tg ?h a) = real_size (tg h a) + real_size (tg h b)" unfolding T using hy by auto
    ultimately show ?thesis unfolding tsize_def by (simp add: unat_add_nowrap)
  qed
  have size': "tsize ?h u = tsize h u" if "u \<noteq> a" for u unfolding tsize_def T using that by simp
  have "run_tags ?h p n (xs @ a # ys)"
    unfolding run_tags_def
  proof (intro conjI ballI)
    have ra: "run_at ?h = run_at h" unfolding run_at_def fields ..
    obtain m where m: "tiles (tsize h) (run_at h p) xs m" "unat a = m" "unat b = m + tsize h a"
      "tiles (tsize h) (m + tsize h a + tsize h b) ys (run_at h (p + n))"
      using rt(1) unfolding tiles_append by auto
    have e: "tiles (tsize ?h) A ts E = tiles (tsize h) A ts E" if "a \<notin> set ts" for A ts E
      by (rule tiles_cong) (use size' that in metis)
    have "tiles (tsize ?h) (run_at h p) xs m" using m(1) e [of xs] d by simp
    moreover have "tiles (tsize ?h) (m + tsize ?h a) ys (run_at h (p + n))"
      using m(4) e [of ys] d unfolding size by (simp add: add.assoc)
    ultimately show "tiles (tsize ?h) (run_at ?h p) (xs @ a # ys) (run_at ?h (p + n))"
      unfolding ra tiles_append using m(2) by auto
    have b': "split_right (tg h b) = hd (ys @ [0])" by (rule run_neighbours [OF runs_okD(4) [OF r p]])
    have "linked (\<lambda>u. split_left (tg ?h u)) (\<lambda>u. split_right (tg ?h u)) 0 ((xs @ [a]) @ ys) 0"
    proof (rule linked_delete [where t = b])
      show "linked (\<lambda>u. split_left (tg h u)) (\<lambda>u. split_right (tg h u)) 0 ((xs @ [a]) @ b # ys) 0" using rt(2) by simp
      show "distinct ((xs @ [a]) @ b # ys)" using d by simp
      fix u assume "u \<in> set (xs @ [a]) \<union> set ys"
      show "split_right (tg ?h u) = (if xs @ [a] \<noteq> [] \<and> u = last (xs @ [a]) then hd (ys @ [0]) else split_right (tg h u))"
        unfolding T using b' hy by auto
      show "split_left (tg ?h u) = (if ys \<noteq> [] \<and> u = hd ys then last (0 # xs @ [a]) else split_left (tg h u))"
        unfolding T by simp
    qed
    then show "linked (\<lambda>u. split_left (tg ?h u)) (\<lambda>u. split_right (tg ?h u)) 0 (xs @ a # ys) 0" by simp
    fix u assume u: "u \<in> set (xs @ a # ys)"
    then show "magic (tg ?h u) = LIBALLOC_MAGIC" unfolding T using rt(3) hy by auto
    show "48 \<le> tsize ?h u" using u rt(4) [of a] rt(4) [of u] size size' by (cases "u = a") auto
  qed
  then have "runs_ok ?h (C(p \<mapsto> (n, xs @ a # ys)))"
  proof (rule runs_ok_replace [OF r p fields(1,2), rotated])
    fix u assume "u \<in> tags_of C" "u \<notin> set (xs @ a # b # ys)"
    then show "same_tag h ?h u" unfolding same_tag_def T using hy by auto
  qed
  moreover have "bins_ok ?h (tags_of C - {b}) B"
  proof (rule bins_ok_cong [OF bins_ok_drop [OF heap_okD(4) [OF h] ab(2) b] fields(3)])
    show "tags_of C - {b} \<subseteq> dom (tags ?h)"
      unfolding merged_def Let_def using bins_okD(3) [OF heap_okD(4) [OF h]] by auto
    fix u show "index (tg ?h u) = index (tg h u) \<and> next_tag (tg ?h u) = next_tag (tg h u) \<and> prev_tag (tg ?h u) = prev_tag (tg h u)"
      unfolding T by simp
  qed
  ultimately show "heap_ok ?h (C(p \<mapsto> (n, xs @ a # ys))) B"
    unfolding heap_ok_def A using heap_okD(1,2) [OF h] fields comp by simp
qed

lemma melt_left_eq:
  assumes h: "heap_ok h C B" and p: "C p = Some (n, xs @ l # t # ys)"
  shows "melt_left h t = Inr (l, merged h l t ys)"
proof -
  note r = heap_okD(3) [OF h]
  note rt = run_tagsD [OF runs_okD(4) [OF r p]]
  have f: "split_left (tg h t) = l" "split_right (tg h t) = hd (ys @ [0])"
    by (rule run_neighbours [OF runs_okD(4) [OF r p]])+
  have mem: "u \<in> tags_of C" if "u \<in> set (xs @ l # t # ys)" for u using run_tag_in [of C p n "xs @ l # t # ys" u] p that by blast
  have t: "tag_at h t = Inr (tg h t)" "tag_at h l = Inr (tg h l)"
    by (rule heap_tag(3) [OF h mem], simp)+
  have y: "hd ys \<noteq> 0 \<and> tag_at h (hd ys) = Inr (tg h (hd ys)) \<and> hd ys \<noteq> l" if "ys \<noteq> []"
    using heap_tag [OF h mem, of "hd ys"] hd_in_set [OF that] rt(5) by auto
  show ?thesis
  proof (cases "ys = []")
    case True
    then show ?thesis unfolding melt_left_def t bindE_simps Let_def f upd_tag_def merged_def by simp
  next
    case False
    define l1 where "l1 = (tg h l)\<lparr>real_size := real_size (tg h l) + real_size (tg h t), split_right := hd (ys @ [0])\<rparr>"
    have "tag_at (set_tag h l l1) (hd ys) = Inr (tg h (hd ys))"
      using y [OF False] by (simp add: tag_at_def set_tag_def split: if_splits)
    then show ?thesis
      unfolding melt_left_def t bindE_simps Let_def f upd_tag_def merged_def l1_def using False y [OF False] by simp
  qed
qed

lemma absorb_right_eq:
  assumes h: "heap_ok h C B" and p: "C p = Some (n, xs @ t # r # ys)" and f: "0 \<le> index (tg h r)"
  shows "\<exists>h1 B1. absorb_right h t = Inr (t, merged h1 t r ys) \<and> heap_ok h1 C B1 \<and> same_blocks h h1 \<and>
    l_completePages h1 = l_completePages h \<and> index (tg h1 r) = - 1 \<and> (\<forall>u. u \<noteq> r \<longrightarrow> index (tg h1 u) = index (tg h u))"
proof -
  have mem: "u \<in> tags_of C" if "u \<in> set (xs @ t # r # ys)" for u using run_tag_in [of C p n "xs @ t # r # ys" u] p that by blast
  obtain h1 B1 where h1: "remove_tag h r = Inr h1" "heap_ok h1 C B1" "same_blocks h h1" "l_completePages h1 = l_completePages h"
    "index (tg h1 r) = - 1" "\<forall>u. u \<noteq> r \<longrightarrow> index (tg h1 u) = index (tg h u)"
    using heap_remove_tag [OF h mem f] by auto
  note rt = run_tagsD [OF runs_okD(4) [OF heap_okD(3) [OF h1(2)] p]]
  have n: "split_right (tg h t) = r" "split_right (tg h1 r) = hd (ys @ [0])"
    by (rule run_neighbours [OF runs_okD(4) [OF heap_okD(3) [OF h] p]])
      (rule run_neighbours [OF runs_okD(4) [OF heap_okD(3) [OF h1(2)] p]])
  have a: "tag_at h t = Inr (tg h t)" "tag_at h1 t = Inr (tg h1 t)" "tag_at h1 r = Inr (tg h1 r)"
    using heap_tag(3) [OF h mem, of t] heap_tag(3) [OF h1(2) mem, of t] heap_tag(3) [OF h1(2) mem, of r] by simp_all
  have y: "hd ys \<noteq> 0 \<and> tag_at h1 (hd ys) = Inr (tg h1 (hd ys)) \<and> hd ys \<noteq> t" if "ys \<noteq> []"
    using heap_tag [OF h1(2) mem, of "hd ys"] hd_in_set [OF that] rt(5) by auto
  have "absorb_right h t = Inr (t, merged h1 t r ys)"
  proof (cases "ys = []")
    case True
    then show ?thesis unfolding absorb_right_def a bindE_simps Let_def n(1) h1(1) upd_tag_def merged_def using n(2) by simp
  next
    case False
    define t1 where "t1 = (tg h1 t)\<lparr>real_size := real_size (tg h1 t) + real_size (tg h1 r), split_right := hd (ys @ [0])\<rparr>"
    have "tag_at (set_tag h1 t t1) (hd ys) = Inr (tg h1 (hd ys))"
      using y [OF False] by (simp add: tag_at_def set_tag_def split: if_splits)
    then show ?thesis
      unfolding absorb_right_def a bindE_simps Let_def n(1) h1(1) upd_tag_def merged_def using n(2) False y [OF False]
      by (simp add: t1_def)
  qed
  then show ?thesis using h1 by blast
qed

section \<open>The merging loops\<close>

lemma same_blocks_keeps: "same_blocks h h' \<Longrightarrow> keeps U h h'"
  unfolding same_blocks_def keeps_def by simp

lemma keeps_trans: "keeps U h h1 \<Longrightarrow> keeps V h1 h2 \<Longrightarrow> W \<subseteq> U \<Longrightarrow> W \<subseteq> V \<Longrightarrow> keeps W h h2"
  unfolding keeps_def by (simp add: subset_iff)

text \<open>
  What one step of freeing establishes: the run with its tags merged around the tag \<open>t'\<close>, which is in no
  list, and the blocks of everyone else as they were.
\<close>

definition merge_step :: "heap \<Rightarrow> runs \<Rightarrow> u64 \<Rightarrow> heap \<Rightarrow> runs \<Rightarrow> (nat \<Rightarrow> u64 list) \<Rightarrow> u64 \<Rightarrow> bool" where
  "merge_step h C t h' C' B' t' \<longleftrightarrow> heap_ok h' C' B' \<and> t' \<in> used h' C' \<and> used h' C' - {t'} = used h C - {t} \<and>
     keeps (used h C - {t}) h h' \<and> h_phys h' = h_phys h \<and> hhdm h' = hhdm h \<and> l_completePages h' = l_completePages h"

lemma merge_step_refl: "heap_ok h C B \<Longrightarrow> t \<in> used h C \<Longrightarrow> merge_step h C t h C B t"
  unfolding merge_step_def keeps_def by simp

lemma merge_step_trans:
  "merge_step h C t h1 C1 B1 t1 \<Longrightarrow> merge_step h1 C1 t1 h2 C2 B2 t2 \<Longrightarrow> merge_step h C t h2 C2 B2 t2"
  unfolding merge_step_def by (auto intro: keeps_trans)

lemma melt_left_step:
  assumes h: "heap_ok h C B" and p: "C p = Some (n, xs @ l # t # ys)" and t: "index (tg h t) < 0" and l: "0 \<le> index (tg h l)"
  shows "\<exists>h2 B2. remove_tag (merged h l t ys) l = Inr h2 \<and> merge_step h C t h2 (C(p \<mapsto> (n, xs @ l # ys))) B2 l"
proof -
  let ?h1 = "merged h l t ys" and ?C = "C(p \<mapsto> (n, xs @ l # ys))"
  note m = merge_ok [OF h p t]
  have "l \<in> tags_of C" using run_tag_in [of C p n "xs @ l # t # ys" l] p by simp
  moreover have lt: "l \<noteq> t" using run_tagsD(5) [OF runs_okD(4) [OF heap_okD(3) [OF h] p]] by simp
  ultimately have lA: "l \<in> tags_of ?C" unfolding m(2) by simp
  obtain h2 B2 where h2: "remove_tag ?h1 l = Inr h2" "heap_ok h2 ?C B2" "same_blocks ?h1 h2"
    "l_completePages h2 = l_completePages ?h1" "index (tg h2 l) = - 1" "\<forall>u. u \<noteq> l \<longrightarrow> index (tg h2 u) = index (tg ?h1 u)"
    using heap_remove_tag [OF m(1) lA] l m(3) [of l] by auto
  have tA: "t \<in> tags_of C" using run_tag_in [of C p n "xs @ l # t # ys" t] p by simp
  have ix: "index (tg h2 u) = (if u = l then - 1 else index (tg h u))" for u using h2(5,6) m(3) [of u] by simp
  have "used h2 ?C - {l} = used h C - {t}"
    unfolding used_def m(2) using ix l lt by auto
  moreover have "l \<in> used h2 ?C" unfolding used_def using lA ix by simp
  moreover have "keeps (used h C - {t}) h h2"
  proof -
    have "keeps (used h C - {t}) h ?h1"
      unfolding keeps_def
    proof
      fix u assume "u \<in> used h C - {t}"
      then have "u \<noteq> l" using l unfolding used_def by auto
      then show "real_size (tg ?h1 u) = real_size (tg h u) \<and> sz (tg ?h1 u) = sz (tg h u)" using m(4,5) by simp
    qed
    then show ?thesis using same_blocks_keeps [OF h2(3), of UNIV] by (rule keeps_trans) simp_all
  qed
  moreover have "h_phys h2 = h_phys h" "hhdm h2 = hhdm h"
    using h2(3) unfolding same_blocks_def by (simp_all add: merged_def Let_def set_tag_def)
  ultimately show ?thesis using h2(1,2,4) m(6) unfolding merge_step_def by auto
qed

lemma absorb_right_step:
  assumes h: "heap_ok h C B" and p: "C p = Some (n, xs @ t # r # ys)" and t: "index (tg h t) < 0" and r: "0 \<le> index (tg h r)"
  shows "\<exists>h2 B2. absorb_right h t = Inr (t, h2) \<and> merge_step h C t h2 (C(p \<mapsto> (n, xs @ t # ys))) B2 t"
proof -
  let ?C = "C(p \<mapsto> (n, xs @ t # ys))"
  obtain h1 B1 where h1: "absorb_right h t = Inr (t, merged h1 t r ys)" "heap_ok h1 C B1" "same_blocks h h1"
    "l_completePages h1 = l_completePages h" "index (tg h1 r) = - 1" "\<forall>u. u \<noteq> r \<longrightarrow> index (tg h1 u) = index (tg h u)"
    using absorb_right_eq [OF h p r] by blast
  let ?h2 = "merged h1 t r ys"
  have r1: "index (tg h1 r) < 0" using h1(5) by simp
  note m = merge_ok [OF h1(2) p r1]
  have tr: "t \<noteq> r" using run_tagsD(5) [OF runs_okD(4) [OF heap_okD(3) [OF h] p]] by simp
  have tA: "t \<in> tags_of C" using run_tag_in [of C p n "xs @ t # r # ys" t] p by simp
  have ix: "index (tg ?h2 u) = (if u = r then - 1 else index (tg h u))" for u using h1(5,6) m(3) [of u] by simp
  have "used ?h2 ?C - {t} = used h C - {t}"
    unfolding used_def m(2) using ix r by auto
  moreover have "t \<in> used ?h2 ?C" unfolding used_def m(2) using tA tr ix t by simp
  moreover have "keeps (used h C - {t}) h ?h2"
  proof -
    have "keeps (UNIV - {t}) h1 ?h2" unfolding keeps_def using m(4,5) by simp
    then show ?thesis by (rule keeps_trans [OF same_blocks_keeps [OF h1(3), of UNIV]]) auto
  qed
  moreover have "h_phys ?h2 = h_phys h" "hhdm ?h2 = hhdm h"
    using h1(3) unfolding same_blocks_def by (simp_all add: merged_def Let_def set_tag_def)
  ultimately show ?thesis using h1(1,4) m(1,6) unfolding merge_step_def by auto
qed

lemma melt_left_loop_ok:
  assumes "heap_ok h C B" "C p = Some (n, xs @ t # ys)" "index (tg h t) < 0"
  shows "\<exists>h' t' C' B' xs' ys'. melt_left_loop h t = Some (Inr (t', h')) \<and> merge_step h C t h' C' B' t' \<and>
    C' p = Some (n, xs' @ t' # ys')"
  using assms
proof (induction xs arbitrary: h C B t rule: rev_induct)
  case Nil
  have tA: "t \<in> tags_of C" using run_tag_in [of C p n "t # ys" t] Nil.prems(2) by simp
  have "split_left (tg h t) = 0"
    using linked_mid [OF run_tagsD(2) [OF runs_okD(4) [OF heap_okD(3) [OF Nil.prems(1)] Nil.prems(2)]]] by simp
  then have "melt_left_loop h t = Some (Inr (t, h))"
    by (subst melt_left_loop.simps) (simp add: heap_tag(3) [OF Nil.prems(1) tA])
  moreover have "t \<in> used h C" using tA Nil.prems(3) unfolding used_def by simp
  ultimately show ?case using merge_step_refl [OF Nil.prems(1)] Nil.prems(2) by blast
next
  case (snoc l xs)
  note h = snoc.prems(1)
  have p: "C p = Some (n, xs @ l # t # ys)" using snoc.prems(2) by simp
  have tA: "t \<in> tags_of C" "l \<in> tags_of C" using run_tag_in [of C p n "xs @ l # t # ys"] p by simp_all
  have sl: "split_left (tg h t) = l" by (rule run_neighbours [OF runs_okD(4) [OF heap_okD(3) [OF h] p]])
  note a = heap_tag [OF h tA(1)] heap_tag [OF h tA(2)]
  show ?case
  proof (cases "index (tg h l) < 0")
    case True
    have "melt_left_loop h t = Some (Inr (t, h))"
      by (subst melt_left_loop.simps) (simp add: a sl True)
    moreover have "t \<in> used h C" using tA snoc.prems(3) unfolding used_def by simp
    ultimately show ?thesis using merge_step_refl [OF h] snoc.prems(2) by blast
  next
    case False
    then have l: "0 \<le> index (tg h l)" by simp
    obtain h2 B2 where h2: "remove_tag (merged h l t ys) l = Inr h2" "merge_step h C t h2 (C(p \<mapsto> (n, xs @ l # ys))) B2 l"
      using melt_left_step [OF h p snoc.prems(3) l] by blast
    have e: "melt_left_loop h t = melt_left_loop h2 l"
      by (subst melt_left_loop.simps) (simp add: a sl False melt_left_eq [OF h p] h2(1))
    have "heap_ok h2 (C(p \<mapsto> (n, xs @ l # ys))) B2" "index (tg h2 l) < 0"
      using h2(2) unfolding merge_step_def used_def by simp_all
    moreover have "(C(p \<mapsto> (n, xs @ l # ys))) p = Some (n, xs @ l # ys)" by (rule fun_upd_same)
    ultimately obtain h' t' C' B' xs' ys' where r: "melt_left_loop h2 l = Some (Inr (t', h'))"
      "merge_step h2 (C(p \<mapsto> (n, xs @ l # ys))) l h' C' B' t'" "C' p = Some (n, xs' @ t' # ys')"
      using snoc.IH by blast
    then show ?thesis unfolding e using merge_step_trans [OF h2(2) r(2)] by blast
  qed
qed

lemma absorb_right_loop_ok:
  assumes "heap_ok h C B" "C p = Some (n, xs @ t # ys)" "index (tg h t) < 0"
  shows "\<exists>h' C' B' ys'. absorb_right_loop h t = Some (Inr (t, h')) \<and> merge_step h C t h' C' B' t \<and>
    C' p = Some (n, xs @ t # ys')"
  using assms
proof (induction ys arbitrary: h C B)
  case Nil
  have tA: "t \<in> tags_of C" using run_tag_in [of C p n "xs @ [t]" t] Nil.prems(2) by simp
  have "split_right (tg h t) = 0"
    using linked_mid [OF run_tagsD(2) [OF runs_okD(4) [OF heap_okD(3) [OF Nil.prems(1)] Nil.prems(2)]]] by simp
  then have "absorb_right_loop h t = Some (Inr (t, h))"
    by (subst absorb_right_loop.simps) (simp add: heap_tag(3) [OF Nil.prems(1) tA])
  moreover have "t \<in> used h C" using tA Nil.prems(3) unfolding used_def by simp
  ultimately show ?case using merge_step_refl [OF Nil.prems(1)] Nil.prems(2) by blast
next
  case (Cons r ys)
  note h = Cons.prems(1) and p = Cons.prems(2)
  have tA: "t \<in> tags_of C" "r \<in> tags_of C" using run_tag_in [of C p n "xs @ t # r # ys"] p by simp_all
  have sr: "split_right (tg h t) = r" by (rule run_neighbours [OF runs_okD(4) [OF heap_okD(3) [OF h] p]])
  note a = heap_tag [OF h tA(1)] heap_tag [OF h tA(2)]
  show ?case
  proof (cases "index (tg h r) < 0")
    case True
    have "absorb_right_loop h t = Some (Inr (t, h))"
      by (subst absorb_right_loop.simps) (simp add: a sr True)
    moreover have "t \<in> used h C" using tA Cons.prems(3) unfolding used_def by simp
    ultimately show ?thesis using merge_step_refl [OF h] p by blast
  next
    case False
    then have r: "0 \<le> index (tg h r)" by simp
    obtain h2 B2 where h2: "absorb_right h t = Inr (t, h2)" "merge_step h C t h2 (C(p \<mapsto> (n, xs @ t # ys))) B2 t"
      using absorb_right_step [OF h p Cons.prems(3) r] by blast
    have e: "absorb_right_loop h t = absorb_right_loop h2 t"
      by (subst absorb_right_loop.simps) (simp add: a sr False h2(1))
    have "heap_ok h2 (C(p \<mapsto> (n, xs @ t # ys))) B2" "index (tg h2 t) < 0"
      using h2(2) unfolding merge_step_def used_def by simp_all
    moreover have "(C(p \<mapsto> (n, xs @ t # ys))) p = Some (n, xs @ t # ys)" by (rule fun_upd_same)
    ultimately obtain h' C' B' ys' where r: "absorb_right_loop h2 t = Some (Inr (t, h'))"
      "merge_step h2 (C(p \<mapsto> (n, xs @ t # ys))) t h' C' B' t" "C' p = Some (n, xs @ t # ys')"
      using Cons.IH by blast
    then show ?thesis unfolding e using merge_step_trans [OF h2(2) r(2)] by blast
  qed
qed

section \<open>Putting a tag into its list\<close>

lemma heap_insert_tag:
  assumes h: "heap_ok h C B" and t: "t \<in> used h C" and i: "i < 32"
  shows "\<exists>h' B'. insert_tag h t i = Inr h' \<and> heap_ok h' C B' \<and> same_blocks h h' \<and> l_completePages h' = l_completePages h \<and>
    used h' C = used h C - {t}"
proof -
  note b = heap_okD(4) [OF h]
  have tA: "t \<in> tags_of C" "index (tg h t) < 0" using t unfolding used_def by simp_all
  have l: "next_tag (tg h t) = 0" "prev_tag (tg h t) = 0" using bins_okD(8) [OF b tA] by simp_all
  obtain h' r where h': "insert_tag h t i = Inr h'" "bins_ok h' (insert t (tags_of C - {t})) (B(r := t # B r))" "same_blocks h h'"
    "l_completePages h' = l_completePages h" "index (tg h' t) = int r" "\<forall>u. u \<noteq> t \<longrightarrow> index (tg h' u) = index (tg h u)"
    using insert_tag_ok [OF bins_ok_drop [OF b tA] _ heap_tag(1,2) [OF h tA(1)] l i] by blast
  have "insert t (tags_of C - {t}) = tags_of C" using tA(1) by blast
  then have "heap_ok h' C (B(r := t # B r))"
    unfolding heap_ok_def using heap_okD(1,2) [OF h] runs_ok_same_blocks [OF heap_okD(3) [OF h] h'(3)] h'(2,4) h'(3)
    by (simp add: same_blocks_def)
  moreover have "used h' C = used h C - {t}"
  proof -
    have "index (tg h' u) < 0 \<longleftrightarrow> u \<noteq> t \<and> index (tg h u) < 0" for u using h'(5,6) by (cases "u = t") simp_all
    then show ?thesis unfolding used_def by blast
  qed
  ultimately show ?thesis using h' by blast
qed

section \<open>Returning a run\<close>

lemma needed_pages_whole:
  assumes "unat r = 4096 * n" "16 \<le> n" "n < 2 ^ 19"
  shows "unat (scast (needed_pages r) :: u64) = n"
proof -
  have "unat (r div 4096) = n" "unat (r mod 4096) = 0" using assms by (simp_all add: unat_div unat_mod)
  then have q: "unat (r div 4096) = n" "r mod 4096 = 0" by (simp_all add: word_unat_eq_iff)
  have "\<not> r div 4096 < 16" using q(1) assms(2) by (simp add: word_less_nat_alt)
  then have "needed_pages r = r div 4096" unfolding needed_pages_def Let_def l_pageSize_def l_pageCount_def q(2) by simp
  then show ?thesis using unat_scast_up [of "needed_pages r"] q(1) assms(3) by simp
qed

lemma run_alone:
  assumes h: "heap_ok h C B" and p: "C p = Some (n, xs @ t # ys)" and s: "split_left (tg h t) = 0" "split_right (tg h t) = 0"
  shows "xs = []" "ys = []"
proof -
  have m: "split_left (tg h t) = last (0 # xs)" "split_right (tg h t) = hd (ys @ [0])"
    using linked_mid [OF run_tagsD(2) [OF runs_okD(4) [OF heap_okD(3) [OF h] p]]] by simp_all
  have z: "u \<noteq> 0" if "u \<in> set (xs @ t # ys)" for u using heap_tag(1) [OF h] run_tag_in [of C p n "xs @ t # ys" u] p that by blast
  show "xs = []" using m(1) s(1) z last_in_set [of xs] by (cases xs) auto
  show "ys = []" using m(2) s(2) z hd_in_set [of ys] by (cases ys) auto
qed

lemma heap_free_run:
  assumes h: "heap_ok h C B" and p: "C p = Some (n, [t])" and t: "t \<in> used h C"
  shows "\<exists>h'. liballoc_free h t (needed_pages (real_size (tg h t))) = Inr h' \<and> heap_ok h' (C(p := None)) B \<and>
    used h' (C(p := None)) = used h C - {t} \<and> keeps UNIV h h' \<and> hhdm h' = hhdm h \<and>
    pm_free (h_phys h') = pm_free (h_phys h) \<union> {p..<p + n}"
proof -
  note r = heap_okD(3) [OF h]
  note rt = run_tagsD [OF runs_okD(4) [OF r p]]
  have rp: "1 \<le> p" "16 \<le> n" "n < 2 ^ 19" "p + n \<le> pm_total (h_phys h)" using runs_okD(3) [OF r p] unfolding run_pages_def by simp_all
  have u: "unat t = unat (hhdm h) + 4096 * p" "tsize h t = 4096 * n" using rt(1) unfolding run_at_def by auto
  have np: "unat (scast (needed_pages (real_size (tg h t))) :: u64) = n"
    by (rule needed_pages_whole) (use u rp in \<open>simp_all add: tsize_def\<close>)
  have "hhdm h \<le> t" using u(1) by (simp add: word_le_nat_alt)
  then have "unat (t - hhdm h) = 4096 * p" using u(1) by (simp add: unat_sub_if_size word_le_nat_alt)
  then have po: "page_of (t - hhdm h) = p" by (simp add: page_of_def)
  obtain s' where s': "PhysicalMemory_free (h_phys h) (t - hhdm h) (scast (needed_pages (real_size (tg h t)))) = Inr s'"
    "pm_free s' = pm_free (h_phys h) \<union> {p..<p + n}" "pm_ok s'" "pm_total s' = pm_total (h_phys h)"
    using pm.release_frees [OF runs_okD(1) [OF r], of "t - hhdm h" "scast (needed_pages (real_size (tg h t)))"] rp unfolding po np by auto
  let ?h = "h\<lparr>h_phys := s'\<rparr>" and ?C = "C(p := None)"
  have T: "tg ?h = tg h" by (rule ext) (simp add: tg_def)
  have A: "tags_of ?C = tags_of C - {t}" using tags_of_update(2) [OF r p] by simp
  have tA: "t \<in> tags_of C" "index (tg h t) < 0" using t unfolding used_def by simp_all
  have "runs_ok ?h ?C"
    unfolding runs_ok_def
  proof (intro conjI allI impI)
    show "pm_ok (h_phys ?h)" "unat (hhdm ?h) + 4096 * pm_total (h_phys ?h) < 2 ^ 64" using s'(3,4) runs_okD(2) [OF r] by simp_all
    fix q m ts assume q: "?C q = Some (m, ts)"
    then have q': "q \<noteq> p" "C q = Some (m, ts)" by (auto split: if_splits)
    have "{q..<q + m} \<inter> {p..<p + n} = {}" by (rule runs_okD(5) [OF r q'(2) p q'(1)])
    then show "run_pages ?h q m" using runs_okD(3) [OF r q'(2)] s'(2,4) unfolding run_pages_def by auto
    show "run_tags ?h q m ts" by (rule run_tags_cong [OF runs_okD(4) [OF r q'(2)]]) (simp_all add: same_tag_def T)
  next
    fix q q' m m' ts us assume "?C q = Some (m, ts)" "?C q' = Some (m', us)" "q \<noteq> q'"
    then show "{q..<q + m} \<inter> {q'..<q' + m'} = {}" using runs_okD(5) [OF r, of q m ts q' m' us] by (auto split: if_splits)
  qed
  moreover have "bins_ok ?h (tags_of C - {t}) B"
  proof (rule bins_ok_cong [OF bins_ok_drop [OF heap_okD(4) [OF h] tA]])
    show "tags_of C - {t} \<subseteq> dom (tags ?h)" using bins_okD(3) [OF heap_okD(4) [OF h]] by auto
  qed (simp_all add: T)
  ultimately have "heap_ok ?h ?C B" unfolding heap_ok_def A using heap_okD(1,2) [OF h] by simp
  moreover have "used ?h ?C = used h C - {t}" unfolding used_def A T by blast
  moreover have "keeps UNIV h ?h" unfolding keeps_def T by simp
  moreover have "liballoc_free h t (needed_pages (real_size (tg h t))) = Inr ?h" unfolding liballoc_free_def s'(1) by simp
  ultimately show ?thesis using s'(2) by (intro exI [of _ ?h]) simp
qed

section \<open>Freeing a block\<close>

lemma heap_set_complete:
  assumes h: "heap_ok h C B" and i: "0 \<le> i" "i < 32"
  shows "\<exists>h'. set_complete h i c = Inr h' \<and> heap_ok h' C B \<and> used h' C = used h C \<and> same_blocks h h'"
proof -
  let ?h = "h\<lparr>l_completePages := (l_completePages h)[nat i := c]\<rparr>"
  have T: "tg ?h = tg h" by (rule ext) (simp add: tg_def)
  have s: "same_blocks h ?h" unfolding same_blocks_def T by simp
  have "bins_ok ?h (tags_of C) B"
    by (rule bins_ok_cong [OF heap_okD(4) [OF h]]) (use bins_okD(3) [OF heap_okD(4) [OF h]] in \<open>simp_all add: T\<close>)
  then have "heap_ok ?h C B"
    unfolding heap_ok_def using heap_okD(1,2) [OF h] runs_ok_same_blocks [OF heap_okD(3) [OF h] s] by simp
  moreover have "set_complete h i c = Inr ?h" using i unfolding set_complete_def MAXEXP_def by simp
  moreover have "used ?h C = used h C" unfolding used_def T ..
  ultimately show ?thesis using s by blast
qed

text \<open>The end of \<^verbatim>\<open>free\<close>, when the block has been merged with its free neighbours.\<close>

definition finish_free :: "heap \<Rightarrow> u64 \<Rightarrow> boundary_tag \<Rightarrow> int \<Rightarrow> heap result" where
  "finish_free h tag t i =
     (if split_left t = 0 \<and> split_right t = 0
      then bindE (complete_at h i) (\<lambda>c.
           if c = MAXCOMPLETE
           then liballoc_free h tag (needed_pages (real_size t))
           else bindE (set_complete h i (c + 1)) (\<lambda>h3. insert_tag h3 tag i))
      else insert_tag h tag i)"

lemma finish_free_ok:
  assumes h: "heap_ok h C B" and p: "C p = Some (n, xs @ t # ys)" and t: "t \<in> used h C" and i: "0 \<le> i" "i < 32"
  shows "\<exists>h' C' B'. finish_free h t (tg h t) i = Inr h' \<and> heap_ok h' C' B' \<and> used h' C' = used h C - {t} \<and>
    keeps (used h C - {t}) h h' \<and> hhdm h' = hhdm h"
proof (cases "split_left (tg h t) = 0 \<and> split_right (tg h t) = 0")
  case True
  define c where "c = l_completePages h ! nat i"
  have c: "complete_at h i = Inr c" using i unfolding complete_at_def c_def MAXEXP_def by simp
  show ?thesis
  proof (cases "c = MAXCOMPLETE")
    case m: True
    have "C p = Some (n, [t])" using run_alone [OF h p] True p by simp
    from heap_free_run [OF h this t] obtain h' where h': "liballoc_free h t (needed_pages (real_size (tg h t))) = Inr h'"
      "heap_ok h' (C(p := None)) B" "used h' (C(p := None)) = used h C - {t}" "keeps UNIV h h'" "hhdm h' = hhdm h" by blast
    then show ?thesis unfolding finish_free_def using True c m unfolding keeps_def by auto
  next
    case m: False
    obtain h1 where h1: "set_complete h i (c + 1) = Inr h1" "heap_ok h1 C B" "used h1 C = used h C" "same_blocks h h1"
      using heap_set_complete [OF h i] by blast
    obtain h' B' where h': "insert_tag h1 t i = Inr h'" "heap_ok h' C B'" "same_blocks h1 h'" "used h' C = used h1 C - {t}"
      using heap_insert_tag [OF h1(2) t [folded h1(3)] i(2)] by blast
    have "keeps (used h C - {t}) h h'" using h1(4) h'(3) unfolding same_blocks_def keeps_def by simp
    moreover have "hhdm h' = hhdm h" using h1(4) h'(3) unfolding same_blocks_def by simp
    ultimately show ?thesis unfolding finish_free_def using True c m h1 h' by (intro exI [of _ h'] exI [of _ C] exI [of _ B']) simp
  qed
next
  case False
  obtain h' B' where h': "insert_tag h t i = Inr h'" "heap_ok h' C B'" "same_blocks h h'" "used h' C = used h C - {t}"
    using heap_insert_tag [OF h t i(2)] by blast
  moreover have "hhdm h' = hhdm h" using h'(3) unfolding same_blocks_def by simp
  ultimately show ?thesis unfolding finish_free_def if_not_P [OF False] using same_blocks_keeps [OF h'(3)]
    by (intro exI [of _ h'] exI [of _ C] exI [of _ B']) simp
qed

lemma block_address:
  assumes h: "heap_ok h C B" and t: "t \<in> tags_of C"
  shows "unat (t + tag_size) = unat t + 48" "t + tag_size \<noteq> 0" "unat t + tsize h t < 2 ^ 64" "48 \<le> tsize h t"
    "magic (tg h t) = LIBALLOC_MAGIC" "tsize h t < 2 ^ 31"
proof -
  obtain p n ts where c: "C p = Some (n, ts)" "t \<in> set ts" using t unfolding tags_of_def by blast
  note r = heap_okD(3) [OF h]
  note rt = run_tagsD [OF runs_okD(4) [OF r c(1)]]
  have "run_at h (p + n) < 2 ^ 64" using runs_okD(2,3) [OF r] c(1) unfolding run_pages_def run_at_def
    by (meson add_mono_thms_linordered_semiring(2) mult_le_mono2 order_le_less_trans)
  then show b: "unat t + tsize h t < 2 ^ 64" "48 \<le> tsize h t" using rt(4,6) [OF c(2)] by simp_all
  show u: "unat (t + tag_size) = unat t + 48" unfolding tag_size_def by (subst unat_add_nowrap) (use b in simp_all)
  show "t + tag_size \<noteq> 0"
  proof
    assume "t + tag_size = 0"
    then have "unat (t + tag_size) = 0" by simp
    then show False using u by simp
  qed
  show "magic (tg h t) = LIBALLOC_MAGIC" by (rule rt(3) [OF c(2)])
  show "tsize h t < 2 ^ 31" by (rule run_size_bound [OF runs_okD(3,4) [OF r c(1)] c(2)])
qed

lemma heap_free_ok:
  assumes h: "heap_ok h C B" and t: "t \<in> used h C"
  shows "\<exists>h' C' B'. heap_free h (t + tag_size) = Inr h' \<and> heap_ok h' C' B' \<and> used h' C' = used h C - {t} \<and>
    keeps (used h C - {t}) h h' \<and> hhdm h' = hhdm h"
proof -
  have tA: "t \<in> tags_of C" "index (tg h t) < 0" using t unfolding used_def by simp_all
  obtain p n xs ys where p: "C p = Some (n, xs @ t # ys)" by (rule tag_position [OF tA(1)])
  obtain h1 t1 C1 B1 xs1 ys1 where 1: "melt_left_loop h t = Some (Inr (t1, h1))" "merge_step h C t h1 C1 B1 t1"
    "C1 p = Some (n, xs1 @ t1 # ys1)"
    using melt_left_loop_ok [OF h p tA(2)] by blast
  have h1: "heap_ok h1 C1 B1" "index (tg h1 t1) < 0" using 1(2) unfolding merge_step_def used_def by simp_all
  obtain h2 C2 B2 ys2 where 2: "absorb_right_loop h1 t1 = Some (Inr (t1, h2))" "merge_step h1 C1 t1 h2 C2 B2 t1"
    "C2 p = Some (n, xs1 @ t1 # ys2)"
    using absorb_right_loop_ok [OF h1(1) 1(3) h1(2)] by blast
  have m: "heap_ok h2 C2 B2" "t1 \<in> used h2 C2" "used h2 C2 - {t1} = used h C - {t}" "keeps (used h C - {t}) h h2" "hhdm h2 = hhdm h"
    using merge_step_trans [OF 1(2) 2(2)] unfolding merge_step_def by simp_all
  have t1: "t1 \<in> tags_of C2" using m(2) unfolding used_def by simp
  define e where "e = getexp (ucast (ucast (real_size (tg h2 t1)) - tag_size :: u64))"
  define i where "i = (if e < int MINEXP then int MINEXP else e)"
  have i: "0 \<le> i" "i < 32" using getexp_range unfolding i_def e_def by (simp_all add: MINEXP_def)
  obtain h' C' B' where h': "finish_free h2 t1 (tg h2 t1) i = Inr h'" "heap_ok h' C' B'" "used h' C' = used h2 C2 - {t1}"
    "keeps (used h2 C2 - {t1}) h2 h'" "hhdm h' = hhdm h2"
    using finish_free_ok [OF m(1) 2(3) m(2) i] by blast
  have "heap_free h (t + tag_size) = finish_free h2 t1 (tg h2 t1) i"
    unfolding heap_free_def finish_free_def Let_def i_def e_def
    using block_address(2,5) [OF h tA(1)] heap_tag(3) [OF h tA(1)] 1(1) 2(1) heap_tag(3) [OF m(1) t1] by (simp add: returned_def)
  moreover have "keeps (used h C - {t}) h h'" by (rule keeps_trans [OF m(4) h'(4)]) (simp_all add: m(3))
  ultimately show ?thesis using h' m by (intro exI [of _ h'] exI [of _ C'] exI [of _ B']) simp
qed

end
