(* ===== verification/Heap_Malloc.thy ===== *)
theory Heap_Malloc
  imports Heap_Free
begin

text \<open>
  Allocating a block, \<^verbatim>\<open>malloc\<close> of \<^verbatim>\<open>src/src/mm/liballoc.cpp\<close>, on a heap that satisfies the invariant, and the
  properties of the heap over whole sequences of allocations and releases.
\<close>

section \<open>Blocks lie apart\<close>

lemma tags_apart:
  assumes r: "runs_ok h C" and t: "t \<in> tags_of C" and u: "u \<in> tags_of C" and n: "t \<noteq> u"
  shows "unat t + tsize h t \<le> unat u \<or> unat u + tsize h u \<le> unat t"
proof -
  obtain p k ts where p: "C p = Some (k, ts)" "t \<in> set ts" using t unfolding tags_of_def by blast
  obtain q l us where q: "C q = Some (l, us)" "u \<in> set us" using u unfolding tags_of_def by blast
  note a = run_tagsD [OF runs_okD(4) [OF r p(1)]] and b = run_tagsD [OF runs_okD(4) [OF r q(1)]]
  show ?thesis
  proof (cases "p = q")
    case True
    then have "u \<in> set ts" using p q by simp
    then show ?thesis using tiles_apart [OF a(1) p(2) _ n] by blast
  next
    case False
    have d: "{p..<p + k} \<inter> {q..<q + l} = {}" by (rule runs_okD(5) [OF r p(1) q(1) False])
    have "1 \<le> k" "1 \<le> l" using runs_okD(3) [OF r p(1)] runs_okD(3) [OF r q(1)] unfolding run_pages_def by simp_all
    have "p + k \<le> q \<or> q + l \<le> p"
    proof (rule ccontr)
      assume "\<not> (p + k \<le> q \<or> q + l \<le> p)"
      then have "max p q \<in> {p..<p + k} \<inter> {q..<q + l}" using \<open>1 \<le> k\<close> \<open>1 \<le> l\<close> by auto
      then show False using d by simp
    qed
    then have "run_at h (p + k) \<le> run_at h q \<or> run_at h (q + l) \<le> run_at h p" unfolding run_at_def by auto
    then show ?thesis using a(6) [OF p(2)] b(6) [OF q(2)] by linarith
  qed
qed

section \<open>Splitting a block\<close>

definition cut_tag :: "heap \<Rightarrow> u64 \<Rightarrow> u64 \<Rightarrow> u64 list \<Rightarrow> boundary_tag \<Rightarrow> u32 \<Rightarrow> heap" where
  "cut_tag h t n ys b k =
     (let h1 = set_tag h n b;
          h2 = (if ys = [] then h1 else set_tag h1 (hd ys) ((tg h (hd ys))\<lparr>split_left := n\<rparr>))
      in set_tag h2 t ((tg h t)\<lparr>split_right := n, real_size := real_size (tg h t) - k\<rparr>))"

lemma cut_tag_ok:
  assumes h: "heap_ok h C B" and p: "C p = Some (n, xs @ t # ys)"
    and k: "unat k + 48 \<le> tsize h t" "48 \<le> unat k" "unat m = unat t + (tsize h t - unat k)"
    and b: "magic b = LIBALLOC_MAGIC" "real_size b = k" "split_left b = t" "split_right b = hd (ys @ [0])"
  shows "m \<notin> tags_of C" "m \<noteq> 0" "runs_ok (cut_tag h t m ys b k) (C(p \<mapsto> (n, xs @ t # m # ys)))"
    "tags_of (C(p \<mapsto> (n, xs @ t # m # ys))) = insert m (tags_of C)" "bins_ok (cut_tag h t m ys b k) (tags_of C) B"
    "\<And>u. u \<noteq> m \<Longrightarrow> index (tg (cut_tag h t m ys b k) u) = index (tg h u)"
    "\<And>u. u \<noteq> m \<Longrightarrow> sz (tg (cut_tag h t m ys b k) u) = sz (tg h u)"
    "\<And>u. u \<noteq> m \<Longrightarrow> u \<noteq> t \<Longrightarrow> real_size (tg (cut_tag h t m ys b k) u) = real_size (tg h u)"
    "tsize (cut_tag h t m ys b k) t = tsize h t - unat k" "tg (cut_tag h t m ys b k) m = b"
proof -
  let ?h = "cut_tag h t m ys b k" and ?C = "C(p \<mapsto> (n, xs @ t # m # ys))"
  note r = heap_okD(3) [OF h]
  note rt = run_tagsD [OF runs_okD(4) [OF r p]]
  have d: "distinct (xs @ t # ys)" by (rule rt(5))
  have mem: "u \<in> tags_of C" if "u \<in> set (xs @ t # ys)" for u using run_tag_in [of C p n "xs @ t # ys" u] p that by blast
  have tA: "t \<in> tags_of C" by (rule mem) simp
  show mA: "m \<notin> tags_of C"
  proof
    assume m: "m \<in> tags_of C"
    have "t \<noteq> m" using k by auto
    from tags_apart [OF r tA m this] show False using k block_address(4) [OF h m] by linarith
  qed
  show m0: "m \<noteq> 0"
  proof
    assume "m = 0"
    then have "unat m = 0" by simp
    then show False using k by simp
  qed
  have mx: "m \<notin> set (xs @ t # ys)" using mem mA by blast
  have hy: "hd ys \<in> set ys \<and> hd ys \<noteq> t \<and> hd ys \<noteq> m" if "ys \<noteq> []" using hd_in_set [OF that] d mx by auto
  have T: "tg ?h u = (if u = t then (tg h t)\<lparr>split_right := m, real_size := real_size (tg h t) - k\<rparr>
      else if u = m then (if ys \<noteq> [] \<and> u = hd ys then (tg h (hd ys))\<lparr>split_left := m\<rparr> else b)
      else if ys \<noteq> [] \<and> u = hd ys then (tg h (hd ys))\<lparr>split_left := m\<rparr> else tg h u)" for u
    unfolding cut_tag_def Let_def by simp
  have tm: "t \<noteq> m" using mx by auto
  show Tm: "tg ?h m = b" unfolding T using tm hy by auto
  show ix: "index (tg ?h u) = index (tg h u)" if "u \<noteq> m" for u unfolding T using that by simp
  show "sz (tg ?h u) = sz (tg h u)" if "u \<noteq> m" for u unfolding T using that by simp
  show rs: "real_size (tg ?h u) = real_size (tg h u)" if "u \<noteq> m" "u \<noteq> t" for u unfolding T using that by simp
  have fields: "h_phys ?h = h_phys h" "hhdm ?h = hhdm h" "l_freePages ?h = l_freePages h"
    unfolding cut_tag_def Let_def by (simp_all add: set_tag_def)
  show A: "tags_of ?C = insert m (tags_of C)"
    unfolding tags_of_update(1) [OF r p] using mem by auto
  show size: "tsize ?h t = tsize h t - unat k"
  proof -
    have "k \<le> real_size (tg h t)" using k(1) unfolding tsize_def by (simp add: word_le_nat_alt)
    then show ?thesis unfolding tsize_def T by (simp add: unat_sub_if_size word_le_nat_alt)
  qed
  have size': "tsize ?h u = tsize h u" if "u \<noteq> t" "u \<noteq> m" for u unfolding tsize_def using rs that by simp
  have sizem: "tsize ?h m = unat k" unfolding tsize_def Tm b ..
  have "run_tags ?h p n (xs @ t # m # ys)"
    unfolding run_tags_def
  proof (intro conjI ballI)
    have ra: "run_at ?h = run_at h" unfolding run_at_def fields ..
    obtain a where a: "tiles (tsize h) (run_at h p) xs a" "unat t = a" "tiles (tsize h) (a + tsize h t) ys (run_at h (p + n))"
      using rt(1) unfolding tiles_append by auto
    have e: "tiles (tsize ?h) A ts E = tiles (tsize h) A ts E" if "t \<notin> set ts" "m \<notin> set ts" for A ts E
      by (rule tiles_cong) (use size' that in metis)
    have "tiles (tsize ?h) (run_at h p) xs a" using a(1) e [of xs] d mx by simp
    moreover have "tiles (tsize ?h) (a + tsize h t) ys (run_at h (p + n))" using a(3) e [of ys] d mx by simp
    moreover have "a + tsize ?h t + tsize ?h m = a + tsize h t" using k(1) unfolding size sizem by simp
    moreover have "unat m = a + tsize ?h t" using k(3) a(2) unfolding size by simp
    ultimately show "tiles (tsize ?h) (run_at ?h p) (xs @ t # m # ys) (run_at ?h (p + n))"
      unfolding ra tiles_append using a(2) by (auto simp: add.assoc)
    show "linked (\<lambda>u. split_left (tg ?h u)) (\<lambda>u. split_right (tg ?h u)) 0 (xs @ t # m # ys) 0"
    proof (rule linked_insert_after [OF rt(2) d mx])
      fix u assume u: "u \<in> set (xs @ t # ys)"
      then have um: "u \<noteq> m" using mx by auto
      show "split_right (tg ?h u) = (if u = t then m else split_right (tg h u))" unfolding T using um by simp
      show "split_left (tg ?h u) = (if ys \<noteq> [] \<and> u = hd ys then m else split_left (tg h u))" unfolding T using um hy by auto
    qed (simp_all add: Tm b)
    fix u assume u: "u \<in> set (xs @ t # m # ys)"
    show "magic (tg ?h u) = LIBALLOC_MAGIC" using u rt(3) hy b(1) Tm unfolding T by auto
    show "48 \<le> tsize ?h u" using u rt(4) [of u] k size size' sizem by (cases "u = t"; cases "u = m") auto
  qed
  then show "runs_ok ?h ?C"
  proof (rule runs_ok_replace [OF r p fields(1,2), rotated])
    fix u assume "u \<in> tags_of C" "u \<notin> set (xs @ t # ys)"
    then show "same_tag h ?h u" unfolding same_tag_def T using hy mA by auto
  qed
  show "bins_ok ?h (tags_of C) B"
  proof (rule bins_ok_cong [OF heap_okD(4) [OF h] fields(3)])
    show "tags_of C \<subseteq> dom (tags ?h)"
      unfolding cut_tag_def Let_def using bins_okD(3) [OF heap_okD(4) [OF h]] by auto
    fix u assume "u \<in> tags_of C"
    then have "u \<noteq> m" using mA by auto
    then show "index (tg ?h u) = index (tg h u) \<and> next_tag (tg ?h u) = next_tag (tg h u) \<and> prev_tag (tg ?h u) = prev_tag (tg h u)"
      unfolding T by simp
  qed
qed

lemma split_tag_eq:
  assumes h: "heap_ok h C B" and p: "C p = Some (n, xs @ t # ys)" and m: "m = t + tag_size + ucast (sz (tg h t))" "m \<notin> tags_of C" "m \<noteq> t"
    and k: "k = ucast (ucast (real_size (tg h t)) - tag_size - ucast (sz (tg h t)) :: u64)"
  shows "\<exists>s i. split_tag h t = bindE (insert_tag (cut_tag h t m ys \<lparr>magic = LIBALLOC_MAGIC, sz = s, real_size = k, index = i,
      split_left = t, split_right = hd (ys @ [0]), next_tag = 0, prev_tag = 0\<rparr> k) m (- 1)) (\<lambda>h3. Inr (m, h3))"
proof -
  note rt = run_tagsD [OF runs_okD(4) [OF heap_okD(3) [OF h] p]]
  have mem: "u \<in> tags_of C" if "u \<in> set (xs @ t # ys)" for u using run_tag_in [of C p n "xs @ t # ys" u] p that by blast
  have t: "tag_at h t = Inr (tg h t)" by (rule heap_tag(3) [OF h mem]) simp
  have r: "split_right (tg h t) = hd (ys @ [0])" using linked_mid [OF rt(2)] by simp
  define s where "s = (case tags h m of None \<Rightarrow> 0 | Some old \<Rightarrow> sz old)"
  define i where "i = (case tags h m of None \<Rightarrow> 0 | Some old \<Rightarrow> index old)"
  define b where "b = \<lparr>magic = LIBALLOC_MAGIC, sz = s, real_size = k, index = i,
      split_left = t, split_right = split_right (tg h t), next_tag = 0, prev_tag = 0\<rparr>"
  define h1 where "h1 = (if ys = [] then set_tag h m b else set_tag (set_tag h m b) (hd ys) ((tg h (hd ys))\<lparr>split_left := m\<rparr>))"
  have y: "hd ys \<noteq> 0 \<and> tag_at h (hd ys) = Inr (tg h (hd ys)) \<and> hd ys \<noteq> t \<and> hd ys \<noteq> m" if "ys \<noteq> []"
    using heap_tag [OF h mem, of "hd ys"] hd_in_set [OF that] mem [of "hd ys"] rt(5) m(2) by auto
  have 1: "(if split_right (tg h t) \<noteq> 0 then upd_tag (set_tag h m b) (split_right (tg h t)) (\<lambda>r. r\<lparr>split_left := m\<rparr>) else Inr (set_tag h m b)) = Inr h1"
  proof (cases "ys = []")
    case False
    have "tag_at (set_tag h m b) (hd ys) = Inr (tg h (hd ys))" using y [OF False] by (simp add: tag_at_def set_tag_def split: if_splits)
    then show ?thesis unfolding r h1_def upd_tag_def using False y [OF False] by simp
  qed (simp add: r h1_def)
  have 2: "tag_at h1 t = Inr (tg h t)"
    using t m(3) y unfolding h1_def by (auto simp: tag_at_def set_tag_def split: if_splits)
  have "split_tag h t = bindE (insert_tag (cut_tag h t m ys b k) m (- 1)) (\<lambda>h3. Inr (m, h3))"
    unfolding split_tag_def t bindE_simps Let_def m(1) [symmetric] s_def [symmetric] i_def [symmetric] k [symmetric] 
    unfolding b_def [symmetric] 1 bindE_simps unfolding upd_tag_def 2 bindE_simps
    unfolding cut_tag_def Let_def h1_def [symmetric] ..
  then show ?thesis unfolding b_def r by blast
qed

lemma ucast_down_up: "(ucast (ucast w :: u64) :: u32) = w"
  unfolding word_unat_eq_iff using unsigned_less [of w] by (subst unat_ucast_down) (simp_all add: unat_ucast_up)

lemma split_tag_ok:
  assumes h: "heap_ok h C B" and t: "t \<in> used h C" and s: "unat (sz (tg h t)) + 96 \<le> tsize h t"
  shows "\<exists>m h' C' B'. split_tag h t = Inr (m, h') \<and> heap_ok h' C' B' \<and> used h' C' = used h C \<and>
    keeps (used h C - {t}) h h' \<and> sz (tg h' t) = sz (tg h t) \<and> tsize h' t = 48 + unat (sz (tg h t)) \<and> hhdm h' = hhdm h"
proof -
  have tA: "t \<in> tags_of C" "index (tg h t) < 0" using t unfolding used_def by simp_all
  obtain p n xs ys where p: "C p = Some (n, xs @ t # ys)" by (rule tag_position [OF tA(1)])
  note a = block_address [OF h tA(1)]
  define m where "m = t + tag_size + ucast (sz (tg h t))"
  define k where "k = (ucast (ucast (real_size (tg h t)) - tag_size - ucast (sz (tg h t)) :: u64) :: u32)"
  let ?b = "\<lambda>s i. \<lparr>magic = LIBALLOC_MAGIC, sz = s, real_size = k, index = i, split_left = t,
      split_right = hd (ys @ [0]), next_tag = 0, prev_tag = 0\<rparr> :: boundary_tag"
  have um: "unat m = unat t + 48 + unat (sz (tg h t))"
    unfolding m_def using a(1,3) s by (subst unat_add_nowrap) (simp_all add: unat_ucast_up)
  have uk: "unat k = tsize h t - 48 - unat (sz (tg h t))"
  proof -
    have "k = real_size (tg h t) - 48 - sz (tg h t)"
      unfolding k_def by (simp add: ucast_diff ucast_down_up tag_size_def)
    moreover have "48 \<le> real_size (tg h t)" using s unfolding tsize_def by (simp add: word_le_nat_alt)
    then have "unat (real_size (tg h t) - 48) = tsize h t - 48" unfolding tsize_def by (simp add: unat_sub_if_size word_le_nat_alt)
    ultimately show ?thesis using s by (simp add: unat_sub_if_size word_le_nat_alt)
  qed
  have kk: "unat k + 48 \<le> tsize h t" "48 \<le> unat k" "unat m = unat t + (tsize h t - unat k)" using uk um s by simp_all
  note cut = cut_tag_ok [OF h p kk]
  have b: "magic (?b s i) = LIBALLOC_MAGIC" "real_size (?b s i) = k" "split_left (?b s i) = t" "split_right (?b s i) = hd (ys @ [0])" for s i
    by simp_all
  note c = cut [OF b]
  have mt: "m \<noteq> t" using um by auto
  obtain s i where e: "split_tag h t = bindE (insert_tag (cut_tag h t m ys (?b s i) k) m (- 1)) (\<lambda>h3. Inr (m, h3))"
    using split_tag_eq [OF h p m_def c(1) mt k_def] by blast
  define h2 where "h2 = cut_tag h t m ys (?b s i) k"
  define C2 where "C2 = C(p \<mapsto> (n, xs @ t # m # ys))"
  note c = cut [OF b [of s i], folded h2_def C2_def]
  have dom2: "m \<in> dom (tags h2)" "h_phys h2 = h_phys h" "hhdm h2 = hhdm h" "l_initialized h2 = l_initialized h" "l_completePages h2 = l_completePages h"
    unfolding h2_def cut_tag_def Let_def by (auto simp: set_tag_def)
  obtain h' r where h': "insert_tag h2 m (- 1) = Inr h'" "bins_ok h' (insert m (tags_of C)) (B(r := m # B r))" "same_blocks h2 h'"
    "l_completePages h' = l_completePages h2" "index (tg h' m) = int r" "\<forall>u. u \<noteq> m \<longrightarrow> index (tg h' u) = index (tg h2 u)"
    using insert_tag_ok [OF c(5,1,2) dom2(1), of "- 1"] c(10) by auto
  have "heap_ok h' C2 (B(r := m # B r))"
    unfolding heap_ok_def c(4) using heap_okD(1,2) [OF h] runs_ok_same_blocks [OF c(3) h'(3)] h'(2,3,4) dom2
    by (simp add: same_blocks_def)
  moreover have "used h' C2 = used h C"
  proof -
    have "index (tg h' u) = index (tg h u)" if "u \<noteq> m" for u using h'(6) c(6) that by simp
    moreover have "u \<noteq> m" if "u \<in> tags_of C" for u using that c(1) by auto
    ultimately have "index (tg h' u) < 0 \<longleftrightarrow> index (tg h u) < 0" if "u \<in> tags_of C" for u using that by simp
    moreover have "\<not> index (tg h' m) < 0" using h'(5) by simp
    ultimately show ?thesis unfolding used_def c(4) by blast
  qed
  moreover have "keeps (used h C - {t}) h h'"
  proof -
    have "u \<noteq> m" if "u \<in> used h C" for u using that c(1) unfolding used_def by auto
    then show ?thesis using c(7,8) h'(3) unfolding keeps_def same_blocks_def by simp
  qed
  moreover have "sz (tg h' t) = sz (tg h t)" using c(7) [of t] mt h'(3) unfolding same_blocks_def by simp
  moreover have "tsize h' t = 48 + unat (sz (tg h t))" using c(9) uk s h'(3) unfolding same_blocks_def tsize_def by simp
  moreover have "hhdm h' = hhdm h" using h'(3) dom2(3) unfolding same_blocks_def by simp
  moreover have "split_tag h t = Inr (m, h')" unfolding e h2_def [symmetric] h'(1) by simp
  ultimately show ?thesis by blast
qed

section \<open>Finishing an allocation\<close>

lemma heap_set_size:
  fixes s :: u32
  assumes h: "heap_ok h C B" and t: "t \<in> used h C"
    and h'_def: "h' = set_tag h t ((tg h t)\<lparr>sz := s\<rparr>)"
  shows "heap_ok h' C B" "used h' C = used h C" "tsize h' = tsize h" "hhdm h' = hhdm h" "keeps (used h C - {t}) h h'" "tg h' t = (tg h t)\<lparr>sz := s\<rparr>"
proof -
  have T: "tg h' u = (if u = t then (tg h t)\<lparr>sz := s\<rparr> else tg h u)" for u unfolding h'_def by simp
  have f: "l_freePages h' = l_freePages h" "h_phys h' = h_phys h" "l_completePages h' = l_completePages h" "l_initialized h' = l_initialized h"
    unfolding h'_def by (simp_all add: set_tag_def)
  have tA: "t \<in> tags_of C" using t unfolding used_def by simp
  have fields: "same_tag h h' u" "index (tg h' u) = index (tg h u)" "next_tag (tg h' u) = next_tag (tg h u)" "prev_tag (tg h' u) = prev_tag (tg h u)" for u
    unfolding same_tag_def T by simp_all
  show hd: "hhdm h' = hhdm h" unfolding h'_def by (simp add: set_tag_def)
  show ts: "tsize h' = tsize h" by (rule ext) (simp add: tsize_def T)
  show "tg h' t = (tg h t)\<lparr>sz := s\<rparr>" unfolding T by simp
  show "used h' C = used h C" unfolding used_def fields ..
  show "keeps (used h C - {t}) h h'" unfolding keeps_def T by simp
  note r = heap_okD(3) [OF h]
  have "runs_ok h' C"
    unfolding runs_ok_def f(2) hd
  proof (intro conjI allI impI)
    show "pm_ok (h_phys h)" "unat (hhdm h) + 4096 * pm_total (h_phys h) < 2 ^ 64" by (rule runs_okD [OF r])+
    fix p n us assume p: "C p = Some (n, us)"
    show "run_pages h' p n" using runs_okD(3) [OF r p] unfolding run_pages_def f(2) .
    show "run_tags h' p n us" by (rule run_tags_cong [OF runs_okD(4) [OF r p] hd fields(1)])
  next
    fix p q n m us vs assume "C p = Some (n, us)" "C q = Some (m, vs)" "p \<noteq> q"
    then show "{p..<p + n} \<inter> {q..<q + m} = {}" by (rule runs_okD(5) [OF r])
  qed
  moreover have "bins_ok h' (tags_of C) B"
    by (rule bins_ok_cong [OF heap_okD(4) [OF h] f(1)])
      (use bins_okD(3) [OF heap_okD(4) [OF h]] fields in \<open>auto simp: h'_def\<close>)
  ultimately show "heap_ok h' C B" unfolding heap_ok_def using heap_okD(1,2) [OF h] f by simp
qed

lemma sint_small: "- (2 ^ 31) \<le> k \<Longrightarrow> k < 2 ^ 31 \<Longrightarrow> sint (word_of_int k :: u32) = k"
  by (simp add: sint_sbintrunc' signed_take_bit_int_eq_self)

lemma worth_splitting:
  fixes r :: u32 and n :: u64
  assumes "unat r < 2 ^ 31" "unat n < 2 ^ 30"
    and "sint (ucast (ucast r - n - tag_size * 2 :: u64) :: u32) > 0" "getexp (ucast (ucast r - n - tag_size * 2 :: u64) :: u32) \<ge> 0"
  shows "unat n + 96 \<le> unat r"
proof -
  have u: "unat (ucast n :: u32) = unat n" by (rule unat_ucast_down) (use assms(2) in simp)
  have "(ucast (ucast r - n - tag_size * 2 :: u64) :: u32) = r - ucast n - 96"
    by (simp add: ucast_diff ucast_down_up tag_size_def)
  also have "\<dots> = word_of_int (int (unat r)) - word_of_int (int (unat (ucast n :: u32))) - word_of_int 96" by simp
  also have "\<dots> = word_of_int (int (unat r) - int (unat n) - 96)" unfolding u by (simp only: of_int_diff)
  finally have e: "(ucast (ucast r - n - tag_size * 2 :: u64) :: u32) = word_of_int (int (unat r) - int (unat n) - 96)" .
  define x where "x = unat r" define y where "y = unat n"
  have "sint (ucast (ucast r - n - tag_size * 2 :: u64) :: u32) = int x - int y - 96"
    unfolding e x_def [symmetric] y_def [symmetric]
    by (rule sint_small) (use assms(1,2) in \<open>simp_all add: x_def [symmetric] y_def [symmetric]\<close>)
  then show ?thesis using assms(3) unfolding x_def y_def by linarith
qed

lemma finish_malloc_ok:
  assumes h: "heap_ok h C B" and t: "t \<in> used h C" and n: "unat n < 2 ^ 30" "48 + unat n \<le> tsize h t"
  shows "\<exists>h' C' B'. finish_malloc h n t = Inr (t + tag_size, h') \<and> heap_ok h' C' B' \<and> used h' C' = used h C \<and>
    keeps (used h C - {t}) h h' \<and> sz (tg h' t) = ucast n \<and> 48 + unat n \<le> tsize h' t \<and> hhdm h' = hhdm h"
proof -
  have tA: "t \<in> tags_of C" using t unfolding used_def by simp
  define h1 where "h1 = set_tag h t ((tg h t)\<lparr>sz := ucast n\<rparr>)"
  note s = heap_set_size [OF h t h1_def]
  have u: "unat (ucast n :: u32) = unat n" by (rule unat_ucast_down) (use n in simp)
  define k where "k = (ucast (ucast (real_size (tg h1 t)) - n - tag_size * 2 :: u64) :: u32)"
  have e: "finish_malloc h n t = bindE (if sint k > 0 \<and> getexp k \<ge> 0 then bindE (split_tag h1 t) (\<lambda>(_, h2). Inr h2) else Inr h1)
      (\<lambda>h3. Inr (t + tag_size, h3))"
    unfolding finish_malloc_def upd_tag_def heap_tag(3) [OF h tA] bindE_simps h1_def [symmetric] heap_tag(3) [OF s(1) tA] Let_def k_def ..
  show ?thesis
  proof (cases "sint k > 0 \<and> getexp k \<ge> 0")
    case True
    have "unat n + 96 \<le> unat (real_size (tg h1 t))"
      by (rule worth_splitting) (use True n block_address(6) [OF s(1) tA] in \<open>simp_all add: k_def tsize_def\<close>)
    then have "unat (sz (tg h1 t)) + 96 \<le> tsize h1 t" unfolding s(6) tsize_def by (simp add: u)
    from split_tag_ok [OF s(1) t [folded s(2)] this] obtain m h' C' B' where h': "split_tag h1 t = Inr (m, h')" "heap_ok h' C' B'"
      "used h' C' = used h1 C" "keeps (used h1 C - {t}) h1 h'" "sz (tg h' t) = sz (tg h1 t)" "tsize h' t = 48 + unat (sz (tg h1 t))"
      "hhdm h' = hhdm h1" by blast
    have "keeps (used h C - {t}) h h'" by (rule keeps_trans [OF s(5) h'(4)]) (simp_all add: s(2))
    then show ?thesis unfolding e using True h' s by (intro exI [of _ h'] exI [of _ C'] exI [of _ B']) (simp add: u)
  next
    case False
    then show ?thesis unfolding e if_not_P [OF False] using s n by (intro exI [of _ h1] exI [of _ C] exI [of _ B]) simp
  qed
qed

section \<open>Searching a list\<close>

lemma find_tag_linked:
  assumes "\<And>t. t \<in> set ts \<Longrightarrow> t \<noteq> 0 \<and> tag_at h t = Inr (tg h t)"
    and "linked (\<lambda>a. prev_tag (tg h a)) (\<lambda>a. next_tag (tg h a)) l ts 0"
  shows "\<exists>r. find_tag h n (hd (ts @ [0])) = Some (Inr r) \<and>
    (r \<noteq> 0 \<longrightarrow> r \<in> set ts \<and> n + tag_size \<le> ucast (real_size (tg h r)) - tag_size)"
  using assms
proof (induction ts arbitrary: l)
  case Nil
  then show ?case by (simp add: find_tag.simps)
next
  case (Cons t ts)
  have t: "t \<noteq> 0" "tag_at h t = Inr (tg h t)" using Cons.prems(1) [of t] by simp_all
  show ?case
  proof (cases "n + tag_size \<le> ucast (real_size (tg h t)) - tag_size")
    case True
    then show ?thesis using t by (intro exI [of _ t]) (simp add: find_tag.simps [of h n t])
  next
    case False
    have nx: "next_tag (tg h t) = hd (ts @ [0])" using Cons.prems(2) by simp
    have "find_tag h n t = find_tag h n (hd (ts @ [0]))"
      by (subst find_tag.simps) (simp add: t False nx)
    moreover obtain r where "find_tag h n (hd (ts @ [0])) = Some (Inr r)"
      "r \<noteq> 0 \<longrightarrow> r \<in> set ts \<and> n + tag_size \<le> ucast (real_size (tg h r)) - tag_size"
      using Cons.IH [of t] Cons.prems by auto
    ultimately show ?thesis by (intro exI [of _ r]) simp
  qed
qed

section \<open>A new run\<close>

lemma new_run_ok:
  assumes h: "heap_ok h C B" and a: "PhysicalMemory_alloc (h_phys h) q = Inr (a, s')"
    and n: "16 \<le> unat q" "unat q < 2 ^ 19"
    and b: "magic b = LIBALLOC_MAGIC" "unat (real_size b) = 4096 * unat q" "index b = - 1"
      "split_left b = 0" "split_right b = 0" "next_tag b = 0" "prev_tag b = 0"
  defines "T \<equiv> a + hhdm h"
  defines "h' \<equiv> set_tag (h\<lparr>h_phys := s'\<rparr>) T b"
  shows "T \<noteq> 0 \<and> T \<notin> tags_of C \<and> (\<exists>C'. heap_ok h' C' B \<and> used h' C' = insert T (used h C) \<and> keeps (used h C) h h') \<and>
    tsize h' T = 4096 * unat q \<and> hhdm h' = hhdm h"
proof -
  note r = heap_okD(3) [OF h]
  define p where "p = page_of a"
  define n where "n = unat q"
  have ok': "pm_ok s'" by (rule pm.alloc_ok [OF runs_okD(1) [OF r] a])
  have f: "{p..<p + n} \<subseteq> pm_free (h_phys h)" "pm_free s' = pm_free (h_phys h) - {p..<p + n}" "p \<noteq> 0" "page_aligned a"
    using pm.alloc_block [OF runs_okD(1) [OF r] a] unfolding p_def n_def by simp_all
  have tot: "pm_total s' = pm_total (h_phys h)" "p + n \<le> pm_total (h_phys h)"
    using pm.alloc_total [OF runs_okD(1) [OF r] a] unfolding p_def n_def by simp_all
  have n': "16 \<le> n" "n < 2 ^ 19" using n unfolding n_def by simp_all
  have ua: "unat a = 4096 * p" using f(4) mult_div_mod_eq [of 4096 "unat a"] unfolding p_def page_of_def page_aligned_def by linarith
  have "unat (hhdm h) + 4096 * (p + n) \<le> unat (hhdm h) + 4096 * pm_total (h_phys h)" using tot(2) by simp
  then have top: "unat (hhdm h) + 4096 * (p + n) < 2 ^ 64" using runs_okD(2) [OF r] by linarith
  have uT: "unat T = run_at h p" unfolding T_def run_at_def using ua top by (subst unat_add_nowrap) simp_all
  have T0: "T \<noteq> 0"
  proof
    assume "T = 0"
    then have "unat T = 0" by simp
    then show False using uT f(3) unfolding run_at_def by simp
  qed
  have inner: "{p..<p + n} \<inter> {k..<k + m} = {}" if "C k = Some (m, ts)" for k m ts
    using runs_okD(3) [OF r that] f(1) unfolding run_pages_def by blast
  have TA: "T \<notin> tags_of C"
  proof
    assume "T \<in> tags_of C"
    then obtain k m ts where c: "C k = Some (m, ts)" "T \<in> set ts" unfolding tags_of_def by blast
    have "run_at h k \<le> run_at h p" "run_at h p + 48 \<le> run_at h (k + m)"
      using run_tagsD(4,6) [OF runs_okD(4) [OF r c(1)] c(2)] uT by simp_all
    then have "k \<le> p" "p < k + m" unfolding run_at_def by simp_all
    then have "p \<in> {p..<p + n} \<inter> {k..<k + m}" using n' by simp
    then show False using inner [OF c(1)] by blast
  qed
  have Cp: "C p = None"
  proof (cases "C p")
    case (Some c)
    then obtain m ts where c: "C p = Some (m, ts)" by (cases c) simp
    have "1 \<le> m" using runs_okD(3) [OF r c] unfolding run_pages_def by simp
    then have "p \<in> {p..<p + n} \<inter> {p..<p + m}" using n' by simp
    then show ?thesis using inner [OF c] by blast
  qed simp
  let ?C = "C(p \<mapsto> (n, [T]))"
  have A: "tags_of ?C = insert T (tags_of C)"
    unfolding tags_of_def using Cp by (auto split: if_splits) (metis option.distinct(1))
  have Tg: "tg h' u = (if u = T then b else tg h u)" for u unfolding h'_def by (simp add: tg_def set_tag_def)
  have fields: "h_phys h' = s'" "hhdm h' = hhdm h" "l_freePages h' = l_freePages h" "l_completePages h' = l_completePages h"
    "l_initialized h' = l_initialized h" "dom (tags h') = insert T (dom (tags h))" unfolding h'_def by (simp_all add: set_tag_def)
  have sT: "tsize h' T = 4096 * n" unfolding tsize_def Tg using b(2) n_def by simp
  have ra: "run_at h' = run_at h" unfolding run_at_def fields ..
  have "runs_ok h' ?C"
    unfolding runs_ok_def fields tot
  proof (intro conjI allI impI)
    show "pm_ok s'" "unat (hhdm h) + 4096 * pm_total (h_phys h) < 2 ^ 64" by (rule ok', rule runs_okD(2) [OF r])
    fix k m ts assume k: "?C k = Some (m, ts)"
    show "run_pages h' k m"
      using k f tot n' runs_okD(3) [OF r, of k m ts] unfolding run_pages_def fields by (auto split: if_splits)
    show "run_tags h' k m ts"
    proof (cases "k = p")
      case True
      then have e: "m = n" "ts = [T]" using k by simp_all
      show ?thesis unfolding e True run_tags_def ra using uT sT b(1,4,5) n' by (simp add: Tg run_at_def)
    next
      case False
      then have c: "C k = Some (m, ts)" using k by simp
      show ?thesis
      proof (rule run_tags_cong [OF runs_okD(4) [OF r c] fields(2)])
        fix u assume "u \<in> set ts"
        then have "u \<noteq> T" using run_tag_in [of C k m ts u] c TA by blast
        then show "same_tag h h' u" unfolding same_tag_def Tg by simp
      qed
    qed
  next
    fix k k' m m' ts us assume c: "?C k = Some (m, ts)" "?C k' = Some (m', us)" "k \<noteq> k'"
    then show "{k..<k + m} \<inter> {k'..<k' + m'} = {}"
      using runs_okD(5) [OF r, of k m ts k' m' us] inner [of k m ts] inner [of k' m' us] by (auto split: if_splits)
  qed
  moreover have "bins_ok h' (insert T (tags_of C)) B"
  proof (rule bins_ok_add [OF bins_ok_cong [OF heap_okD(4) [OF h] fields(3)]])
    show "tags_of C \<subseteq> dom (tags h')" unfolding fields using bins_okD(3) [OF heap_okD(4) [OF h]] by blast
    fix u assume "u \<in> tags_of C"
    then have "u \<noteq> T" using TA by auto
    then show "index (tg h' u) = index (tg h u) \<and> next_tag (tg h' u) = next_tag (tg h u) \<and> prev_tag (tg h' u) = prev_tag (tg h u)"
      unfolding Tg by simp
  qed (use T0 b fields in \<open>simp_all add: Tg\<close>)
  ultimately have "heap_ok h' ?C B" unfolding heap_ok_def A fields using heap_okD(1,2) [OF h] by simp
  moreover have "used h' ?C = insert T (used h C)" unfolding used_def A Tg using b(3) TA by auto
  moreover have "keeps (used h C) h h'" unfolding keeps_def used_def Tg using TA by auto
  ultimately show ?thesis using T0 TA sT fields(2) unfolding n_def by blast
qed

text \<open>The page allocator has no run for a new tag.\<close>

definition out_of_pages :: "heap \<Rightarrow> u64 \<Rightarrow> bool" where
  "out_of_pages h n \<longleftrightarrow>
     \<not> alloc_possible (h_phys h) (unat (scast (needed_pages (ucast (ucast (ucast n :: u32) + tag_size :: u64))) :: u64))"

lemma allocate_new_tag_ok:
  assumes h: "heap_ok h C B" and n: "unat n < 2 ^ 30"
  shows "allocate_new_tag h (ucast (n :: u64)) = Inl Halted \<and> out_of_pages h n \<or>
    (\<exists>T h' C'. allocate_new_tag h (ucast n) = Inr (T, h') \<and> T \<noteq> 0 \<and> T \<notin> tags_of C \<and> heap_ok h' C' B \<and>
      used h' C' = insert T (used h C) \<and> keeps (used h C) h h' \<and> 48 + unat n \<le> tsize h' T \<and> hhdm h' = hhdm h)"
proof -
  define u where "u = (ucast (ucast (ucast n :: u32) + tag_size :: u64) :: u32)"
  define k where "k = needed_pages u"
  have u: "unat u = unat n + 48"
  proof -
    have "unat (ucast (ucast n :: u32) :: u64) = unat n"
      using n by (simp only: unat_ucast_up) (simp add: unat_ucast_down)
    then have "unat (ucast (ucast n :: u32) + tag_size :: u64) = unat n + 48"
      using n by (subst unat_add_nowrap) (simp_all add: tag_size_def)
    then show ?thesis unfolding u_def using n by (subst unat_ucast_down) simp_all
  qed
  then have k: "unat u \<le> 4096 * unat k" "16 \<le> unat k" "unat k < 2 ^ 19" "unat (k * l_pageSize) = 4096 * unat k"
    using needed_pages_spec [of u] n by (simp_all add: k_def)
  have sk: "unat (scast k :: u64) = unat k" using k(3) by (intro unat_scast_up) simp
  define b where "b = \<lparr>magic = LIBALLOC_MAGIC, sz = ucast n, real_size = k * l_pageSize, index = - 1,
      split_left = 0, split_right = 0, next_tag = 0, prev_tag = 0\<rparr>"
  show ?thesis
  proof (cases "PhysicalMemory_alloc (h_phys h) (scast k)")
    case (Inl e)
    then have "e = Halted" by (rule pm.alloc_err [OF runs_okD(1) [OF heap_okD(3) [OF h]]])
    moreover have "out_of_pages h n"
      using Inl alloc_cases [OF runs_okD(1) [OF heap_okD(3) [OF h]], of "scast k"]
      unfolding out_of_pages_def k_def u_def by (auto split: if_splits)
    ultimately show ?thesis using Inl by (simp add: allocate_new_tag_def liballoc_alloc_def k_def u_def)
  next
    case (Inr r)
    obtain a s' where r: "r = (a, s')" by (cases r)
    define T where "T = a + hhdm h"
    define h' where "h' = set_tag (h\<lparr>h_phys := s'\<rparr>) T b"
    have c: "T \<noteq> 0 \<and> T \<notin> tags_of C \<and> (\<exists>C'. heap_ok h' C' B \<and> used h' C' = insert T (used h C) \<and> keeps (used h C) h h') \<and>
        tsize h' T = 4096 * unat (scast k :: u64) \<and> hhdm h' = hhdm h"
      unfolding h'_def T_def by (rule new_run_ok [OF h Inr [unfolded r]]) (use k in \<open>simp_all add: sk b_def\<close>)
    moreover have "allocate_new_tag h (ucast n) = Inr (T, h')"
      using c Inr r unfolding allocate_new_tag_def liballoc_alloc_def h'_def b_def u_def [symmetric] k_def [symmetric] T_def by simp
    ultimately show ?thesis using k(1) u sk by auto
  qed
qed

section \<open>Allocating a block\<close>

lemma heap_init_ok: "l_initialized h \<Longrightarrow> heap_init h = h"
  by (simp add: heap_init_def)

lemma room_for:
  assumes "unat (n :: u64) < 2 ^ 30" "n + tag_size \<le> ucast (r :: u32) - tag_size" "48 \<le> unat r"
  shows "48 + unat n \<le> unat r"
proof -
  have "unat (n + tag_size) = unat n + 48" using assms(1) by (subst unat_add_nowrap) (simp_all add: tag_size_def)
  moreover have "unat (ucast r - tag_size :: u64) = unat r - 48"
    using assms(3) by (simp add: unat_sub_if_size tag_size_def word_le_nat_alt unat_ucast_up)
  ultimately have "unat n + 48 \<le> unat r - 48" using assms(2) by (simp add: word_le_nat_alt)
  then show ?thesis by simp
qed

lemma heap_malloc_ok:
  assumes h: "heap_ok h C B" and n: "unat n < 2 ^ 30"
  shows "malloc h n = Inl Halted \<and> out_of_pages h n \<or>
    (\<exists>t h' C' B'. malloc h n = Inr (t + tag_size, h') \<and> heap_ok h' C' B' \<and> t \<notin> used h C \<and> used h' C' = insert t (used h C) \<and>
      keeps (used h C) h h' \<and> sz (tg h' t) = ucast n \<and> 48 + unat n \<le> tsize h' t \<and> hhdm h' = hhdm h)"
proof -
  note b = heap_okD(4) [OF h]
  define i where "i = bin_of (ucast n)"
  have i: "0 \<le> i" "i < 32" "nat i < 32" using bin_of_range [of "ucast n"] unfolding i_def by simp_all
  define ts where "ts = B (nat i)"
  have mem: "u \<in> tags_of C \<and> 0 \<le> index (tg h u)" if "u \<in> set ts" for u using bins_okD(7) [OF b i(3)] that unfolding ts_def by simp
  have "u \<noteq> 0 \<and> tag_at h u = Inr (tg h u)" if "u \<in> set ts" for u using heap_tag [OF h] mem [OF that] by blast
  then obtain f where f: "find_tag h n (hd (ts @ [0])) = Some (Inr f)"
    "f \<noteq> 0 \<longrightarrow> f \<in> set ts \<and> n + tag_size \<le> ucast (real_size (tg h f)) - tag_size"
    using find_tag_linked [of ts h 0 n] bins_okD(5) [OF b i(3)] unfolding ts_def by blast
  have first: "bin_at h i = Inr (hd (ts @ [0]))" using bins_okD(6) [OF b i(3)] bin_at_ok [OF i(1,2)] unfolding ts_def by simp
  have e: "malloc h n = (if f = 0
       then bindE (allocate_new_tag h (ucast n)) (\<lambda>(tag, h1). if tag = 0 then Inr (0, h1) else finish_malloc h1 n tag)
       else bindE (remove_tag h f) (\<lambda>h1. bindE (tag_at h1 f) (\<lambda>t.
            bindE (if split_left t = 0 \<and> split_right t = 0 then bindE (complete_at h1 i) (\<lambda>c. set_complete h1 i (c - 1)) else Inr h1)
              (\<lambda>h2. finish_malloc h2 n f))))"
    unfolding malloc_def Let_def heap_init_ok [OF heap_okD(1) [OF h]] bins_eq i_def [symmetric] first bindE_simps f(1) returned_def option.case ..
  show ?thesis
  proof (cases "f = 0")
    case True
    from allocate_new_tag_ok [OF h n] show ?thesis
    proof
      assume "allocate_new_tag h (ucast n) = Inl Halted \<and> out_of_pages h n"
      then show ?thesis unfolding e using True by simp
    next
      assume "\<exists>T h' C'. allocate_new_tag h (ucast n) = Inr (T, h') \<and> T \<noteq> 0 \<and> T \<notin> tags_of C \<and> heap_ok h' C' B \<and>
        used h' C' = insert T (used h C) \<and> keeps (used h C) h h' \<and> 48 + unat n \<le> tsize h' T \<and> hhdm h' = hhdm h"
      then obtain T h1 C1 where 1: "allocate_new_tag h (ucast n) = Inr (T, h1)" "T \<noteq> 0" "T \<notin> tags_of C" "heap_ok h1 C1 B"
        "used h1 C1 = insert T (used h C)" "keeps (used h C) h h1" "48 + unat n \<le> tsize h1 T" "hhdm h1 = hhdm h" by blast
      have "T \<in> used h1 C1" unfolding 1(5) by simp
      from finish_malloc_ok [OF 1(4) this n 1(7)] obtain h' C' B' where 2: "finish_malloc h1 n T = Inr (T + tag_size, h')"
        "heap_ok h' C' B'" "used h' C' = used h1 C1" "keeps (used h1 C1 - {T}) h1 h'" "sz (tg h' T) = ucast n"
        "48 + unat n \<le> tsize h' T" "hhdm h' = hhdm h1" by blast
      have new: "T \<notin> used h C" using 1(3) unfolding used_def by simp
      have "keeps (used h C) h h'" by (rule keeps_trans [OF 1(6) 2(4)]) (use new in \<open>auto simp: 1(5)\<close>)
      then show ?thesis unfolding e using True 1 2 new by (intro disjI2 exI [of _ T] exI [of _ h'] exI [of _ C'] exI [of _ B']) simp
    qed
  next
    case False
    then have fb: "f \<in> set ts" "n + tag_size \<le> ucast (real_size (tg h f)) - tag_size" using f(2) by simp_all
    note fA = mem [OF fb(1)]
    obtain h1 B1 where 1: "remove_tag h f = Inr h1" "heap_ok h1 C B1" "same_blocks h h1" "index (tg h1 f) = - 1"
      "\<forall>u. u \<noteq> f \<longrightarrow> index (tg h1 u) = index (tg h u)"
      using heap_remove_tag [OF h, of f] fA by blast
    have u1: "used h1 C = insert f (used h C)"
    proof -
      have "index (tg h1 u) < 0 \<longleftrightarrow> u = f \<or> index (tg h u) < 0" for u using 1(4,5) by (cases "u = f") simp_all
      then show ?thesis unfolding used_def using fA by blast
    qed
    have new: "f \<notin> used h C" using fA unfolding used_def by auto
    define c where "c = l_completePages h1 ! nat i"
    have "\<exists>h2. (if split_left (tg h1 f) = 0 \<and> split_right (tg h1 f) = 0
        then bindE (complete_at h1 i) (\<lambda>c. set_complete h1 i (c - 1)) else Inr h1) = Inr h2 \<and>
        heap_ok h2 C B1 \<and> used h2 C = used h1 C \<and> same_blocks h1 h2"
    proof (cases "split_left (tg h1 f) = 0 \<and> split_right (tg h1 f) = 0")
      case True
      have "complete_at h1 i = Inr c" using i unfolding complete_at_def c_def MAXEXP_def by simp
      then show ?thesis using heap_set_complete [OF 1(2) i(1,2), of "c - 1"] True by simp
    next
      case False
      then show ?thesis unfolding if_not_P [OF False] using 1(2) by (intro exI [of _ h1]) (simp add: same_blocks_def)
    qed
    then obtain h2 where 2: "(if split_left (tg h1 f) = 0 \<and> split_right (tg h1 f) = 0
        then bindE (complete_at h1 i) (\<lambda>c. set_complete h1 i (c - 1)) else Inr h1) = Inr h2"
        "heap_ok h2 C B1" "used h2 C = used h1 C" "same_blocks h1 h2" by blast
    have sb: "real_size (tg h2 u) = real_size (tg h u)" "sz (tg h2 u) = sz (tg h u)" "hhdm h2 = hhdm h" for u
      using 1(3) 2(4) unfolding same_blocks_def by simp_all
    have room: "48 + unat n \<le> tsize h2 f"
      using room_for [OF n fb(2)] block_address(4) [OF h, of f] fA unfolding tsize_def sb by simp
    have "f \<in> used h2 C" unfolding 2(3) u1 by simp
    from finish_malloc_ok [OF 2(2) this n room] obtain h' C' B' where 3: "finish_malloc h2 n f = Inr (f + tag_size, h')"
      "heap_ok h' C' B'" "used h' C' = used h2 C" "keeps (used h2 C - {f}) h2 h'" "sz (tg h' f) = ucast n"
      "48 + unat n \<le> tsize h' f" "hhdm h' = hhdm h2" by blast
    have "malloc h n = Inr (f + tag_size, h')"
      unfolding e if_not_P [OF False] 1(1) bindE_simps heap_tag(3) [OF 1(2) conjunct1 [OF fA]] 2(1) 3(1) ..
    moreover have "keeps (used h C) h h'"
    proof -
      have "u \<in> used h2 C - {f}" if "u \<in> used h C" for u using that new unfolding 2(3) u1 by auto
      then show ?thesis using 3(4) unfolding keeps_def sb by blast
    qed
    ultimately show ?thesis using 3 2(3) u1 new sb(3) by (intro disjI2 exI [of _ f] exI [of _ h'] exI [of _ C'] exI [of _ B']) simp
  qed
qed

section \<open>Sequences of calls\<close>

text \<open>
  What callers do: they ask for blocks and give back blocks they hold. \<open>L\<close> are the blocks held, from their
  address to the size asked for. A request below 1 GiB keeps its size in the signed 32-bit computations.
\<close>

definition request :: "u64 \<Rightarrow> bool" where
  "request n \<longleftrightarrow> unat n < 2 ^ 30"

text \<open>The bytes of the blocks are their owners' business: they may change in any way between the calls.\<close>

definition put_bytes :: "heap \<Rightarrow> mem \<Rightarrow> heap" where
  "put_bytes h m = h\<lparr>h_phys := (h_phys h)\<lparr>ram := m\<rparr>\<rparr>"

inductive heap_session :: "heap \<Rightarrow> heap \<Rightarrow> (u64 \<Rightarrow> u64 option) \<Rightarrow> bool" for h0 where
  start: "heap_session h0 h0 Map.empty"
| malloc: "heap_session h0 h L \<Longrightarrow> request n \<Longrightarrow> malloc h n = Inr (p, h') \<Longrightarrow> heap_session h0 h' (L(p \<mapsto> n))"
| calloc: "heap_session h0 h L \<Longrightarrow> unat k * unat n < 2 ^ 30 \<Longrightarrow> calloc h k n = Inr (p, h') \<Longrightarrow>
    heap_session h0 h' (L(p \<mapsto> k * n))"
| realloc: "heap_session h0 h L \<Longrightarrow> p \<in> dom L \<Longrightarrow> request n \<Longrightarrow> n \<noteq> 0 \<Longrightarrow> realloc h p n = Inr (q, h') \<Longrightarrow>
    heap_session h0 h' ((L(q \<mapsto> n))(p := None))"
| store: "heap_session h0 h L \<Longrightarrow> heap_session h0 (put_bytes h m) L"
| free: "heap_session h0 h L \<Longrightarrow> p \<in> dom L \<Longrightarrow> heap_free h p = Inr h' \<Longrightarrow> heap_session h0 h' (L(p := None))"

definition boot_heap :: "heap \<Rightarrow> bool" where
  "boot_heap h \<longleftrightarrow> \<not> l_initialized h \<and> pm_ok (h_phys h) \<and> unat (hhdm h) + 4096 * pm_total (h_phys h) < 2 ^ 64"

text \<open>The tag of a block held has room for it and keeps the size asked for, which \<^verbatim>\<open>realloc\<close> reads.\<close>

definition holds :: "heap \<Rightarrow> u64 \<Rightarrow> u64 \<Rightarrow> bool" where
  "holds h p n \<longleftrightarrow> request n \<and> 48 + unat n \<le> tsize h (p - tag_size) \<and> sz (tg h (p - tag_size)) = ucast n"

lemma keeps_holds:
  assumes "keeps U h h'" "p - tag_size \<in> U" "holds h p n"
  shows "holds h' p n"
  using assms unfolding keeps_def holds_def tsize_def by simp

definition session_ok :: "heap \<Rightarrow> (u64 \<Rightarrow> u64 option) \<Rightarrow> bool" where
  "session_ok h L \<longleftrightarrow> (\<exists>C B. heap_ok (heap_init h) C B \<and> used (heap_init h) C = (\<lambda>p. p - tag_size) ` dom L \<and>
     (l_initialized h \<or> C = Map.empty) \<and> (\<forall>p n. L p = Some n \<longrightarrow> holds (heap_init h) p n))"

lemma session_okI:
  assumes "heap_ok h C B" "used h C = (\<lambda>p. p - tag_size) ` dom L"
    and "\<And>p n. L p = Some n \<Longrightarrow> holds h p n"
  shows "session_ok h L"
  using assms unfolding session_ok_def heap_init_ok [OF heap_okD(1) [OF assms(1)]] using heap_okD(1) [OF assms(1)] by blast

lemma boot_session_ok:
  assumes "boot_heap h"
  shows "session_ok h Map.empty"
proof -
  have "heap_ok (heap_init h) Map.empty (\<lambda>_. [])"
    using assms unfolding boot_heap_def heap_ok_def runs_ok_def bins_ok_def tags_of_def heap_init_def
    by (simp add: MAXEXP_def)
  moreover have "used (heap_init h) Map.empty = {}" unfolding used_def tags_of_def by simp
  ultimately show ?thesis unfolding session_ok_def by (intro exI [of _ Map.empty] exI [of _ "\<lambda>_. []"]) simp
qed

lemma malloc_init: "malloc (heap_init h) n = malloc h n"
proof -
  have "heap_init (heap_init h) = heap_init h" by (simp add: heap_init_def)
  then show ?thesis by (simp only: malloc_def)
qed

lemma session_malloc:
  assumes s: "session_ok h L" and n: "request n"
  shows "malloc h n = Inl Halted \<and> out_of_pages h n \<or>
    (\<exists>q h'. malloc h n = Inr (q, h') \<and> L q = None \<and> q \<noteq> 0 \<and> session_ok h' (L(q \<mapsto> n)))"
proof -
  obtain C B where c: "heap_ok (heap_init h) C B" "used (heap_init h) C = (\<lambda>p. p - tag_size) ` dom L"
    "\<forall>p n. L p = Some n \<longrightarrow> holds (heap_init h) p n"
    using s unfolding session_ok_def by blast
  from heap_malloc_ok [OF c(1), of n] show ?thesis
  proof (rule disj_forward)
    show "unat n < 2 ^ 30" using n unfolding request_def .
    assume "malloc (heap_init h) n = Inl Halted \<and> out_of_pages (heap_init h) n"
    moreover have "out_of_pages (heap_init h) n = out_of_pages h n" by (simp add: out_of_pages_def heap_init_def)
    ultimately show "malloc h n = Inl Halted \<and> out_of_pages h n" unfolding malloc_init by simp
  next
    assume "\<exists>t h' C' B'. malloc (heap_init h) n = Inr (t + tag_size, h') \<and> heap_ok h' C' B' \<and> t \<notin> used (heap_init h) C \<and>
      used h' C' = insert t (used (heap_init h) C) \<and> keeps (used (heap_init h) C) (heap_init h) h' \<and> sz (tg h' t) = ucast n \<and>
      48 + unat n \<le> tsize h' t \<and> hhdm h' = hhdm (heap_init h)"
    then obtain t h' C' B' where m: "malloc h n = Inr (t + tag_size, h')" "heap_ok h' C' B'" "t \<notin> used (heap_init h) C"
      "used h' C' = insert t (used (heap_init h) C)" "keeps (used (heap_init h) C) (heap_init h) h'" "sz (tg h' t) = ucast n" "48 + unat n \<le> tsize h' t"
      unfolding malloc_init by blast
    have new: "L (t + tag_size) = None"
    proof (cases "L (t + tag_size)")
      case (Some k)
      then have "t + tag_size - tag_size \<in> used (heap_init h) C" unfolding c(2) by blast
      then show ?thesis using m(3) by simp
    qed
    have "t \<in> tags_of C'" using m(4) unfolding used_def by blast
    then have z: "t + tag_size \<noteq> 0" by (rule block_address(2) [OF m(2)])
    have "session_ok h' (L(t + tag_size \<mapsto> n))"
    proof (rule session_okI [OF m(2)])
      show "used h' C' = (\<lambda>p. p - tag_size) ` dom (L(t + tag_size \<mapsto> n))" unfolding m(4) c(2) by auto
      fix p k assume p: "(L(t + tag_size \<mapsto> n)) p = Some k"
      show "holds h' p k"
      proof (cases "p = t + tag_size")
        case True
        then show ?thesis using p m(6,7) n by (simp add: holds_def)
      next
        case False
        then have l: "L p = Some k" using p by simp
        then have "p - tag_size \<in> used (heap_init h) C" unfolding c(2) by blast
        then show ?thesis using keeps_holds [OF m(5)] c(3) l by simp
      qed
    qed
    then show "\<exists>q h'. malloc h n = Inr (q, h') \<and> L q = None \<and> q \<noteq> 0 \<and> session_ok h' (L(q \<mapsto> n))" using m(1) new z by blast
  qed
qed

lemma session_live:
  assumes "session_ok h L" "L p = Some n"
  shows "l_initialized h" "\<exists>C B. heap_ok h C B \<and> used h C = (\<lambda>p. p - tag_size) ` dom L \<and>
    (\<forall>p n. L p = Some n \<longrightarrow> holds h p n)"
proof -
  obtain C B where c: "heap_ok (heap_init h) C B" "used (heap_init h) C = (\<lambda>p. p - tag_size) ` dom L"
    "l_initialized h \<or> C = Map.empty" "\<forall>p n. L p = Some n \<longrightarrow> holds (heap_init h) p n"
    using assms(1) unfolding session_ok_def by blast
  have "p - tag_size \<in> used (heap_init h) C" unfolding c(2) using assms(2) by blast
  then have "C \<noteq> Map.empty" unfolding used_def tags_of_def by auto
  then show i: "l_initialized h" using c(3) by blast
  show "\<exists>C B. heap_ok h C B \<and> used h C = (\<lambda>p. p - tag_size) ` dom L \<and>
    (\<forall>p n. L p = Some n \<longrightarrow> holds h p n)"
    using c unfolding heap_init_ok [OF i] by blast
qed

lemma session_free:
  assumes s: "session_ok h L" and p: "L p = Some n"
  shows "\<exists>h'. heap_free h p = Inr h' \<and> session_ok h' (L(p := None))"
proof -
  obtain C B where c: "heap_ok h C B" "used h C = (\<lambda>p. p - tag_size) ` dom L"
    "\<forall>p n. L p = Some n \<longrightarrow> holds h p n"
    using session_live(2) [OF s p] by blast
  have t: "p - tag_size \<in> used h C" unfolding c(2) using p by blast
  have e: "p - tag_size + tag_size = p" by simp
  obtain h' C' B' where f: "heap_free h p = Inr h'" "heap_ok h' C' B'" "used h' C' = used h C - {p - tag_size}"
    "keeps (used h C - {p - tag_size}) h h'"
    using heap_free_ok [OF c(1) t] unfolding e by blast
  have "session_ok h' (L(p := None))"
  proof (rule session_okI [OF f(2)])
    show "used h' C' = (\<lambda>p. p - tag_size) ` dom (L(p := None))" unfolding f(3) c(2) by auto
    fix q k assume "(L(p := None)) q = Some k"
    then have q: "q \<noteq> p" "L q = Some k" by (auto split: if_splits)
    then have "q - tag_size \<in> used h C - {p - tag_size}" unfolding c(2) by auto
    then show "holds h' q k" using keeps_holds [OF f(4)] c(3) q(2) by simp
  qed
  then show ?thesis using f(1) by blast
qed

lemma pm_ram: "pm_ok (s\<lparr>ram := m\<rparr>) = pm_ok s" "pm_total (s\<lparr>ram := m\<rparr>) = pm_total s" "pm_free (s\<lparr>ram := m\<rparr>) = pm_free s"
  unfolding pm_ok_def pm_total_def pm_free_def page_limit_def by simp_all

lemma heap_ok_ram:
  fixes m :: mem
  assumes "heap_ok h C B"
  defines "h' \<equiv> h\<lparr>h_phys := (h_phys h)\<lparr>ram := m\<rparr>\<rparr>"
  shows "heap_ok h' C B" "tg h' = tg h"
proof -
  show T: "tg h' = tg h" by (rule ext) (simp add: h'_def tg_def)
  note r = heap_okD(3) [OF assms(1)]
  have f: "h_phys h' = (h_phys h)\<lparr>ram := m\<rparr>" "hhdm h' = hhdm h" "l_freePages h' = l_freePages h" "tags h' = tags h"
    "l_initialized h' = l_initialized h" "l_completePages h' = l_completePages h" unfolding h'_def by simp_all
  have "runs_ok h' C"
    unfolding runs_ok_def f pm_ram
  proof (intro conjI allI impI)
    show "pm_ok (h_phys h)" "unat (hhdm h) + 4096 * pm_total (h_phys h) < 2 ^ 64" by (rule runs_okD [OF r])+
    fix p n us assume p: "C p = Some (n, us)"
    show "run_pages h' p n" using runs_okD(3) [OF r p] unfolding run_pages_def f pm_ram .
    show "run_tags h' p n us" by (rule run_tags_cong [OF runs_okD(4) [OF r p] f(2)]) (simp add: same_tag_def T)
  next
    fix p q n m us vs assume "C p = Some (n, us)" "C q = Some (m, vs)" "p \<noteq> q"
    then show "{p..<p + n} \<inter> {q..<q + m} = {}" by (rule runs_okD(5) [OF r])
  qed
  moreover have "bins_ok h' (tags_of C) B"
    by (rule bins_ok_cong [OF heap_okD(4) [OF assms(1)] f(3)])
      (use bins_okD(3) [OF heap_okD(4) [OF assms(1)]] in \<open>simp_all add: T f\<close>)
  ultimately show "heap_ok h' C B" unfolding heap_ok_def f using heap_okD(1,2) [OF assms(1)] by simp
qed

lemma session_ram:
  assumes "session_ok h L"
  shows "session_ok (put_bytes h m) L"
proof -
  let ?h = "put_bytes h m"
  obtain C B where c: "heap_ok (heap_init h) C B" "used (heap_init h) C = (\<lambda>p. p - tag_size) ` dom L"
    "l_initialized h \<or> C = Map.empty" "\<forall>p n. L p = Some n \<longrightarrow> holds (heap_init h) p n"
    using assms unfolding session_ok_def by blast
  have e: "heap_init ?h = (heap_init h)\<lparr>h_phys := (h_phys (heap_init h))\<lparr>ram := m\<rparr>\<rparr>" by (simp add: heap_init_def put_bytes_def)
  note k = heap_ok_ram [OF c(1), of m, folded e]
  have "used (heap_init ?h) C = used (heap_init h) C" "holds (heap_init ?h) = holds (heap_init h)"
    unfolding used_def holds_def tsize_def k(2) by simp_all
  then show ?thesis unfolding session_ok_def using k(1) c(2,3,4) by (intro exI [of _ C] exI [of _ B]) (simp add: put_bytes_def)
qed

section \<open>The heap as an interface\<close>

text \<open>
  What the kernel's callers rely on. \<open>inv s L\<close> is the heap's invariant with the blocks \<open>L\<close> held; \<open>fits\<close> are the sizes
  that may be asked for, \<open>full\<close> says that there are no pages for one, \<open>put\<close> is a change of the bytes of the blocks.
\<close>

locale block_heap =
  fixes alloc :: "'s \<Rightarrow> u64 \<Rightarrow> (u64 \<times> 's) result"
    and release :: "'s \<Rightarrow> u64 \<Rightarrow> 's result"
    and put :: "'s \<Rightarrow> mem \<Rightarrow> 's"
    and fits :: "u64 \<Rightarrow> bool"
    and full :: "'s \<Rightarrow> u64 \<Rightarrow> bool"
    and inv :: "'s \<Rightarrow> (u64 \<Rightarrow> u64 option) \<Rightarrow> bool"
  assumes alloc_block: "inv s L \<Longrightarrow> fits n \<Longrightarrow> alloc s n = Inl Halted \<and> full s n \<or>
      (\<exists>q s'. alloc s n = Inr (q, s') \<and> L q = None \<and> q \<noteq> 0 \<and> inv s' (L(q \<mapsto> n)))"
    and release_block: "inv s L \<Longrightarrow> L p = Some n \<Longrightarrow> \<exists>s'. release s p = Inr s' \<and> inv s' (L(p := None))"
    and put_inv: "inv s L \<Longrightarrow> inv (put s m) L"
begin

text \<open>A block asked for and filled.\<close>

lemma alloc_put:
  assumes i: "inv s L" and n: "fits n"
  obtains "alloc s n = Inl Halted" "full s n"
  | q s' where "alloc s n = Inr (q, s')" "L q = None" "q \<noteq> 0" "inv s' (L(q \<mapsto> n))" "\<And>m. inv (put s' m) (L(q \<mapsto> n))"
  using alloc_block [OF i n] put_inv by blast

text \<open>A block exchanged for another, into which the bytes are copied before the old one is given back.\<close>

lemma exchange:
  assumes i: "inv s L" and p: "L p = Some old" and n: "fits n"
  obtains "alloc s n = Inl Halted" "full s n"
  | q s' where "alloc s n = Inr (q, s')" "L q = None" "q \<noteq> 0"
      "\<And>m. \<exists>s''. release (put s' m) p = Inr s'' \<and> inv s'' ((L(q \<mapsto> n))(p := None))"
      "\<exists>s''. release s' p = Inr s'' \<and> inv s'' ((L(q \<mapsto> n))(p := None))"
proof (rule alloc_put [OF i n])
  fix q s' assume a: "alloc s n = Inr (q, s')" "L q = None" "q \<noteq> 0" "inv s' (L(q \<mapsto> n))" "\<And>m. inv (put s' m) (L(q \<mapsto> n))"
  have "(L(q \<mapsto> n)) p = Some old" using p a(2) by auto
  then show thesis using that(2) [OF a(1-3)] release_block [OF a(4)] release_block [OF a(5)] by blast
qed (rule that(1))

lemma alloc_release:
  assumes "inv s L" "fits n" "alloc s n = Inr (q, s')"
  shows "\<exists>s''. release s' q = Inr s'' \<and> inv s'' L"
proof -
  have l: "L q = None" "inv s' (L(q \<mapsto> n))" using alloc_block [OF assms(1,2)] assms(3) by auto
  have e: "(L(q \<mapsto> n))(q := None) = L" using l(1) by auto
  from release_block [OF l(2) fun_upd_same] show ?thesis unfolding e .
qed

end

interpretation kheap: block_heap malloc heap_free put_bytes request out_of_pages session_ok
  by unfold_locales (rule session_malloc session_free session_ram; assumption)+

text \<open>The operators \<^verbatim>\<open>new\<close> and \<^verbatim>\<open>delete\<close> give the same.\<close>

lemma operators: "operator_new = malloc" "operator_new_array = malloc" "operator_delete = heap_free"
  by (simp_all add: fun_eq_iff operator_new_def operator_new_array_def operator_delete_def)

interpretation kops: block_heap operator_new operator_delete put_bytes request out_of_pages session_ok
  unfolding operators by (rule kheap.block_heap_axioms)

lemma session_calloc:
  assumes s: "session_ok h L" and n: "unat k * unat n < 2 ^ 30"
  shows "calloc h k n = Inl Halted \<and> out_of_pages h (k * n) \<or>
    (\<exists>q h'. calloc h k n = Inr (q, h') \<and> L q = None \<and> q \<noteq> 0 \<and> session_ok h' (L(q \<mapsto> k * n)))"
proof -
  have u: "unat (k * n) = unat k * unat n" using n by (subst unat_mult_lem [THEN iffD1]) simp_all
  have d: "unat (ucast (k * n) :: u32) = unat k * unat n" using n u by (subst unat_ucast_down) simp_all
  have e: "(scast (ucast (k * n) :: u32) :: u64) = k * n"
    unfolding word_unat_eq_iff by (subst unat_scast_up) (use n u d in simp_all)
  have "request (k * n)" unfolding request_def using n u by simp
  then show ?thesis
  proof (rule kheap.alloc_put [OF s])
    assume "malloc h (k * n) = Inl Halted" "out_of_pages h (k * n)"
    then show ?thesis unfolding calloc_def Let_def e by simp
  next
    fix q h1 assume m: "malloc h (k * n) = Inr (q, h1)" "L q = None" "q \<noteq> 0" "session_ok h1 (L(q \<mapsto> k * n))"
      and put: "\<And>m. session_ok (put_bytes h1 m) (L(q \<mapsto> k * n))"
    have "k * n \<le> 0x7fffffff" using n u by (simp add: word_le_nat_alt)
    then have "liballoc_memset h1 q 0 (k * n) = (if k * n = 0 then Inr h1
        else Inr (put_bytes h1 (memset (ram (h_phys h1)) (q - hhdm h1) 0 (unat (k * n)))))"
      unfolding liballoc_memset_def put_bytes_def using m(3) by simp
    then show ?thesis unfolding calloc_def Let_def e using m put by (auto simp del: fun_upd_apply)
  qed
qed

lemma session_realloc:
  assumes s: "session_ok h L" and p: "L p = Some old" and n: "request n" "n \<noteq> 0"
  shows "realloc h p n = Inl Halted \<and> out_of_pages h n \<or>
    (\<exists>q h'. realloc h p n = Inr (q, h') \<and> L q = None \<and> q \<noteq> 0 \<and> session_ok h' ((L(q \<mapsto> n))(p := None)))"
proof -
  obtain C B where c: "heap_ok h C B" "used h C = (\<lambda>p. p - tag_size) ` dom L"
    using session_live(2) [OF s p] by blast
  have t: "p - tag_size \<in> tags_of C" using c(2) p unfolding used_def by blast
  have p0: "p \<noteq> 0" using block_address(2) [OF c(1) t] by simp
  note at = heap_tag(3) [OF c(1) t]
  show ?thesis
  proof (rule kheap.exchange [OF s p n(1)])
    assume "malloc h n = Inl Halted" "out_of_pages h n"
    then show ?thesis unfolding realloc_def Let_def at using n(2) p0 by simp
  next
    fix q h1 assume m: "malloc h n = Inr (q, h1)" "L q = None" "q \<noteq> 0"
      and r: "\<And>m. \<exists>h'. heap_free (put_bytes h1 m) p = Inr h' \<and> session_ok h' ((L(q \<mapsto> n))(p := None))"
        "\<exists>h'. heap_free h1 p = Inr h' \<and> session_ok h' ((L(q \<mapsto> n))(p := None))"
    define k where "k = (let old = scast (sz (tg h (p - tag_size))) :: u64 in if old > n then n else old)"
    obtain h2 h3 where h2: "liballoc_memcpy h1 q p k = Inr h2" "heap_free h2 p = Inr h3" "session_ok h3 ((L(q \<mapsto> n))(p := None))"
    proof (cases "k = 0")
      case True
      then have "liballoc_memcpy h1 q p k = Inr h1" by (simp add: liballoc_memcpy_def)
      then show thesis using r(2) that by blast
    next
      case False
      then obtain b where "liballoc_memcpy h1 q p k = Inr (put_bytes h1 b)"
        unfolding liballoc_memcpy_def put_bytes_def Let_def using m(3) p0 by simp
      then show thesis using r(1) [of b] that by blast
    qed
    have "realloc h p n = Inr (q, h3)"
      unfolding realloc_def at Let_def using n(2) p0 m(1) h2(1,2) unfolding k_def Let_def by simp
    then show ?thesis using m(2,3) h2(3) by blast
  qed
qed

lemma block_in_run:
  assumes h: "heap_ok h C B" and t: "t \<in> tags_of C" and a: "unat t \<le> a" "a < unat t + tsize h t"
  shows "unat (hhdm h) \<le> a" "(a - unat (hhdm h)) div 4096 \<notin> pm_free (h_phys h)"
proof -
  note r = heap_okD(3) [OF h]
  obtain p n ts where c: "C p = Some (n, ts)" "t \<in> set ts" using t unfolding tags_of_def by blast
  have "run_at h p \<le> unat t" "unat t + tsize h t \<le> run_at h (p + n)" using run_tagsD(6) [OF runs_okD(4) [OF r c(1)] c(2)] by simp_all
  then have l: "unat (hhdm h) + 4096 * p \<le> a" "a < unat (hhdm h) + 4096 * (p + n)" using a unfolding run_at_def by linarith+
  then show "unat (hhdm h) \<le> a" by linarith
  have "4096 * p \<le> a - unat (hhdm h)" "a - unat (hhdm h) < 4096 * (p + n)" using l by linarith+
  then have "p \<le> (a - unat (hhdm h)) div 4096" "(a - unat (hhdm h)) div 4096 < p + n"
    by (simp_all add: less_eq_div_iff_mult_less_eq div_less_iff_less_mult mult.commute)
  then show "(a - unat (hhdm h)) div 4096 \<notin> pm_free (h_phys h)"
    using runs_okD(3) [OF r c(1)] unfolding run_pages_def by auto
qed

lemma session_invariant:
  assumes "heap_session h0 h L" "boot_heap h0"
  shows "session_ok h L"
  using assms(1)
proof (induction rule: heap_session.induct)
  case start
  show ?case by (rule boot_session_ok [OF assms(2)])
next
  case (malloc h L n p h')
  then show ?case using session_malloc [OF malloc.IH malloc.hyps(2)] by (auto simp del: fun_upd_apply)
next
  case (calloc h L k n p h')
  then show ?case using session_calloc [OF calloc.IH calloc.hyps(2)] by (auto simp del: fun_upd_apply)
next
  case (realloc h L p n q h')
  then show ?case using session_realloc [OF realloc.IH _ realloc.hyps(3,4)] by (fastforce simp del: fun_upd_apply)
next
  case (store h L m)
  then show ?case using session_ram by blast
next
  case (free h L p h')
  then show ?case using session_free [OF free.IH] by (fastforce simp del: fun_upd_apply)
qed

section \<open>Where the blocks are\<close>

lemma held_block:
  assumes "heap_ok h C B" "used h C = (\<lambda>p. p - tag_size) ` dom L" "L p = Some n" "holds h p n"
  shows "p - tag_size \<in> tags_of C" "unat p = unat (p - tag_size) + 48"
    "unat p + unat n \<le> unat (p - tag_size) + tsize h (p - tag_size)" "unat p + unat n < 2 ^ 64" "p \<noteq> 0"
proof -
  show t: "p - tag_size \<in> tags_of C" using assms(2,3) unfolding used_def by blast
  note a = block_address [OF assms(1) t]
  show u: "unat p = unat (p - tag_size) + 48" and "p \<noteq> 0" using a(1,2) by simp_all
  show e: "unat p + unat n \<le> unat (p - tag_size) + tsize h (p - tag_size)" using u assms(4) unfolding holds_def by simp
  show "unat p + unat n < 2 ^ 64" using e a(3) by linarith
qed

lemma session_apart:
  assumes ok: "session_ok h L" and p: "L p = Some n" and q: "L q = Some m" and ne: "p \<noteq> q"
  shows "unat p + unat n \<le> unat q \<or> unat q + unat m \<le> unat p"
proof -
  obtain C B where c: "heap_ok h C B" "used h C = (\<lambda>p. p - tag_size) ` dom L" "\<forall>p n. L p = Some n \<longrightarrow> holds h p n"
    using session_live(2) [OF ok p] by blast
  note P = held_block [OF c(1,2) p] and Q = held_block [OF c(1,2) q]
  have h: "holds h p n" "holds h q m" using c(3) p q by blast+
  have "p - tag_size \<noteq> q - tag_size" using ne by simp
  from tags_apart [OF heap_okD(3) [OF c(1)] P(1) Q(1) this, OF h] show ?thesis using P(2,3) Q(2,3) h by fastforce
qed

lemma session_pages:
  assumes ok: "session_ok h L" and p: "L p = Some n" and a: "unat p \<le> a" "a < unat p + unat n"
  shows "unat (hhdm h) \<le> a" "(a - unat (hhdm h)) div 4096 \<notin> pm_free (h_phys h)"
proof -
  obtain C B where c: "heap_ok h C B" "used h C = (\<lambda>p. p - tag_size) ` dom L" "holds h p n"
    using session_live(2) [OF ok p] p by blast
  note P = held_block [OF c(1,2) p c(3)]
  show "unat (hhdm h) \<le> a" "(a - unat (hhdm h)) div 4096 \<notin> pm_free (h_phys h)"
    using block_in_run [OF c(1) P(1), of a] P(2,3) a by simp_all
qed

section \<open>Properties\<close>

text \<open>C20. From boot on, whatever sequence of \<^verbatim>\<open>malloc\<close>, \<^verbatim>\<open>calloc\<close>, \<^verbatim>\<open>realloc\<close> and \<^verbatim>\<open>free\<close> calls callers make, with requests
  below 1 GiB and giving back only blocks they hold, and whatever bytes they write in between: the blocks held never overlap, and every byte of them is in
  a page taken from the page allocator.\<close>

theorem heap_blocks_apart:
  assumes b: "boot_heap h0" and s: "heap_session h0 h L"
  shows "(\<forall>p n q m. L p = Some n \<and> L q = Some m \<and> p \<noteq> q \<longrightarrow> unat p + unat n \<le> unat q \<or> unat q + unat m \<le> unat p) \<and>
    (\<forall>p n a. L p = Some n \<and> unat p \<le> a \<and> a < unat p + unat n \<longrightarrow>
      unat (hhdm h) \<le> a \<and> (a - unat (hhdm h)) div 4096 \<notin> pm_free (h_phys h))"
proof -
  note ok = session_invariant [OF s b]
  show ?thesis using session_apart [OF ok] session_pages [OF ok] by blast
qed

theorem heap_blocks_apart_witness:
  "\<exists>h1. malloc demo_heap 100 = Inr (0xffff800000008030, h1) \<and>
    (0xffff800000008040 - unat (hhdm h1)) div 4096 \<notin> pm_free (h_phys h1)"
proof -
  obtain h1 where m: "malloc demo_heap 100 = Inr (0xffff800000008030, h1)" using demo_malloc [of 100] by auto
  have b: "boot_heap demo_heap"
    unfolding boot_heap_def using demo_heap_pm_ok by (simp add: demo_heap_def demo_heap_pm_def pm_total_def)
  have n: "request 100" unfolding request_def by simp
  have s: "heap_session demo_heap h1 (Map.empty(0xffff800000008030 \<mapsto> 100))"
    by (rule heap_session.malloc [OF heap_session.start n m])
  have "unat (0xffff800000008030 :: u64) \<le> 0xffff800000008040" "(0xffff800000008040 :: nat) < unat (0xffff800000008030 :: u64) + unat (100 :: u64)"
    by simp_all
  then have "(0xffff800000008040 - unat (hhdm h1)) div 4096 \<notin> pm_free (h_phys h1)"
    using heap_blocks_apart [OF b s] by (metis fun_upd_same)
  then show ?thesis using m by simp
qed

text \<open>C21. In every such sequence the next call returns: \<^verbatim>\<open>malloc\<close> and \<^verbatim>\<open>realloc\<close> give an address no block held has, unless the page
  allocator has no run of the pages needed and halts, and \<^verbatim>\<open>free\<close> of a block held always succeeds; no loop over the lists or the
  neighbours runs for ever and no pointer followed is null or stray.\<close>

theorem heap_calls_return:
  assumes b: "boot_heap h0" and s: "heap_session h0 h L" and n: "request n" "n \<noteq> 0" and p: "p \<in> dom L"
  shows "(malloc h n = Inl Halted \<and> out_of_pages h n \<or> (\<exists>q h'. malloc h n = Inr (q, h') \<and> q \<noteq> 0 \<and> L q = None)) \<and>
    (realloc h p n = Inl Halted \<and> out_of_pages h n \<or> (\<exists>q h'. realloc h p n = Inr (q, h') \<and> q \<noteq> 0 \<and> L q = None)) \<and>
    (\<exists>h'. heap_free h p = Inr h')"
proof -
  note ok = session_invariant [OF s b]
  obtain k where k: "L p = Some k" using p by blast
  show ?thesis using session_malloc [OF ok n(1)] session_realloc [OF ok k n] session_free [OF ok k] by blast
qed

theorem heap_calls_return_witness:
  "\<exists>h1. malloc demo_heap 100 = Inr (0xffff800000008030, h1) \<and> (\<exists>h2. heap_free h1 0xffff800000008030 = Inr h2) \<and>
    malloc h1 0x2000 \<noteq> Inl Diverges"
proof -
  obtain h1 where m: "malloc demo_heap 100 = Inr (0xffff800000008030, h1)" using demo_malloc [of 100] by auto
  have b: "boot_heap demo_heap"
    unfolding boot_heap_def using demo_heap_pm_ok by (simp add: demo_heap_def demo_heap_pm_def pm_total_def)
  have n: "request 100" "request 0x2000" "(0x2000 :: u64) \<noteq> 0" unfolding request_def by simp_all
  have s: "heap_session demo_heap h1 (Map.empty(0xffff800000008030 \<mapsto> 100))"
    by (rule heap_session.malloc [OF heap_session.start n(1) m])
  have p: "0xffff800000008030 \<in> dom (Map.empty(0xffff800000008030 \<mapsto> (100 :: u64)) :: u64 \<Rightarrow> u64 option)" by simp
  show ?thesis using heap_calls_return [OF b s n(2,3) p] m by auto
qed

end
