(* ===== verification/Heap_Phys.thy ===== *)
theory Heap_Phys
  imports Liballoc
begin

text \<open>
  The physical memory under the kernel heap: which bytes the heap's operations write. The tags are kept apart from
  the bytes of the blocks, so only the page allocator, which clears the pages it hands out, writes memory.
\<close>

section \<open>The pages of an allocation\<close>

text \<open>Addresses inside a block of pages.\<close>

lemma in_block:
  assumes "page_aligned a" "page_of a + n < 2 ^ 52" "unat (x - a) < 4096 * n"
  shows "page_of x \<in> {page_of a..<page_of a + n}"
proof -
  have al: "unat a = 4096 * page_of a" using assms(1) by (auto simp: page_aligned_def page_of_def)
  have "unat a + unat (x - a) < 2 ^ 64" using al assms(2,3) by simp
  then have "unat x = unat a + unat (x - a)" using unat_add_nowrap [of a "x - a"] by simp
  then have "unat x = 4096 * page_of a + unat (x - a)" using al by simp
  then have "page_of x = page_of a + unat (x - a) div 4096" by (simp add: page_of_def)
  moreover have "unat (x - a) div 4096 < n" using assms(3) by (simp add: less_mult_imp_div_less)
  ultimately show ?thesis by simp
qed

text \<open>An allocation changes no memory outside the free pages, so it changes no table.\<close>

lemma alloc_outside:
  assumes "pm_ok s" "PhysicalMemory_alloc s n = Inr (a, s')" "page_of x \<notin> pm_free s"
  shows "ram s' x = ram s x"
proof -
  note blk = pm.alloc_block [OF assms(1,2)]
  have n: "unat (n * 4096) = 4096 * unat n" using blk(5) by (simp add: unat_word_ariths)
  have "ram s' = ram s \<or> ram s' = memset (ram s) a 0 (unat (n * 4096))"
    using alloc_cases [OF assms(1), of n] assms(2) by (auto split: if_splits)
  then show ?thesis
  proof
    assume r: "ram s' = memset (ram s) a 0 (unat (n * 4096))"
    have "\<not> unat (x - a) < 4096 * unat n" using in_block [OF blk(2,5)] blk(3) assms(3) by blast
    then show ?thesis using unat_less_u64 [of "n * 4096"] by (simp add: r memset_apply n)
  qed simp
qed

section \<open>Allocating\<close>

text \<open>What \<^verbatim>\<open>malloc\<close> does to the physical memory: it writes to free pages only.\<close>

lemma upd_tag_phys: "upd_tag h p f = Inr h' \<Longrightarrow> h_phys h' = h_phys h"
  by (auto simp: upd_tag_def bindE_eq_Inr)

lemma set_bin_phys: "set_bin h i p = Inr h' \<Longrightarrow> h_phys h' = h_phys h"
  by (auto simp: set_bin_def split: if_splits)

lemma set_complete_phys: "set_complete h i p = Inr h' \<Longrightarrow> h_phys h' = h_phys h"
  by (auto simp: set_complete_def split: if_splits)

lemmas heap_phys = upd_tag_phys set_bin_phys set_complete_phys

lemma insert_tag_phys: "insert_tag h t i = Inr h' \<Longrightarrow> h_phys h' = h_phys h"
  by (auto simp: insert_tag_def bindE_eq_Inr Let_def dest!: heap_phys split: if_splits)

lemma remove_tag_phys: "remove_tag h t = Inr h' \<Longrightarrow> h_phys h' = h_phys h"
  by (auto simp: remove_tag_def bindE_eq_Inr Let_def dest!: heap_phys split: if_splits)

lemma split_tag_phys: "split_tag h t = Inr (q, h') \<Longrightarrow> h_phys h' = h_phys h"
  by (auto simp: split_tag_def bindE_eq_Inr Let_def dest!: heap_phys insert_tag_phys split: if_splits)

lemma finish_malloc_phys: "finish_malloc h n t = Inr (q, h') \<Longrightarrow> h_phys h' = h_phys h"
  by (auto simp: finish_malloc_def bindE_eq_Inr Let_def dest!: heap_phys split_tag_phys split: if_splits)

lemma allocate_new_tag_phys:
  assumes "allocate_new_tag h n = Inr (t, h')"
  shows "\<exists>k a. PhysicalMemory_alloc (h_phys h) k = Inr (a, h_phys h')"
proof -
  obtain k a s' where "PhysicalMemory_alloc (h_phys h) k = Inr (a, s')" "h_phys h' = s'"
    using assms by (auto simp: allocate_new_tag_def liballoc_alloc_def bindE_eq_Inr Let_def split: if_splits)
  then show ?thesis by blast
qed

lemma malloc_phys:
  assumes "malloc h n = Inr (p, h')"
  shows "h_phys h' = h_phys h \<or> (\<exists>k a. PhysicalMemory_alloc (h_phys h) k = Inr (a, h_phys h'))"
proof -
  have i: "h_phys (heap_init h) = h_phys h" by (simp add: heap_init_def)
  obtain found where run: "(if found = 0
         then bindE (allocate_new_tag (heap_init h) (ucast n)) (\<lambda>(tag, h1).
              if tag = 0 then Inr (0, h1) else finish_malloc h1 n tag)
         else bindE (remove_tag (heap_init h) found) (\<lambda>h1.
              bindE (tag_at h1 found) (\<lambda>t.
              bindE (if split_left t = 0 \<and> split_right t = 0
                     then bindE (complete_at h1 (bin_of (ucast n))) (\<lambda>c. set_complete h1 (bin_of (ucast n)) (c - 1)) else Inr h1)
                (\<lambda>h2. finish_malloc h2 n found)))) = Inr (p, h')"
    using assms unfolding malloc_def Let_def bins_eq by (auto simp only: bindE_eq_Inr)
  show ?thesis
  proof (cases "found = 0")
    case True
    then obtain t h1 where a: "allocate_new_tag (heap_init h) (ucast n) = Inr (t, h1)"
      and f: "(if t = 0 then Inr (0, h1) else finish_malloc h1 n t) = Inr (p, h')"
      using run unfolding if_P [OF True] bindE_eq_Inr split_paired_Ex prod.case by blast
    have "h_phys h' = h_phys h1" using f finish_malloc_phys by (auto split: if_splits)
    then show ?thesis using allocate_new_tag_phys [OF a] i by simp
  next
    case False
    then obtain h1 h2 and t :: boundary_tag where r: "remove_tag (heap_init h) found = Inr h1"
      and c: "(if split_left t = 0 \<and> split_right t = 0
           then bindE (complete_at h1 (bin_of (ucast n))) (\<lambda>c. set_complete h1 (bin_of (ucast n)) (c - 1))
           else Inr h1) = Inr h2" and f: "finish_malloc h2 n found = Inr (p, h')"
      using run unfolding if_not_P [OF False] bindE_eq_Inr by blast
    have "h_phys h2 = h_phys h1" using c by (auto simp: bindE_eq_Inr dest!: set_complete_phys split: if_splits)
    then show ?thesis using finish_malloc_phys [OF f] remove_tag_phys [OF r] i by simp
  qed
qed

lemma malloc_ok:
  assumes "malloc h n = Inr (p, h')" "pm_ok (h_phys h)"
  shows "pm_ok (h_phys h')" "page_of x \<notin> pm_free (h_phys h) \<Longrightarrow> ram (h_phys h') x = ram (h_phys h) x"
  using malloc_phys [OF assms(1)] assms(2) pm.alloc_ok alloc_outside by auto

section \<open>Freeing\<close>

text \<open>Bytes are as they were; only the books of the page allocator may have changed.\<close>

definition same_ram :: "heap \<Rightarrow> heap \<Rightarrow> bool" where
  "same_ram h h' \<longleftrightarrow> ram (h_phys h') = ram (h_phys h)"

lemma same_ram_refl [simp]: "same_ram h h"
  by (simp add: same_ram_def)

lemma same_ram_trans: "same_ram h h1 \<Longrightarrow> same_ram h1 h2 \<Longrightarrow> same_ram h h2"
  by (simp add: same_ram_def)

lemma melt_left_phys: "melt_left h t = Inr (q, h') \<Longrightarrow> h_phys h' = h_phys h"
  by (auto simp: melt_left_def bindE_eq_Inr Let_def dest!: heap_phys split: if_splits)

lemma absorb_right_phys: "absorb_right h t = Inr (q, h') \<Longrightarrow> h_phys h' = h_phys h"
  by (auto simp: absorb_right_def bindE_eq_Inr Let_def dest!: heap_phys remove_tag_phys split: if_splits)

lemma melt_left_loop_phys:
  assumes "melt_left_loop h t = Some r"
  shows "\<forall>q h'. r = Inr (q, h') \<longrightarrow> h_phys h' = h_phys h"
proof (rule melt_left_loop.raw_induct [OF _ assms])
  fix loop :: "heap \<Rightarrow> u64 \<Rightarrow> (u64 \<times> heap) result option" and h tag r
  assume ih: "\<And>h t r. loop h t = Some r \<Longrightarrow> \<forall>q h'. r = Inr (q, h') \<longrightarrow> h_phys h' = h_phys h"
  assume "(case bindE (tag_at h tag) (\<lambda>t.
             if split_left t = 0 then Inr None
             else bindE (tag_at h (split_left t)) (\<lambda>l.
                  if index l < 0 then Inr None
                  else bindE (melt_left h tag) (\<lambda>(left, h1).
                       bindE (remove_tag h1 left) (\<lambda>h2. Inr (Some (left, h2))))))
      of Inl e \<Rightarrow> Some (Inl e)
      | Inr None \<Rightarrow> Some (Inr (tag, h))
      | Inr (Some r) \<Rightarrow> loop (snd r) (fst r)) = Some r"
  then show "\<forall>q h'. r = Inr (q, h') \<longrightarrow> h_phys h' = h_phys h"
    by (auto simp: bindE_eq_Inr bindE_eq_Inl split: sum.splits option.splits if_splits dest!: ih melt_left_phys remove_tag_phys)
qed

lemma absorb_right_loop_phys:
  assumes "absorb_right_loop h t = Some r"
  shows "\<forall>q h'. r = Inr (q, h') \<longrightarrow> h_phys h' = h_phys h"
proof (rule absorb_right_loop.raw_induct [OF _ assms])
  fix loop :: "heap \<Rightarrow> u64 \<Rightarrow> (u64 \<times> heap) result option" and h tag r
  assume ih: "\<And>h t r. loop h t = Some r \<Longrightarrow> \<forall>q h'. r = Inr (q, h') \<longrightarrow> h_phys h' = h_phys h"
  assume "(case bindE (tag_at h tag) (\<lambda>t.
             if split_right t = 0 then Inr None
             else bindE (tag_at h (split_right t)) (\<lambda>r.
                  if index r < 0 then Inr None
                  else bindE (absorb_right h tag) (\<lambda>r. Inr (Some r))))
      of Inl e \<Rightarrow> Some (Inl e)
      | Inr None \<Rightarrow> Some (Inr (tag, h))
      | Inr (Some r) \<Rightarrow> loop (snd r) (fst r)) = Some r"
  then show "\<forall>q h'. r = Inr (q, h') \<longrightarrow> h_phys h' = h_phys h"
    by (auto simp: bindE_eq_Inr bindE_eq_Inl split: sum.splits option.splits if_splits dest!: ih absorb_right_phys)
qed

lemma liballoc_free_ram: "liballoc_free h t n = Inr h' \<Longrightarrow> same_ram h h'"
  by (auto simp: liballoc_free_def PhysicalMemory_free_def same_ram_def bindE_eq_Inr Let_def)

text \<open>The last step of \<^verbatim>\<open>free\<close>: the run goes back to the page allocator or the tag into its list.\<close>

lemma put_back_ram:
  assumes "(if whole then bindE (complete_at h i) (\<lambda>c. if c = MAXCOMPLETE then liballoc_free h t k
      else bindE (set_complete h i (c + 1)) (\<lambda>h3. insert_tag h3 t i)) else insert_tag h t i) = Inr h'"
  shows "same_ram h h'"
proof (cases whole)
  case False
  then show ?thesis using assms by (simp add: same_ram_def insert_tag_phys)
next
  case True
  then obtain c where c: "(if c = MAXCOMPLETE then liballoc_free h t k
      else bindE (set_complete h i (c + 1)) (\<lambda>h3. insert_tag h3 t i)) = Inr h'"
    using assms unfolding if_P [OF True] bindE_eq_Inr by blast
  show ?thesis
  proof (cases "c = MAXCOMPLETE")
    case True
    then show ?thesis using c liballoc_free_ram by simp
  next
    case False
    then obtain h3 where "set_complete h i (c + 1) = Inr h3" "insert_tag h3 t i = Inr h'"
      using c unfolding if_not_P [OF False] bindE_eq_Inr by blast
    then show ?thesis by (simp add: same_ram_def insert_tag_phys set_complete_phys)
  qed
qed

lemma bindE_returned:
  assumes "bindE (returned m) (\<lambda>(x, h). f x h) = Inr y"
  obtains x h where "m = Some (Inr (x, h))" "f x h = Inr y"
  using assms by (auto simp: returned_def bindE_eq_Inr split: option.splits)

lemma heap_free_ram:
  assumes "heap_free h p = Inr h'"
  shows "same_ram h h'"
proof (cases "p = 0")
  case True
  then show ?thesis using assms by (simp add: heap_free_def)
next
  case p: False
  obtain t0 where t0: "tag_at h (p - tag_size) = Inr t0" using assms p unfolding heap_free_def if_not_P [OF p] bindE_eq_Inr by blast
  note run = assms [unfolded heap_free_def if_not_P [OF p] t0 bindE_simps]
  show ?thesis
  proof (cases "magic t0 = LIBALLOC_MAGIC")
    case False
    from run [unfolded if_P [OF False]] show ?thesis by simp
  next
    case True
    then have "\<not> magic t0 \<noteq> LIBALLOC_MAGIC" by simp
    note run = run [unfolded if_not_P [OF this]]
    obtain t1 h1 where m: "melt_left_loop h (p - tag_size) = Some (Inr (t1, h1))"
      and run1: "bindE (returned (absorb_right_loop h1 t1)) (\<lambda>(tag, h2). bindE (tag_at h2 tag) (\<lambda>t.
        let e = getexp (ucast (ucast (real_size t) - tag_size :: u64)); i = (if e < int MINEXP then int MINEXP else e)
        in if split_left t = 0 \<and> split_right t = 0
           then bindE (complete_at h2 i) (\<lambda>c. if c = MAXCOMPLETE then liballoc_free h2 tag (needed_pages (real_size t))
             else bindE (set_complete h2 i (c + 1)) (\<lambda>h3. insert_tag h3 tag i))
           else insert_tag h2 tag i)) = Inr h'"
      using run by (rule bindE_returned)
    from run1 obtain t2 h2 where a: "absorb_right_loop h1 t1 = Some (Inr (t2, h2))"
      and run2: "bindE (tag_at h2 t2) (\<lambda>t.
        let e = getexp (ucast (ucast (real_size t) - tag_size :: u64)); i = (if e < int MINEXP then int MINEXP else e)
        in if split_left t = 0 \<and> split_right t = 0
           then bindE (complete_at h2 i) (\<lambda>c. if c = MAXCOMPLETE then liballoc_free h2 t2 (needed_pages (real_size t))
             else bindE (set_complete h2 i (c + 1)) (\<lambda>h3. insert_tag h3 t2 i))
           else insert_tag h2 t2 i) = Inr h'"
      by (rule bindE_returned)
    obtain t where f: "tag_at h2 t2 = Inr t" using run2 unfolding bindE_eq_Inr by blast
    note f = run2 [unfolded f bindE_simps Let_def]
    have "same_ram h2 h'" by (rule put_back_ram [OF f])
    moreover have "h_phys h1 = h_phys h" using melt_left_loop_phys [OF m] by blast
    moreover have "h_phys h2 = h_phys h1" using absorb_right_loop_phys [OF a] by blast
    ultimately show ?thesis by (simp add: same_ram_def)
  qed
qed

end
