(* ===== verification/Heap_Contents.thy ===== *)
theory Heap_Contents
  imports Heap_Malloc Heap_Phys
begin

text \<open>
  What the blocks of the kernel heap hold: the copying routine of \<^verbatim>\<open>src/src/mm/liballoc.cpp\<close>, and the bytes of the
  blocks held across \<^verbatim>\<open>malloc\<close>, \<^verbatim>\<open>calloc\<close>, \<^verbatim>\<open>realloc\<close> and \<^verbatim>\<open>free\<close>.
\<close>

section \<open>Copying by words\<close>

lemma memcpy_add: "memcpy m d s (a + b) = memcpy (memcpy m d s a) (d + of_nat a) (s + of_nat a) b"
  by (induction a arbitrary: m d s) (simp_all add: algebra_simps)

text \<open>The source may begin inside the destination only if no byte is overwritten before it is read.\<close>

definition ahead :: "u64 \<Rightarrow> u64 \<Rightarrow> nat \<Rightarrow> bool" where
  "ahead s d n \<longleftrightarrow> (\<forall>j k. k < j \<and> j < n \<longrightarrow> s + of_nat j \<noteq> d + of_nat k)"

lemma ahead_drop: "ahead s d (a + n) \<Longrightarrow> ahead (s + of_nat a) (d + of_nat a) n"
proof -
  assume a: "ahead s d (a + n)"
  have "s + of_nat a + of_nat j \<noteq> d + of_nat a + of_nat k" if "k < j" "j < n" for j k
  proof -
    have "s + of_nat (a + j) \<noteq> d + of_nat (a + k)" using a that unfolding ahead_def by (metis nat_add_left_cancel_less)
    then show ?thesis by (simp add: add.assoc)
  qed
  then show ?thesis unfolding ahead_def by blast
qed

lemma unat_offset: "unat (a :: u64) + j < 2 ^ 64 \<Longrightarrow> unat (a + of_nat j) = unat a + j"
  by (subst unat_add_nowrap) (simp_all add: unat_of_nat)

lemma ahead_ranges:
  assumes "unat s + n < 2 ^ 64" "unat d + n < 2 ^ 64" "unat d \<le> unat s \<or> unat s + n \<le> unat d"
  shows "ahead s d n"
  unfolding ahead_def
proof (intro allI impI)
  fix j k assume "k < j \<and> j < n"
  then have "unat (s + of_nat j) = unat s + j" "unat (d + of_nat k) = unat d + k" "unat s + j \<noteq> unat d + k"
    using assms by (auto simp: unat_offset)
  then show "s + of_nat j \<noteq> d + of_nat k" by metis
qed

lemma copy_words_memcpy:
  "ahead s d (4 * n + r) \<Longrightarrow> copy_words m d s n = memcpy m d s (4 * n)"
proof (induction n arbitrary: m d s)
  case (Suc n)
  have e: "4 * Suc n = 4 + 4 * n" by simp
  have a: "s + of_nat j \<noteq> d + of_nat k" if "k < j" "j < 4" for j k
    using Suc.prems that unfolding ahead_def by simp
  have 4: "memcpy m d s 4 = m(d := m s, d + 1 := m (s + 1), d + 2 := m (s + 2), d + 3 := m (s + 3))"
    using a [of 0 1] a [of 0 2] a [of 1 2] a [of 0 3] a [of 1 3] a [of 2 3]
    by (simp add: numeral_eq_Suc add.assoc)
  have "ahead (s + 4) (d + 4) (4 * n + r)" using ahead_drop [OF Suc.prems [unfolded e add.assoc]] by simp
  from Suc.IH [OF this] show ?case unfolding e memcpy_add 4 by (simp del: fun_upd_apply)
qed simp

lemma memcpy_ahead:
  assumes "ahead s d n" "n \<le> 2 ^ 64"
  shows "memcpy m d s n x = (if unat (x - d) < n then m (s + (x - d)) else m x)"
  by (rule memcpy_apply) (use assms in \<open>simp_all add: ahead_def\<close>)

lemma liballoc_memcpy_eq:
  assumes a: "ahead (s2 - hhdm h) (s1 - hhdm h) (unat n)" and p: "s1 \<noteq> 0" "s2 \<noteq> 0"
  shows "liballoc_memcpy h s1 s2 n = Inr (put_bytes h (memcpy (ram (h_phys h)) (s1 - hhdm h) (s2 - hhdm h) (unat n)))"
proof -
  let ?d = "s1 - hhdm h" and ?s = "s2 - hhdm h"
  define w r where "w = unat n div 4" and "r = unat n mod 4"
  have n: "unat n = 4 * w + r" by (simp add: w_def r_def)
  have "copy_words m ?d ?s w = memcpy m ?d ?s (4 * w)" for m
    by (rule copy_words_memcpy [where r = r]) (use a n in simp)
  then show ?thesis
    using p unfolding liballoc_memcpy_def Let_def put_bytes_def w_def [symmetric] r_def [symmetric] n memcpy_add
    by (cases "n = 0") (simp_all add: w_def r_def)
qed

text \<open>C22. \<^verbatim>\<open>liballoc_memcpy\<close>, which copies four bytes at a time and the rest singly, does exactly what the plain
  byte-by-byte loop does, whatever the length and the alignment, as long as no byte of the source lies where an earlier
  one is written; then every byte of the destination is the one the source had, and no other byte changes.\<close>

theorem liballoc_memcpy_bytewise:
  assumes a: "ahead (s2 - hhdm h) (s1 - hhdm h) (unat n)" and p: "s1 \<noteq> 0" "s2 \<noteq> 0"
  shows "\<exists>h'. liballoc_memcpy h s1 s2 n = Inr h' \<and>
    ram (h_phys h') = memcpy (ram (h_phys h)) (s1 - hhdm h) (s2 - hhdm h) (unat n) \<and>
    (\<forall>i. ram (h_phys h') (s1 - hhdm h + i) = ram (h_phys h) (if i < n then s2 - hhdm h + i else s1 - hhdm h + i)) \<and>
    tags h' = tags h \<and> l_freePages h' = l_freePages h"
proof -
  have "unat n \<le> 2 ^ 64" using unat_less_u64 [of n] by simp
  then show ?thesis
    unfolding liballoc_memcpy_eq [OF assms] using memcpy_ahead [OF a]
    by (intro exI [of _ "put_bytes h (memcpy (ram (h_phys h)) (s1 - hhdm h) (s2 - hhdm h) (unat n))"])
      (simp add: put_bytes_def word_less_nat_alt)
qed

theorem liballoc_memcpy_bytewise_witness:
  "\<exists>h'. liballoc_memcpy (put_bytes demo_heap ucast) 0xffff800000001000 0xffff800000001002 7 = Inr h' \<and>
    ram (h_phys h') 0x1006 = 0x08 \<and> ram (h_phys h') 0x1007 = 0x07"
proof -
  have h: "hhdm (put_bytes demo_heap ucast) = 0xffff800000000000" by (simp add: demo_heap_def put_bytes_def)
  have "ahead 0x1002 0x1000 (unat (7 :: u64))" by (rule ahead_ranges) simp_all
  then have a: "ahead (0xffff800000001002 - hhdm (put_bytes demo_heap ucast)) (0xffff800000001000 - hhdm (put_bytes demo_heap ucast))
      (unat (7 :: u64))" unfolding h by simp
  obtain h' where h': "liballoc_memcpy (put_bytes demo_heap ucast) 0xffff800000001000 0xffff800000001002 7 = Inr h'"
    "\<forall>i. ram (h_phys h') (0x1000 + i) = ucast (if i < 7 then 0x1002 + i else 0x1000 + i :: u64)"
    using liballoc_memcpy_bytewise [OF a] unfolding h by (auto simp: put_bytes_def)
  have "ram (h_phys h') 0x1006 = 0x08" "ram (h_phys h') 0x1007 = 0x07" using h'(2) [rule_format, of 6] h'(2) [rule_format, of 7] by simp_all
  then show ?thesis using h'(1) by blast
qed

section \<open>The bytes of the blocks\<close>

text \<open>The byte at an address of the heap, and the bytes of a block.\<close>

definition byte :: "heap \<Rightarrow> u64 \<Rightarrow> u8" where
  "byte h a = ram (h_phys h) (a - hhdm h)"

definition same_bytes :: "heap \<Rightarrow> heap \<Rightarrow> u64 \<Rightarrow> u64 \<Rightarrow> bool" where
  "same_bytes h h' p n \<longleftrightarrow> (\<forall>i < n. byte h' (p + i) = byte h (p + i))"

lemma same_bytes_refl [simp]: "same_bytes h h p n"
  by (simp add: same_bytes_def)

lemma same_bytes_trans: "same_bytes h h1 p n \<Longrightarrow> same_bytes h1 h2 p n \<Longrightarrow> same_bytes h h2 p n"
  by (simp add: same_bytes_def)

lemma session_range:
  assumes "session_ok h L" "L p = Some n"
  shows "request n" "unat p + unat n < 2 ^ 64" "p \<noteq> 0"
    "\<And>i. i < n \<Longrightarrow> unat (p + i) = unat p + unat i \<and> unat (p + i - hhdm h) = unat p + unat i - unat (hhdm h)"
    "unat (hhdm h) \<le> unat p" "sz (tg h (p - tag_size)) = ucast n"
    "tag_at h (p - tag_size) = Inr (tg h (p - tag_size))"
proof -
  obtain C B where c: "heap_ok h C B" "used h C = (\<lambda>p. p - tag_size) ` dom L" "holds h p n"
    using session_live(2) [OF assms] assms(2) by blast
  note P = held_block [OF c(1,2) assms(2) c(3)]
  show "request n" "sz (tg h (p - tag_size)) = ucast n" using c(3) unfolding holds_def by simp_all
  show b: "unat p + unat n < 2 ^ 64" "p \<noteq> 0" by (rule P)+
  show "tag_at h (p - tag_size) = Inr (tg h (p - tag_size))" by (rule heap_tag(3) [OF c(1) P(1)])
  show l: "unat (hhdm h) \<le> unat p" using block_in_run(1) [OF c(1) P(1), of "unat (p - tag_size)"] P(2)
    block_address(4) [OF c(1) P(1)] by simp
  fix i assume "i < n"
  then have u: "unat (p + i) = unat p + unat i" using b by (subst unat_add_nowrap) (simp_all add: word_less_nat_alt)
  then show "unat (p + i) = unat p + unat i \<and> unat (p + i - hhdm h) = unat p + unat i - unat (hhdm h)"
    using l by (subst unat_sub_nowrap) simp_all
qed

text \<open>A new block is taken from free pages or the heap's own runs, so no block held changes.\<close>

lemma malloc_keeps:
  assumes s: "session_ok h L" and n: "request n" and m: "malloc h n = Inr (q, h')"
  shows "hhdm h' = hhdm h" "L p = Some k \<Longrightarrow> same_bytes h h' p k"
proof -
  obtain C B where c: "heap_ok (heap_init h) C B" using s unfolding session_ok_def by blast
  have i: "hhdm (heap_init h) = hhdm h" "h_phys (heap_init h) = h_phys h" by (simp_all add: heap_init_def)
  show d: "hhdm h' = hhdm h"
    using heap_malloc_ok [OF c, of n] n m unfolding malloc_init request_def by (auto simp: i)
  assume p: "L p = Some k"
  have pm: "pm_ok (h_phys h)" using runs_okD(1) [OF heap_okD(3) [OF c]] unfolding i .
  show "same_bytes h h' p k"
    unfolding same_bytes_def byte_def d
  proof (intro allI impI)
    fix i assume i: "i < k"
    note r = session_range(4) [OF s p i]
    have "(unat p + unat i - unat (hhdm h)) div 4096 \<notin> pm_free (h_phys h)"
      using session_pages(2) [OF s p, of "unat p + unat i"] i by (simp add: word_less_nat_alt)
    then have "page_of (p + i - hhdm h) \<notin> pm_free (h_phys h)" using r unfolding page_of_def by simp
    then show "ram (h_phys h') (p + i - hhdm h) = ram (h_phys h) (p + i - hhdm h)" by (rule malloc_ok(2) [OF m pm])
  qed
qed

lemma free_keeps:
  assumes s: "session_ok h L" and p: "L p = Some n" and f: "heap_free h p = Inr h'"
  shows "hhdm h' = hhdm h" "byte h' = byte h"
proof -
  obtain C B where c: "heap_ok h C B" "used h C = (\<lambda>p. p - tag_size) ` dom L" using session_live(2) [OF s p] by blast
  have t: "p - tag_size \<in> used h C" unfolding c(2) using p by blast
  show d: "hhdm h' = hhdm h" using heap_free_ok [OF c(1) t] f by auto
  show "byte h' = byte h" using heap_free_ram [OF f] by (simp add: byte_def d same_ram_def fun_eq_iff)
qed

lemma outside_range:
  fixes a q :: u64
  assumes "unat q + k < 2 ^ 64" "unat a < unat q \<or> unat q + k \<le> unat a"
  shows "\<not> unat (a - q) < k"
proof
  assume k: "unat (a - q) < k"
  then have "unat (q + (a - q)) = unat q + unat (a - q)" using assms(1) by (subst unat_add_nowrap) simp_all
  then show False using k assms(2) by simp
qed

text \<open>Writing into a block: the bytes of every other block stay.\<close>

definition changes_only :: "mem \<Rightarrow> mem \<Rightarrow> u64 \<Rightarrow> u64 \<Rightarrow> bool" where
  "changes_only m m' a n \<longleftrightarrow> (\<forall>x. \<not> unat (x - a) < unat n \<longrightarrow> m' x = m x)"

lemma write_keeps:
  assumes s: "session_ok h L" and q: "L q = Some n" and p: "L p = Some k" "p \<noteq> q"
    and m: "changes_only (ram (h_phys h)) m (q - hhdm h) n"
  shows "same_bytes h (put_bytes h m) p k"
  unfolding same_bytes_def byte_def
proof (intro allI impI)
  fix i assume i: "i < k"
  have "unat (p + i) = unat p + unat i" using session_range(4) [OF s p(1) i] by simp
  moreover have "unat p + unat k \<le> unat q \<or> unat q + unat n \<le> unat p" by (rule session_apart [OF s p(1) q p(2)])
  ultimately have "\<not> unat (p + i - q) < unat n"
    using i session_range(2) [OF s q] by (intro outside_range) (auto simp: word_less_nat_alt)
  moreover have "p + i - hhdm h - (q - hhdm h) = p + i - q" by simp
  ultimately have "m (p + i - hhdm h) = ram (h_phys h) (p + i - hhdm h)" using m unfolding changes_only_def by metis
  then show "ram (h_phys (put_bytes h m)) (p + i - hhdm (put_bytes h m)) = ram (h_phys h) (p + i - hhdm h)"
    by (simp add: put_bytes_def)
qed

lemma session_copy:
  assumes s: "session_ok h L" and p: "L p = Some old" and q: "L q = Some n" and ne: "p \<noteq> q" and k: "k \<le> old" "k \<le> n"
  shows "\<exists>m. liballoc_memcpy h q p k = Inr (put_bytes h m) \<and> changes_only (ram (h_phys h)) m (q - hhdm h) n \<and>
    (\<forall>i < k. byte (put_bytes h m) (q + i) = byte h (p + i))"
proof -
  note P = session_range [OF s p] and Q = session_range [OF s q]
  have k': "unat k \<le> unat old" "unat k \<le> unat n" using k by (simp_all add: word_le_nat_alt)
  have u: "unat (p - hhdm h) = unat p - unat (hhdm h)" "unat (q - hhdm h) = unat q - unat (hhdm h)"
    using P(5) Q(5) by (simp_all add: unat_sub_nowrap)
  have a: "ahead (p - hhdm h) (q - hhdm h) (unat k)"
    by (rule ahead_ranges) (use u P(2,5) Q(2,5) k' session_apart [OF s p q ne] in linarith)+
  define m where "m = memcpy (ram (h_phys h)) (q - hhdm h) (p - hhdm h) (unat k)"
  have "unat k \<le> 2 ^ 64" using unat_less_u64 [of k] by simp
  note b = memcpy_ahead [OF a this, of "ram (h_phys h)", folded m_def]
  have "changes_only (ram (h_phys h)) m (q - hhdm h) n" unfolding changes_only_def b using k' by auto
  moreover have "byte (put_bytes h m) (q + i) = byte h (p + i)" if "i < k" for i
  proof -
    have e: "q + i - hhdm h - (q - hhdm h) = i" "p - hhdm h + i = p + i - hhdm h" by simp_all
    have "m (q + i - hhdm h) = ram (h_phys h) (p + i - hhdm h)" unfolding b e using that by (simp add: word_less_nat_alt)
    then show ?thesis unfolding byte_def by (simp add: put_bytes_def)
  qed
  ultimately show ?thesis using liballoc_memcpy_eq [OF a Q(3) P(3)] m_def by blast
qed

lemma put_bytes_ok: "session_ok h L \<Longrightarrow> session_ok (put_bytes h m) L"
  by (rule kheap.put_inv)

lemma same_size: "request n \<Longrightarrow> (scast (ucast n :: u32) :: u64) = n"
  unfolding request_def word_unat_eq_iff by (subst unat_scast_up) (simp_all add: unat_ucast_down)

text \<open>The calls \<^verbatim>\<open>realloc\<close> makes.\<close>

lemma realloc_calls:
  assumes r: "realloc h p n = Inr (q, h')" and s: "session_ok h L" and p: "L p = Some old" and n: "n \<noteq> 0"
  obtains h1 h2 where "malloc h n = Inr (q, h1)" "liballoc_memcpy h1 q p (min old n) = Inr h2" "heap_free h2 p = Inr h'"
proof -
  note P = session_range [OF s p]
  have e: "(if scast (sz (tg h (p - tag_size))) > n then n else scast (sz (tg h (p - tag_size)))) = min old n"
    unfolding P(6) same_size [OF P(1)] min_def by auto
  show thesis
    using r n P(3) that unfolding realloc_def P(7) bindE_simps Let_def e by (auto simp: bindE_eq_Inr)
qed

lemma realloc_bytes:
  assumes s: "session_ok h L" and p: "L p = Some old" and n: "request n" "n \<noteq> 0" and r: "realloc h p n = Inr (q, h')"
  shows "\<forall>i < min old n. byte h' (q + i) = byte h (p + i)" "\<And>w k. L w = Some k \<Longrightarrow> w \<noteq> p \<Longrightarrow> same_bytes h h' w k"
proof -
  obtain h1 h2 where c: "malloc h n = Inr (q, h1)" "liballoc_memcpy h1 q p (min old n) = Inr h2" "heap_free h2 p = Inr h'"
    using realloc_calls [OF r s p n(2)] .
  have l: "L q = None" "session_ok h1 (L(q \<mapsto> n))" using session_malloc [OF s n(1)] c(1) by (simp_all del: fun_upd_apply)
  have ne: "p \<noteq> q" using p l(1) by auto
  let ?L = "L(q \<mapsto> n)"
  have p1: "?L p = Some old" and q1: "?L q = Some n" using p ne by simp_all
  obtain m where m: "liballoc_memcpy h1 q p (min old n) = Inr (put_bytes h1 m)" "changes_only (ram (h_phys h1)) m (q - hhdm h1) n"
    "\<forall>i < min old n. byte (put_bytes h1 m) (q + i) = byte h1 (p + i)"
    using session_copy [OF l(2) p1 q1 ne, of "min old n"] by auto
  then have h2: "h2 = put_bytes h1 m" using c(2) by simp
  have b: "byte h' = byte h2" by (rule free_keeps(2) [OF put_bytes_ok [OF l(2)] p1 c(3) [unfolded h2], folded h2])
  have k: "same_bytes h h1 w k" if "L w = Some k" for w k by (rule malloc_keeps(2) [OF s n(1) c(1) that])
  have "byte h1 (p + i) = byte h (p + i)" if "i < old" for i using k [OF p] that unfolding same_bytes_def by blast
  then show "\<forall>i < min old n. byte h' (q + i) = byte h (p + i)" using m(3) unfolding b h2 by simp
  fix w k assume w: "L w = Some k" "w \<noteq> p"
  then have w1: "?L w = Some k" "w \<noteq> q" using l(1) by auto
  have "same_bytes h1 h2 w k" unfolding h2 by (rule write_keeps [OF l(2) q1 w1 m(2)])
  then have "same_bytes h h2 w k" by (rule same_bytes_trans [OF k [OF w(1)]])
  then show "same_bytes h h' w k" unfolding same_bytes_def b .
qed

lemma product_request:
  assumes "unat (k :: u64) * unat n < 2 ^ 30"
  shows "request (k * n)" "unat (k * n) = unat k * unat n"
proof -
  show "unat (k * n) = unat k * unat n" using assms by (subst unat_mult_lem [THEN iffD1]) simp_all
  then show "request (k * n)" using assms unfolding request_def by simp
qed

lemma calloc_bytes:
  assumes s: "session_ok h L" and n: "unat k * unat n < 2 ^ 30" and r: "calloc h k n = Inr (q, h')"
  shows "\<forall>i < k * n. byte h' (q + i) = 0" "\<And>w z. L w = Some z \<Longrightarrow> same_bytes h h' w z"
proof -
  note u = product_request [OF n]
  obtain h1 where c: "malloc h (k * n) = Inr (q, h1)" "liballoc_memset h1 q 0 (k * n) = Inr h'"
    using r unfolding calloc_def Let_def same_size [OF u(1)] by (auto simp: bindE_eq_Inr)
  have l: "L q = None" "q \<noteq> 0" "session_ok h1 (L(q \<mapsto> k * n))"
    using session_malloc [OF s u(1)] c(1) by (simp_all del: fun_upd_apply)
  define m where "m = memset (ram (h_phys h1)) (q - hhdm h1) 0 (unat (k * n))"
  have h': "h' = put_bytes h1 m"
    using c(2) l(2) unfolding liballoc_memset_def m_def put_bytes_def by (cases "k * n = 0") (auto split: if_splits)
  have "unat (k * n) \<le> 2 ^ 64" using unat_less_u64 [of "k * n"] by simp
  note b = memset_apply [OF this, of "ram (h_phys h1)" "q - hhdm h1" 0, folded m_def]
  have only: "changes_only (ram (h_phys h1)) m (q - hhdm h1) (k * n)" unfolding changes_only_def b by simp
  show "\<forall>i < k * n. byte h' (q + i) = 0"
    unfolding h' byte_def by (simp add: put_bytes_def b word_less_nat_alt)
  fix w z assume w: "L w = Some z"
  have w1: "(L(q \<mapsto> k * n)) w = Some z" "w \<noteq> q" using w l(1) by auto
  have "same_bytes h1 h' w z" unfolding h' by (rule write_keeps [OF l(3) _ w1 only]) simp
  then show "same_bytes h h' w z" by (rule same_bytes_trans [OF malloc_keeps(2) [OF s u(1) c(1) w]])
qed

section \<open>A heap for the witnesses\<close>

text \<open>Fifty-six free pages, the ninth the first: room for three new tags.\<close>

definition roomy_pm :: phys where
  "roomy_pm = \<lparr>bitmap = [0xFF, 0, 0, 0, 0, 0, 0, 0], bitmap_at = 0x1000, lastI = 0, highest_addr = 0x40000,
     usedRam = 0, freeRam = 0x38000, ram = (\<lambda>_. 0)\<rparr>"

definition roomy_heap :: heap where
  "roomy_heap = \<lparr>h_phys = roomy_pm, hhdm = 0xffff800000000000, tags = Map.empty,
     l_freePages = [], l_completePages = [], l_initialized = False\<rparr>"

lemma roomy_free: "pm_free roomy_pm = {8..<64}"
proof -
  have "pm_free roomy_pm = set (filter (\<lambda>i. \<not> page_bit [0xFF, 0, 0, 0, 0, 0, 0, 0] i) [0..<64])"
    by (auto simp: pm_free_def free_pages_def roomy_pm_def)
  also have "filter (\<lambda>i. \<not> page_bit [0xFF, 0, 0, 0, 0, 0, 0, 0] i) [0..<64] = [8..<64]"
    by code_simp
  finally show ?thesis by (simp only: set_upt)
qed

lemma roomy_boot: "boot_heap roomy_heap"
  by (simp add: boot_heap_def roomy_heap_def pm_ok_def page_limit_def pm_total_def roomy_free) (simp add: roomy_pm_def)

lemma roomy_allocs:
  obtains s1 s2 where "PhysicalMemory_alloc roomy_pm 16 = Inr (0x8000, s1)" "PhysicalMemory_alloc s1 16 = Inr (0x18000, s2)"
  by (simp add: PhysicalMemory_alloc_def inner_alloc_def roomy_pm_def inner_alloc_loop.simps
      Bitmap_SetRange.simps Bitmap_Get_def Bitmap_Set_def Let_def)

lemma roomy_malloc:
  obtains h1 where "malloc roomy_heap 100 = Inr (0xffff800000008030, h1)" "\<not> out_of_pages h1 50"
    "heap_session roomy_heap h1 [0xffff800000008030 \<mapsto> 100]" "hhdm h1 = 0xffff800000000000"
proof -
  obtain s1 s2 where a: "PhysicalMemory_alloc roomy_pm 16 = Inr (0x8000, s1)" "PhysicalMemory_alloc s1 16 = Inr (0x18000, s2)"
    using roomy_allocs .
  have np: "needed_pages (ucast (ucast (ucast (n :: u64) :: u32) + tag_size :: u64)) = 16" if "n = 100 \<or> n = 50" for n
    using that by (auto simp: needed_pages_def tag_size_def l_pageSize_def l_pageCount_def)
  note np100 = np [OF disjI1 [OF refl]] and np50 = np [OF disjI2 [OF refl]]
  have f: "fresh_heap (heap_init roomy_heap)" by (simp add: fresh_heap_def heap_init_def roomy_heap_def MAXEXP_def)
  have hp: "h_phys (heap_init roomy_heap) = roomy_pm" "hhdm (heap_init roomy_heap) = 0xffff800000000000"
    by (simp_all add: heap_init_def roomy_heap_def)
  let ?h = "(heap_init roomy_heap)\<lparr>h_phys := s1\<rparr>"
  have al: "liballoc_alloc (heap_init roomy_heap) (needed_pages (ucast (ucast (ucast (100 :: u64) :: u32) + tag_size :: u64)))
      = Inr (0xffff800000008000, ?h)"
    unfolding np100 using a(1) by (simp add: liballoc_alloc_def hp)
  note m = malloc_fresh_eq [OF f al]
  have ok: "pm_ok roomy_pm" using roomy_boot unfolding boot_heap_def by (simp add: roomy_heap_def)
  have s: "session_ok roomy_heap Map.empty" by (rule boot_session_ok [OF roomy_boot])
  have n: "request 100" unfolding request_def by simp
  have "alloc_possible roomy_pm 16" using alloc_cases [OF ok, of 16] a(1) by (auto split: if_splits)
  then have "\<not> out_of_pages roomy_heap 100" unfolding out_of_pages_def np100 by (simp add: roomy_heap_def)
  then obtain q h1 where q: "malloc roomy_heap 100 = Inr (q, h1)" using session_malloc [OF s n] by blast
  have fm: "finish_malloc (set_tag ?h 0xffff800000008000
      \<lparr>magic = LIBALLOC_MAGIC, sz = 100, real_size = 16 * l_pageSize, index = - 1, split_left = 0, split_right = 0,
       next_tag = 0, prev_tag = 0\<rparr>) 100 0xffff800000008000 = Inr (q, h1)"
    using m q unfolding np100 by simp
  have "q = 0xffff800000008030" using fm by (auto simp: finish_malloc_def bindE_eq_Inr Let_def tag_size_def split: if_splits)
  moreover have "h_phys h1 = s1" using finish_malloc_phys [OF fm] by (simp add: set_tag_def)
  moreover have "alloc_possible s1 16" using alloc_cases [OF pm.alloc_ok [OF ok a(1)], of 16] a(2) by (auto split: if_splits)
  then have "\<not> out_of_pages h1 50" unfolding out_of_pages_def np50 \<open>h_phys h1 = s1\<close> by simp
  moreover have "hhdm h1 = 0xffff800000000000" using malloc_keeps(1) [OF s n q] by (simp add: roomy_heap_def)
  moreover have "heap_session roomy_heap h1 [q \<mapsto> 100]" by (rule heap_session.malloc [OF heap_session.start n q])
  ultimately show thesis using that q by simp
qed

lemma roomy_realloc:
  obtains h1 q h2 where "malloc roomy_heap 100 = Inr (0xffff800000008030, h1)"
    "realloc (put_bytes h1 (\<lambda>a. 7 + ucast a)) 0xffff800000008030 50 = Inr (q, h2)"
    "heap_session roomy_heap (put_bytes h1 (\<lambda>a. 7 + ucast a)) [0xffff800000008030 \<mapsto> 100]" "hhdm h1 = 0xffff800000000000"
proof -
  obtain h1 where m: "malloc roomy_heap 100 = Inr (0xffff800000008030, h1)" "\<not> out_of_pages h1 50"
    "heap_session roomy_heap h1 [0xffff800000008030 \<mapsto> 100]" "hhdm h1 = 0xffff800000000000"
    by (rule roomy_malloc)
  let ?h = "put_bytes h1 (\<lambda>a. 7 + ucast a)"
  have s: "heap_session roomy_heap ?h [0xffff800000008030 \<mapsto> 100]" by (rule heap_session.store [OF m(3)])
  have l: "[0xffff800000008030 \<mapsto> 100] (0xffff800000008030 :: u64) = Some (100 :: u64)" by simp
  have "alloc_possible (s\<lparr>ram := r\<rparr>) k = alloc_possible s k" for s r k by (simp add: alloc_possible_def page_limit_def)
  then have "\<not> out_of_pages ?h 50" using m(2) by (simp add: out_of_pages_def put_bytes_def)
  then obtain q h2 where "realloc ?h 0xffff800000008030 50 = Inr (q, h2)"
    using session_realloc [OF session_invariant [OF s roomy_boot] l, of 50] by (auto simp: request_def)
  then show thesis using that m(1,4) s by blast
qed

section \<open>Properties\<close>

text \<open>C23. \<^verbatim>\<open>realloc\<close>, at any point of a sequence of calls from boot on, moves the contents: the first bytes of the new block,
  as many as both blocks have, are those of the old one, and the bytes of every other block held are as they were.\<close>

theorem realloc_moves_contents:
  assumes b: "boot_heap h0" and s: "heap_session h0 h L" and p: "L p = Some old" and n: "request n" "n \<noteq> 0"
    and r: "realloc h p n = Inr (q, h')"
  shows "(\<forall>i. i < old \<and> i < n \<longrightarrow> byte h' (q + i) = byte h (p + i)) \<and>
    (\<forall>w k i. L w = Some k \<and> w \<noteq> p \<and> i < k \<longrightarrow> byte h' (w + i) = byte h (w + i))"
  using realloc_bytes [OF session_invariant [OF s b] p n r] unfolding same_bytes_def by simp

theorem realloc_moves_contents_witness:
  "\<exists>h1 q h2. malloc roomy_heap 100 = Inr (0xffff800000008030, h1) \<and>
    realloc (put_bytes h1 (\<lambda>a. 7 + ucast a)) 0xffff800000008030 50 = Inr (q, h2) \<and> byte h2 (q + 49) = 0x68"
proof -
  obtain h1 q h2 where m: "malloc roomy_heap 100 = Inr (0xffff800000008030, h1)"
    "realloc (put_bytes h1 (\<lambda>a. 7 + ucast a)) 0xffff800000008030 50 = Inr (q, h2)"
    "heap_session roomy_heap (put_bytes h1 (\<lambda>a. 7 + ucast a)) [0xffff800000008030 \<mapsto> 100]" "hhdm h1 = 0xffff800000000000"
    by (rule roomy_realloc)
  have l: "[0xffff800000008030 \<mapsto> 100] (0xffff800000008030 :: u64) = Some (100 :: u64)" by simp
  have n: "request 50" "(50 :: u64) \<noteq> 0" unfolding request_def by simp_all
  have i: "(49 :: u64) < 100 \<and> (49 :: u64) < 50" by simp
  have "byte h2 (q + 49) = byte (put_bytes h1 (\<lambda>a. 7 + ucast a)) (0xffff800000008030 + 49)"
    using realloc_moves_contents [OF roomy_boot m(3) l n m(2)] i by blast
  also have "\<dots> = 0x68" by (simp add: byte_def put_bytes_def m(4))
  finally show ?thesis using m(1,2) by blast
qed



end
