(* ===== verification/Address_Space.thy ===== *)
theory Address_Space
  imports Vmm
begin

text \<open>
  What \<^verbatim>\<open>MapPage\<close> leaves alone: memory outside the tables of the tree it works on and outside the
  pages that were free. Loaders rely on it, since they copy into pages while they map them.
\<close>

section \<open>The pages a tree of tables is made of\<close>

definition table_pages :: "mem \<Rightarrow> u64 \<Rightarrow> nat set" where
  "table_pages m root = {page_of t | p t. valid_path p \<and> tbl m root p = Some t}"

text \<open>
  A step that works on the tree at \<open>root\<close>: it takes pages from the allocator only, its new
  tables are among them, and all other memory is as before.
\<close>

definition frame :: "phys \<Rightarrow> phys \<Rightarrow> u64 \<Rightarrow> bool" where
  "frame s s' root \<longleftrightarrow> pm_free s' \<subseteq> pm_free s \<and>
     table_pages (ram s') root \<subseteq> table_pages (ram s) root \<union> pm_free s \<and>
     (\<forall>a. page_of a \<notin> pm_free s \<union> table_pages (ram s) root \<longrightarrow> ram s' a = ram s a)"

lemma frame_refl: "frame s s root"
  by (simp add: frame_def)

lemma frame_trans: "frame s s1 root \<Longrightarrow> frame s1 s2 root \<Longrightarrow> frame s s2 root"
  unfolding frame_def by (auto 0 3 simp: subset_iff)

lemma st64_page:
  assumes "page_aligned t" "i < 512" "page_of a \<noteq> page_of t"
  shows "st64 m (slot t i) v a = m a"
proof (rule st64_other, rule ccontr)
  assume "\<not> 8 \<le> unat (a - slot t i)"
  then have "a - slot t i < 8" by (simp add: word_less_nat_alt)
  from page_of_slot(1) [OF assms(1,2) this] show False using assms(3) by simp
qed

lemma table_pagesI: "valid_path p \<Longrightarrow> tbl m root p = Some t \<Longrightarrow> page_of t \<in> table_pages m root"
  by (auto simp: table_pages_def)

lemma ensure_table_frame:
  assumes ok: "vm_ok s root" and p: "valid_path p" "length p < 3" "i < 512"
    and t: "tbl (ram s) root p = Some t" and run: "ensure_table s t i = Inr s'"
  shows "frame s s' root"
proof (cases "ent (ram s) t i = 0")
  case False
  then have "s' = s" using run by (simp add: ensure_table_def ent_def)
  then show ?thesis by (simp add: frame_refl)
next
  case True
  have inv: "pt_inv s root" using ok by (simp add: vm_ok_def)
  have al: "page_aligned t" using pt_invD(1) [OF inv p(1) t] by (simp add: good_table_def)
  obtain a where a: "page_aligned a" "page_of a \<in> pm_free s" "page_of a < 2 ^ 40"
    "adds_table (ram s) (ram s') t i a" "pm_free s' = pm_free s - {page_of a}"
    "ram s' = st64 (memset (ram s) a 0 4096) (slot t i) (a OR 7)"
    by (rule ensure_table_new [OF ok p(1,3) t True run])
  have "table_pages (ram s') root \<subseteq> table_pages (ram s) root \<union> pm_free s"
    using adds_table_inv(4) [OF inv p t True a(1-5)] a(2) by (auto simp: table_pages_def)
  moreover have "ram s' x = ram s x" if "page_of x \<notin> pm_free s \<union> table_pages (ram s) root" for x
  proof -
    have "page_of x \<noteq> page_of t" using that table_pagesI [OF p(1) t] by auto
    then show ?thesis using that a(2) by (auto simp: a(6) st64_page [OF al p(3)] memset_page [OF a(1)])
  qed
  ultimately show ?thesis using a(5) by (auto simp: frame_def)
qed

lemma next_table_frame:
  assumes "vm_ok s root" "valid_path p" "length p < 3" "i < 512"
    and "tbl (ram s) root p = Some t" and "next_table s t i = Inr (u, s')"
  shows "frame s s' root"
  using assms ensure_table_frame [OF assms(1-5)] by (auto simp: next_table_def bindE_eq_Inr)

lemma leaf_store_frame:
  assumes ok: "vm_ok s root" and p: "valid_path p" "length p = 3" "i < 512"
    and t: "tbl (ram s) root p = Some t"
    and s': "s' = s\<lparr>ram := st64 (ram s) (slot t i) v\<rparr>"
  shows "frame s s' root"
proof -
  have inv: "pt_inv s root" using ok by (simp add: vm_ok_def)
  have al: "page_aligned t" using pt_invD(1) [OF inv p(1) t] by (simp add: good_table_def)
  have "table_pages (ram s') root = table_pages (ram s) root"
    using leaf_store_inv(2) [OF assms] unfolding table_pages_def by (intro Collect_cong) metis
  moreover have "ram s' x = ram s x" if "page_of x \<notin> table_pages (ram s) root" for x
  proof -
    have "page_of x \<noteq> page_of t" using that table_pagesI [OF p(1) t] by auto
    then show ?thesis using st64_page [OF al p(3)] by (simp add: s')
  qed
  ultimately show ?thesis by (auto simp: frame_def s' pm_free_def)
qed

lemma MapPage_frame:
  assumes ok: "vm_ok s root" and run: "VirtualMemory_MapPage s root va pa fl = Inr s'"
  shows "frame s s' root"
proof -
  define i j k l where idx: "i = drop_bit 39 va AND 0x1ff" "j = drop_bit 30 va AND 0x1ff"
    "k = drop_bit 21 va AND 0x1ff" "l = drop_bit 12 va AND 0x1ff"
  have lt: "i < 512" "j < 512" "k < 512" "l < 512" by (simp_all add: idx index_less)
  obtain pdpt s1 pdt s2 pt s3 where st: "next_table s root i = Inr (pdpt, s1)"
    "next_table s1 pdpt j = Inr (pdt, s2)" "next_table s2 pdt k = Inr (pt, s3)"
    and s': "s' = s3\<lparr>ram := st64 (ram s3) (slot pt l) (pa OR fl)\<rparr>"
    using run by (auto simp: VirtualMemory_MapPage_def Let_def bindE_eq_Inr idx [symmetric])
  have v0: "valid_path []" by (simp add: valid_path_def)
  note n1 = next_table_inv [OF ok v0 length_lt3(1) lt(1) tbl.simps(1) st(1), unfolded append.simps]
  note n2 = next_table_inv [OF n1(1) n1(5) length_lt3(2) lt(2) n1(4) st(2), unfolded append.simps]
  note n3 = next_table_inv [OF n2(1) n2(5) length_lt3(3) lt(3) n2(4) st(3), unfolded append.simps]
  have "frame s s1 root" by (rule next_table_frame [OF ok v0 length_lt3(1) lt(1) tbl.simps(1) st(1)])
  moreover have "frame s1 s2 root" by (rule next_table_frame [OF n1(1) n1(5) length_lt3(2) lt(2) n1(4) st(2)])
  moreover have "frame s2 s3 root" by (rule next_table_frame [OF n2(1) n2(5) length_lt3(3) lt(3) n2(4) st(3)])
  moreover have "frame s3 s' root" by (rule leaf_store_frame [OF n3(1) n3(5) length_3 lt(4) n3(4) s'])
  ultimately show ?thesis using frame_trans by blast
qed

section \<open>Writing outside the tables\<close>

text \<open>Two memories that agree on the pages of a tree have the same tree.\<close>

lemma ent_cong:
  assumes "page_aligned t" "i < 512" "\<And>x. page_of x = page_of t \<Longrightarrow> m' x = m x"
  shows "ent m' t i = ent m t i"
  unfolding ent_def by (rule ld64_cong) (use assms page_of_slot(1) in blast)

lemma tbl_outside:
  assumes inv: "pt_inv s root" and same: "\<And>x. page_of x \<in> table_pages (ram s) root \<Longrightarrow> m' x = ram s x"
  shows "valid_path p \<Longrightarrow> tbl m' root p = tbl (ram s) root p"
proof (induction p rule: rev_induct)
  case (snoc i p)
  then have p: "valid_path p" "i < 512" by (simp_all add: valid_path_snoc)
  show ?case
  proof (cases "tbl (ram s) root p")
    case (Some t)
    have "ent m' t i = ent (ram s) t i"
      using pt_invD(1) [OF inv p(1) Some] table_pagesI [OF p(1) Some] same
      by (intro ent_cong [OF _ p(2)]) (simp_all add: good_table_def)
    then show ?thesis using Some snoc.IH [OF p(1)] by (simp add: tbl_snoc)
  qed (use snoc.IH [OF p(1)] in \<open>simp add: tbl_snoc\<close>)
qed simp

lemma ent_outside:
  assumes "pt_inv s root" "\<And>x. page_of x \<in> table_pages (ram s) root \<Longrightarrow> m' x = ram s x"
    and "valid_path p" "tbl (ram s) root p = Some t" "i < 512"
  shows "ent m' t i = ent (ram s) t i"
  using pt_invD(1) [OF assms(1,3,4)] table_pagesI [OF assms(3,4)] assms(2)
  by (intro ent_cong [OF _ assms(5)]) (simp_all add: good_table_def)

lemma vm_ok_outside:
  assumes ok: "vm_ok s root" and same: "\<And>x. page_of x \<in> table_pages (ram s) root \<Longrightarrow> m' x = ram s x"
  shows "vm_ok (s\<lparr>ram := m'\<rparr>) root" "pte m' root va = pte (ram s) root va"
    "table_pages m' root = table_pages (ram s) root" "mmu_walk m' root va = mmu_walk (ram s) root va"
proof -
  have inv: "pt_inv s root" using ok by (simp add: vm_ok_def)
  have t: "valid_path p \<Longrightarrow> tbl m' root p = tbl (ram s) root p" for p
    by (rule tbl_outside [OF inv same])
  have e: "valid_path p \<Longrightarrow> tbl (ram s) root p = Some t \<Longrightarrow> i < 512 \<Longrightarrow> ent m' t i = ent (ram s) t i" for p t i
    by (rule ent_outside [OF inv same])
  have good: "good_table (s\<lparr>ram := m'\<rparr>) = good_table s"
    by (simp add: good_table_def pm_free_def fun_eq_iff)
  have "pt_inv (s\<lparr>ram := m'\<rparr>) root"
    unfolding pt_inv_def using pt_invD [OF inv] by (auto simp: t e good)
  then show ok': "vm_ok (s\<lparr>ram := m'\<rparr>) root"
    using ok by (simp add: vm_ok_def pm_ok_def page_limit_def pm_free_def)
  show p: "pte m' root va = pte (ram s) root va" for va
    unfolding pte_def leaf_def t [OF va_path_valid(1)]
    using e [OF va_path_valid(1) _ va_path_valid(3)] by (simp split: option.splits)
  show "table_pages m' root = table_pages (ram s) root"
    unfolding table_pages_def using t by (intro Collect_cong) metis
  show "mmu_walk m' root va = mmu_walk (ram s) root va"
    using mmu_walk_eq [OF ok', of va] mmu_walk_eq [OF ok, of va] p [of va] by simp
qed

end
