(* ===== verification/Elf.thy ===== *)
theory Elf
  imports Address_Space Vfs Sched Heap_Phys
begin

text \<open>
  The program loader, \<^verbatim>\<open>src/src/fs/util.cpp\<close>: it reads a file through the virtual file system into a
  buffer from the kernel heap, checks that it is an ELF file, creates a thread for its entry
  point, copies each loadable segment to new pages, maps them into the thread's address
  space and hands the thread to the scheduler. The physical memory the heap, the scheduler and
  the page tables share is the scheduler's \<open>s_phys\<close>; the heap gets it for each of its calls. The
  buffer is read through the direct map: \<open>buf\<close> below is its physical address.
\<close>

section \<open>State and file layout\<close>

record 's loader =
  l_vfs :: "'s vfs"
  l_sched :: sched
  l_heap :: heap

definition on_heap :: "(heap \<Rightarrow> ('a \<times> heap) result) \<Rightarrow> 's loader \<Rightarrow> ('a \<times> 's loader) result" where
  "on_heap f L =
     bindE (f ((l_heap L)\<lparr>h_phys := s_phys (l_sched L)\<rparr>)) (\<lambda>(x, h).
     Inr (x, L\<lparr>l_heap := h, l_sched := (l_sched L)\<lparr>s_phys := h_phys h\<rparr>\<rparr>))"

text \<open>The fields of the two structures that the loader reads.\<close>

definition e_entry :: "mem \<Rightarrow> u64 \<Rightarrow> u64" where "e_entry m hdr = ld64 m (hdr + 24)"
definition e_phoff :: "mem \<Rightarrow> u64 \<Rightarrow> u64" where "e_phoff m hdr = ld64 m (hdr + 32)"
definition e_phnum :: "mem \<Rightarrow> u64 \<Rightarrow> u16" where "e_phnum m hdr = ld16 m (hdr + 56)"
definition p_type :: "mem \<Rightarrow> u64 \<Rightarrow> u32" where "p_type m ph = ld32 m ph"
definition p_offset :: "mem \<Rightarrow> u64 \<Rightarrow> u64" where "p_offset m ph = ld64 m (ph + 8)"
definition p_vaddr :: "mem \<Rightarrow> u64 \<Rightarrow> u64" where "p_vaddr m ph = ld64 m (ph + 16)"
definition p_filesz :: "mem \<Rightarrow> u64 \<Rightarrow> u64" where "p_filesz m ph = ld64 m (ph + 32)"
definition p_memsz :: "mem \<Rightarrow> u64 \<Rightarrow> u64" where "p_memsz m ph = ld64 m (ph + 40)"

definition phdr_size :: nat where "phdr_size = 56"

definition elf_magic :: "mem \<Rightarrow> u64 \<Rightarrow> bool" where
  "elf_magic m hdr \<longleftrightarrow> m hdr = 0x7f \<and> m (hdr + 1) = 0x45 \<and> m (hdr + 2) = 0x4c \<and> m (hdr + 3) = 0x46"

text \<open>\<^verbatim>\<open>sizeof(Thread)\<close>: 22 registers, the root table, \<^verbatim>\<open>pid\<close> and \<^verbatim>\<open>canRun\<close> with padding, and \<^verbatim>\<open>next\<close>.\<close>

definition Thread_size :: u64 where "Thread_size = 200"

section \<open>Loading\<close>

definition segment_pages :: "u64 \<Rightarrow> u64" where
  "segment_pages memsz = (if memsz div 4096 < 1 then 1 else memsz div 4096)"

text \<open>One iteration of the loop over the program headers.\<close>

definition load_segment :: "u64 \<Rightarrow> u64 \<Rightarrow> u64 \<Rightarrow> sched \<Rightarrow> sched result" where
  "load_segment hdr ph t s =
     (let m = ram (s_phys s)
      in if p_type m ph \<noteq> 1 \<or> p_memsz m ph = 0 then Inr s
         else bindE (PhysicalMemory_alloc (s_phys s) (segment_pages (p_memsz m ph))) (\<lambda>(segment, p).
              bindE (Thread_MapPage (s\<lparr>s_phys := p\<rparr>) t segment (p_vaddr (ram p) ph)
                       (PF_present OR PF_readwrite OR PF_user)) (\<lambda>s2.
              let m2 = ram (s_phys s2)
              in Inr (s2\<lparr>s_phys := (s_phys s2)\<lparr>ram :=
                   memcpy m2 segment (hdr + p_offset m2 ph) (unat (p_filesz m2 ph))\<rparr>\<rparr>))))"

function load_segments :: "u64 \<Rightarrow> u64 \<Rightarrow> u64 \<Rightarrow> nat \<Rightarrow> sched \<Rightarrow> sched result" where
  "load_segments hdr phdrs t i s =
     (if i < unat (e_phnum (ram (s_phys s)) hdr)
      then bindE (load_segment hdr (phdrs + of_nat (phdr_size * i)) t s)
             (\<lambda>s'. load_segments hdr phdrs t (Suc i) s')
      else Inr s)"
  by pat_completeness auto
termination
proof (relation "measure (\<lambda>(hdr, phdrs, t, i, s). 2 ^ 16 - i)")
  fix hdr phdrs t :: u64 and i :: nat and s s' :: sched
  assume "i < unat (e_phnum (ram (s_phys s)) hdr)"
  then have "i < 2 ^ 16" using unat_less_2p [of "e_phnum (ram (s_phys s)) hdr"] by simp
  then show "((hdr, phdrs, t, Suc i, s'), hdr, phdrs, t, i, s) \<in> measure (\<lambda>(hdr, phdrs, t, i, s). 2 ^ 16 - i)"
    by simp
qed simp

declare load_segments.simps [simp del]

text \<open>\<^verbatim>\<open>new Thread(entry, true)\<close> on processor \<open>cur\<close>; \<open>garbage\<close> is what its \<^verbatim>\<open>pid\<close> holds before it is set.\<close>

definition new_thread ::
  "boot_info \<Rightarrow> mmap_entry list \<Rightarrow> u64 \<Rightarrow> i32 \<Rightarrow> u64 \<Rightarrow> u64 \<Rightarrow> sched \<Rightarrow> sched result" where
  "new_thread b mmap cur garbage t entry s =
     bindE (cpu_at s cur) (\<lambda>c.
     bindE (Thread_ctor b mmap (s_phys s) c garbage entry True) (\<lambda>(th, p, c').
     Inr ((set_thread s t th)\<lparr>s_phys := p, cpus := (cpus s)(cur := c')\<rparr>)))"

text \<open>The file's contents in the new buffer: the result has the buffer's physical address.\<close>

definition read_file :: "u8 list \<Rightarrow> 's loader \<Rightarrow> ((i32 \<times> u64) \<times> 's loader) result" where
  "read_file path L =
     bindE (VFS_open (l_vfs L) path [114, 98, 0]) (\<lambda>(fd, v1).
     if sint fd < 0 then Inr ((- 1, 0), L\<lparr>l_vfs := v1\<rparr>)
     else bindE (VFS_lseek v1 fd 0 SEEK_END) (\<lambda>(_, v2).
     bindE (VFS_tell v2 fd) (\<lambda>size.
     bindE (VFS_lseek v2 fd 0 SEEK_SET) (\<lambda>(_, v3).
     bindE (on_heap (\<lambda>h. malloc h size) (L\<lparr>l_vfs := v3\<rparr>)) (\<lambda>(ptr, L1).
     if ptr = 0 then Inl NullPointer
     else bindE (VFS_read v3 fd size) (\<lambda>(_, bytes, v4).
     bindE (VFS_close v4 fd) (\<lambda>(_, v5).
     let buf = ptr - hhdm (l_heap L1); p = s_phys (l_sched L1)
     in Inr ((0, buf), L1\<lparr>l_vfs := v5,
          l_sched := (l_sched L1)\<lparr>s_phys := p\<lparr>ram := store_bytes (ram p) buf bytes\<rparr>\<rparr>\<rparr>))))))))"

definition LoadAndExecuteElf ::
  "boot_info \<Rightarrow> mmap_entry list \<Rightarrow> u64 \<Rightarrow> i32 \<Rightarrow> u8 list \<Rightarrow> 's loader \<Rightarrow> (i32 \<times> 's loader) result" where
  "LoadAndExecuteElf b mmap cur garbage path L =
     bindE (read_file path L) (\<lambda>((r, hdr), L1).
     if r \<noteq> 0 then Inr (r, L1)
     else let m = ram (s_phys (l_sched L1))
     in if \<not> elf_magic m hdr then Inr (- 1, L1)
        else let phdrs = hdr + e_phoff m hdr
        in bindE (on_heap (\<lambda>h. malloc h Thread_size) L1) (\<lambda>(t, L2).
           if t = 0 then Inl NullPointer
           else bindE (new_thread b mmap cur garbage t (e_entry (ram (s_phys (l_sched L2))) hdr) (l_sched L2)) (\<lambda>s3.
           bindE (load_segments hdr phdrs t 0 s3) (\<lambda>s4.
           bindE (AddThread s4 t) (\<lambda>(_, s5). Inr (0, L2\<lparr>l_sched := s5\<rparr>))))))"

section \<open>A segment\<close>

lemma Thread_MapPage_eq:
  assumes "deref s t = Inr th"
  shows "Thread_MapPage (s\<lparr>s_phys := p\<rparr>) t pa va fl =
    bindE (VirtualMemory_MapPage p (rootTable th) va pa fl) (\<lambda>p'. Inr (s\<lparr>s_phys := p'\<rparr>))"
proof -
  have "deref (s\<lparr>s_phys := p\<rparr>) t = Inr th" using assms by (simp add: deref_def split: if_splits option.splits)
  then show ?thesis by (simp add: Thread_MapPage_def)
qed

text \<open>Memory the loader reads that is neither free nor part of the tables it builds.\<close>

definition settled :: "phys \<Rightarrow> u64 \<Rightarrow> u64 \<Rightarrow> nat \<Rightarrow> bool" where
  "settled s root a n \<longleftrightarrow> (\<forall>k < n. page_of (a + of_nat k) \<notin> pm_free s \<union> table_pages (ram s) root)"

lemma alloc_frame:
  assumes "vm_ok s root" "PhysicalMemory_alloc s n = Inr (a, s')"
  shows "frame s s' root" "vm_ok s' root" "mmu_walk (ram s') root va = mmu_walk (ram s) root va"
    "table_pages (ram s') root = table_pages (ram s) root"
proof -
  have ok: "pm_ok s" "pt_inv s root" using assms(1) by (simp_all add: vm_ok_def)
  note blk = pm.alloc_block [OF ok(1) assms(2)]
  note out = alloc_outside [OF ok(1) assms(2)]
  have tabs: "table_pages (ram s) root \<inter> pm_free s = {}"
    using pt_invD(1) [OF ok(2)] by (auto simp: table_pages_def good_table_def)
  have same: "ram s' x = ram s x" if "page_of x \<in> table_pages (ram s) root" for x
    using out that tabs by auto
  note o = vm_ok_outside [OF assms(1), of "ram s'", OF same]
  show "mmu_walk (ram s') root va = mmu_walk (ram s) root va"
    "table_pages (ram s') root = table_pages (ram s) root" using o by simp_all
  show "frame s s' root" using o(3) blk(4) out by (auto simp: frame_def)
  have "good_table s t \<Longrightarrow> good_table s' t" for t using blk(4) by (auto simp: good_table_def)
  moreover have "good_table (s\<lparr>ram := ram s'\<rparr>) = good_table s" by (simp add: good_table_def fun_eq_iff)
  ultimately have "pt_inv s' root"
    using o(1) unfolding vm_ok_def pt_inv_def by simp
  then show "vm_ok s' root"
    using pm_alloc_ok [OF ok(1) assms(2)] assms(1) by (simp add: vm_ok_def)
qed

text \<open>A field of a structure, in two memories that agree on the structure.\<close>

lemma ld64_field:
  assumes "\<And>k. k < n \<Longrightarrow> m' (p + of_nat k) = m (p + of_nat k)" "unat j + 8 \<le> n" "n \<le> 2 ^ 32"
  shows "ld64 m' (p + j) = ld64 m (p + j)"
proof (rule ld64_cong)
  fix k :: u64 assume "k < 8"
  then have k: "unat k < 8" by (simp add: word_less_nat_alt)
  then have "p + j + k = p + of_nat (unat j + unat k)" by simp
  then show "m' (p + j + k) = m (p + j + k)"
    using assms(1) [of "unat j + unat k"] assms(2) k by (simp add: add.assoc)
qed

lemma load_segment_ok:
  assumes ok: "vm_ok (s_phys s) root" and t: "deref s t = Inr th" "rootTable th = root"
    and m: "m = ram (s_phys s)" and pt: "p_type m ph = 1" "p_memsz m ph \<noteq> 0"
    and n: "n = unat (segment_pages (p_memsz m ph))" and len: "len = unat (p_filesz m ph)"
    and hs: "settled (s_phys s) root ph 56"
    and src: "settled (s_phys s) root (hdr + p_offset m ph) len"
    and fits: "len \<le> 4096 * n" and run: "load_segment hdr ph t s = Inr s'"
  shows "\<exists>seg. page_aligned seg \<and> {page_of seg..<page_of seg + n} \<subseteq> pm_free (s_phys s) \<and>
    pm_free (s_phys s') \<inter> {page_of seg..<page_of seg + n} = {} \<and> vm_ok (s_phys s') root \<and>
    (\<forall>vb. mmu_walk (ram (s_phys s')) root vb =
      (if same_vpage (p_vaddr m ph) vb then Some (seg OR (vb AND 0xFFF)) else mmu_walk m root vb)) \<and>
    (\<forall>k < len. ram (s_phys s') (seg + of_nat k) = m (hdr + p_offset m ph + of_nat k))"
proof -
  let ?np = "segment_pages (p_memsz m ph)"
  obtain seg p where al: "PhysicalMemory_alloc (s_phys s) ?np = Inr (seg, p)"
    and r1: "bindE (Thread_MapPage (s\<lparr>s_phys := p\<rparr>) t seg (p_vaddr (ram p) ph) (PF_present OR PF_readwrite OR PF_user)) (\<lambda>s2.
              let m2 = ram (s_phys s2)
              in Inr (s2\<lparr>s_phys := (s_phys s2)\<lparr>ram :=
                   memcpy m2 seg (hdr + p_offset m2 ph) (unat (p_filesz m2 ph))\<rparr>\<rparr>)) = Inr s'"
    using run pt by (auto simp: load_segment_def m [symmetric] bindE_eq_Inr)
  have pok: "pm_ok (s_phys s)" "page_limit (s_phys s) \<le> 2 ^ 40" "pt_inv (s_phys s) root"
    using ok by (simp_all add: vm_ok_def)
  note blk = pm.alloc_block [OF pok(1) al, folded n]
  note af = alloc_frame [OF ok al]
  have seg40: "page_of seg < 2 ^ 40"
  proof -
    have "0 < n" using n by (simp add: segment_pages_def unat_gt_0 word_less_nat_alt not_less split: if_splits)
    moreover obtain page where pg: "page + n \<le> page_limit (s_phys s)" "seg = of_nat page * 4096"
      using pm_alloc_ok(2) [OF pok(1) al] unfolding takes_pages_def n by blast
    moreover have "page_of seg = page"
      using pg page_limit_bound [of "s_phys s"] by (simp add: page_addr_facts)
    ultimately show ?thesis using pok(2) by linarith
  qed
  obtain p2 where mp: "VirtualMemory_MapPage p root (p_vaddr (ram p) ph) seg 7 = Inr p2"
    and s': "s' = s\<lparr>s_phys := p2\<lparr>ram := memcpy (ram p2) seg (hdr + p_offset (ram p2) ph) (unat (p_filesz (ram p2) ph))\<rparr>\<rparr>"
    using r1 t permissions_seven by (auto simp: Thread_MapPage_eq bindE_eq_Inr Let_def)
  note mf = MapPage_frame [OF af(2) mp]
  have fr: "frame (s_phys s) p2 root" by (rule frame_trans [OF af(1) mf])
  then have keep: "ram p2 x = m x" if "page_of x \<notin> pm_free (s_phys s) \<union> table_pages m root" for x
    using that by (simp add: frame_def m)
  have hdr: "ram p2 (ph + of_nat k) = m (ph + of_nat k)" "ram p (ph + of_nat k) = m (ph + of_nat k)" if "k < 56" for k
    using that hs keep af(1) by (simp_all add: settled_def m frame_def)
  have f: "p_offset (ram p2) ph = p_offset m ph" "p_filesz (ram p2) ph = p_filesz m ph" "p_vaddr (ram p) ph = p_vaddr m ph"
    using ld64_field [of 56 "ram p2" ph m] ld64_field [of 56 "ram p" ph m] hdr
    by (simp_all add: p_offset_def p_filesz_def p_vaddr_def)
  let ?S = "{page_of seg..<page_of seg + n}" and ?src = "hdr + p_offset m ph"
  have tabs: "table_pages m root \<inter> pm_free (s_phys s) = {}"
    using pt_invD(1) [OF pok(3)] by (auto simp: table_pages_def good_table_def m)
  have fp: "pm_free p2 \<inter> ?S = {}" "table_pages (ram p2) root \<inter> ?S = {}"
    using mf blk(3,4) tabs af(4) by (auto simp: frame_def m)
  have dst: "page_of (seg + of_nat k) \<in> ?S" if "k < len" for k
  proof (rule in_block [OF blk(2,5)])
    have "k < 2 ^ 64" using that len unat_less_u64 [of "p_filesz m ph"] by simp
    then show "unat (seg + of_nat k - seg) < 4096 * n" using that fits by (simp add: unat_of_nat)
  qed
  have len64: "len \<le> 2 ^ 64" using len unat_less_u64 [of "p_filesz m ph"] by simp
  have cp: "memcpy (ram p2) seg ?src len x = (if unat (x - seg) < len then ram p2 (?src + (x - seg)) else ram p2 x)" for x
  proof (rule memcpy_apply [OF len64])
    fix j k assume "j < len" "k < j"
    then have "page_of (?src + of_nat j) \<notin> pm_free (s_phys s)" "page_of (seg + of_nat k) \<in> ?S"
      using src dst by (simp_all add: settled_def)
    then show "?src + of_nat j \<noteq> seg + of_nat k" using blk(3) by auto
  qed
  have rs: "ram (s_phys s') = memcpy (ram p2) seg ?src len" by (simp add: s' f len)
  have same: "ram (s_phys s') x = ram p2 x" if "page_of x \<in> table_pages (ram p2) root" for x
    unfolding rs cp using in_block [OF blk(2,5), of x] fits that fp(2) by (auto dest: less_le_trans)
  note m2 = map_page_walk [OF af(2) mp blk(2) seg40]
  have m2': "vm_ok p2 root" "mmu_walk (ram p2) root vb =
      (if same_vpage (p_vaddr m ph) vb then Some (seg OR (vb AND 0xFFF)) else mmu_walk m root vb)" for vb
    using m2 af(3) f(3) by (simp_all add: ADDR_MASK_def m)
  note o = vm_ok_outside [OF m2'(1), of "ram (s_phys s')", OF same]
  have ph: "s_phys s' = p2\<lparr>ram := ram (s_phys s')\<rparr>" by (simp add: s')
  have "vm_ok (s_phys s') root" using o(1) ph by simp
  moreover have "ram (s_phys s') (seg + of_nat k) = m (?src + of_nat k)" if k: "k < len" for k
  proof -
    have "unat (seg + of_nat k - seg) = k" using k len64 by (simp add: unat_of_nat)
    then have "ram (s_phys s') (seg + of_nat k) = ram p2 (?src + of_nat k)"
      unfolding rs cp using k by simp
    then show ?thesis using keep src k by (simp add: settled_def m)
  qed
  moreover have "pm_free (s_phys s') = pm_free p2" by (simp add: s')
  ultimately show ?thesis using blk fp o(4) m2'(2) by (intro exI [of _ seg]) simp
qed

text \<open>Bytes outside the free pages.\<close>

definition settled_bytes :: "phys \<Rightarrow> u64 \<Rightarrow> u64 \<Rightarrow> bool" where
  "settled_bytes s a n \<longleftrightarrow> (\<forall>k < n. page_of (a + k) \<notin> pm_free s)"

section \<open>What the loader leaves of the scheduler\<close>

text \<open>Two scheduler states that differ in the physical memory only.\<close>

definition same_sched :: "sched \<Rightarrow> sched \<Rightarrow> bool" where
  "same_sched s s' \<longleftrightarrow> s' = s\<lparr>s_phys := s_phys s'\<rparr>"

lemma same_sched_refl [simp]: "same_sched s s"
  by (simp add: same_sched_def)

lemma same_sched_phys [simp]: "same_sched s (s\<lparr>s_phys := p\<rparr>)"
  by (simp add: same_sched_def)

lemma same_sched_trans: "same_sched s s1 \<Longrightarrow> same_sched s1 s2 \<Longrightarrow> same_sched s s2"
  unfolding same_sched_def by (metis sched.surjective sched.update_convs(1))

lemma same_schedD:
  assumes "same_sched s s'"
  shows "threads s' = threads s" "cpus s' = cpus s" "sched_mutex s' = sched_mutex s"
    "curPid s' = curPid s" "curCpuCore s' = curCpuCore s"
proof -
  have e: "s' = s\<lparr>s_phys := s_phys s'\<rparr>" using assms by (simp add: same_sched_def)
  show "threads s' = threads s" "cpus s' = cpus s" "sched_mutex s' = sched_mutex s"
    "curPid s' = curPid s" "curCpuCore s' = curCpuCore s"
    by (subst e, simp)+
qed

lemma load_segment_same: "load_segment hdr ph t s = Inr s' \<Longrightarrow> same_sched s s'"
  by (auto simp: load_segment_def Thread_MapPage_def bindE_eq_Inr Let_def split: if_splits)

lemma load_segments_same: "load_segments hdr phdrs t i s = Inr s' \<Longrightarrow> same_sched s s'"
proof (induction hdr phdrs t i s rule: load_segments.induct)
  case (1 hdr phdrs t i s)
  show ?case
  proof (cases "i < unat (e_phnum (ram (s_phys s)) hdr)")
    case True
    then obtain s1 where s1: "load_segment hdr (phdrs + of_nat (phdr_size * i)) t s = Inr s1"
      "load_segments hdr phdrs t (Suc i) s1 = Inr s'"
      using 1(2) by (subst (asm) load_segments.simps) (auto simp: bindE_eq_Inr)
    then show ?thesis using 1(1) [OF True s1] load_segment_same [OF s1(1)] same_sched_trans by blast
  next
    case False
    then show ?thesis using 1(2) by (subst (asm) load_segments.simps) simp
  qed
qed

lemma on_heap_same: "on_heap f L = Inr (x, L') \<Longrightarrow> same_sched (l_sched L) (l_sched L') \<and> l_vfs L' = l_vfs L"
  by (auto simp: on_heap_def bindE_eq_Inr)

lemma read_file_same:
  assumes "read_file path L = Inr (r, L')"
  shows "same_sched (l_sched L) (l_sched L')" "fst r = 0 \<or> fst r = - 1"
proof -
  obtain fd v1 where o: "VFS_open (l_vfs L) path [114, 98, 0] = Inr (fd, v1)"
    using assms by (auto simp: read_file_def bindE_eq_Inr)
  have "same_sched (l_sched L) (l_sched L') \<and> (fst r = 0 \<or> fst r = - 1)"
  proof (cases "sint fd < 0")
    case True
    then show ?thesis using assms o by (auto simp: read_file_def)
  next
    case False
    obtain size v3 ptr L1 where h: "on_heap (\<lambda>h. malloc h size) (L\<lparr>l_vfs := v3\<rparr>) = Inr (ptr, L1)"
      and r: "fst r = 0" "same_sched (l_sched L1) (l_sched L')"
      using assms o False by (auto simp: read_file_def bindE_eq_Inr Let_def split: if_splits)
    have "same_sched (l_sched L) (l_sched L1)" using on_heap_same [OF h] by simp
    then show ?thesis using r same_sched_trans by blast
  qed
  then show "same_sched (l_sched L) (l_sched L')" "fst r = 0 \<or> fst r = - 1" by simp_all
qed

lemma q_ok_same: "same_sched s s' \<Longrightarrow> q_ok s' i ts = q_ok s i ts"
  by (simp add: q_ok_def same_schedD)

lemma new_thread_q_ok:
  assumes q: "q_ok s i ts" "t \<notin> set ts" and run: "new_thread b mmap cur g t entry s = Inr s'"
  shows "q_ok s' i ts" "\<exists>th. threads s' = (threads s)(t \<mapsto> th) \<and> ctxt th = initial_context entry True \<and>
      next_thread th = 0 \<and> canRun th" "curCpuCore s' = curCpuCore s" "curPid s' = curPid s"
proof -
  obtain c th p c' where c: "cpu_at s cur = Inr c"
    and th: "Thread_ctor b mmap (s_phys s) c g entry True = Inr (th, p, c')"
    and s': "s' = (set_thread s t th)\<lparr>s_phys := p, cpus := (cpus s)(cur := c')\<rparr>"
    using run by (auto simp: new_thread_def bindE_eq_Inr)
  obtain ph len where fb: "find_framebuffer mmap = (ph, len)" by fastforce
  have e: "ctxt th = initial_context entry True" "next_thread th = 0" "canRun th"
    by (rule Thread_ctor_split [OF th fb]; simp)+
  have qc: "queue c' = queue (cpus s cur)"
    using th c unfolding Thread_ctor_def
    by (auto simp: fb bindE_eq_Inr Let_def cpu_at_def split: if_splits)
  have "q_ok (set_thread s t th) i ts" by (rule q_ok_set_thread [OF q])
  moreover have "queue (cpus s' j) = queue (cpus s j)" for j
    using qc by (simp add: s' set_thread_def)
  ultimately show "q_ok s' i ts" unfolding q_ok_def by (simp add: s' set_thread_def)
  show "\<exists>th. threads s' = (threads s)(t \<mapsto> th) \<and> ctxt th = initial_context entry True \<and>
      next_thread th = 0 \<and> canRun th"
    using e by (auto simp: s' set_thread_def)
  show "curCpuCore s' = curCpuCore s" "curPid s' = curPid s" by (simp_all add: s' set_thread_def)
qed

lemma on_heap_malloc:
  assumes "on_heap (\<lambda>h. malloc h n) L = Inr (p, L')" "pm_ok (s_phys (l_sched L))"
  shows "pm_ok (s_phys (l_sched L'))"
    "page_of x \<notin> pm_free (s_phys (l_sched L)) \<Longrightarrow> ram (s_phys (l_sched L')) x = ram (s_phys (l_sched L)) x"
proof -
  obtain h' where m: "malloc ((l_heap L)\<lparr>h_phys := s_phys (l_sched L)\<rparr>) n = Inr (p, h')"
    and s: "s_phys (l_sched L') = h_phys h'"
    using assms(1) by (auto simp: on_heap_def bindE_eq_Inr)
  show "pm_ok (s_phys (l_sched L'))"
    "page_of x \<notin> pm_free (s_phys (l_sched L)) \<Longrightarrow> ram (s_phys (l_sched L')) x = ram (s_phys (l_sched L)) x"
    using malloc_ok [OF m] assms(2) s by simp_all
qed

lemma read_file_pm_ok:
  assumes "read_file path L = Inr ((0, hdr), L')" "pm_ok (s_phys (l_sched L))"
  shows "pm_ok (s_phys (l_sched L'))"
proof -
  obtain size v3 ptr L1 bytes where h: "on_heap (\<lambda>h. malloc h size) (L\<lparr>l_vfs := v3\<rparr>) = Inr (ptr, L1)"
    and r: "s_phys (l_sched L') = (s_phys (l_sched L1))\<lparr>ram := store_bytes (ram (s_phys (l_sched L1))) hdr bytes\<rparr>"
    using assms(1) by (auto simp: read_file_def bindE_eq_Inr Let_def split: if_splits)
  then show ?thesis using on_heap_malloc(1) [OF h] assms(2) by auto
qed

text \<open>The whole run: nothing but memory changed, or one more thread at the end of the queue.\<close>

lemma load_cases:
  assumes run: "LoadAndExecuteElf b mmap cur g path L = Inr (r, L')"
    and q: "q_ok (l_sched L) (curCpuCore (l_sched L)) ts" "Suc (length ts) < 2 ^ 31"
    and pm: "pm_ok (s_phys (l_sched L))"
  shows "(r = - 1 \<and> same_sched (l_sched L) (l_sched L')) \<or>
    (r = 0 \<and> (\<exists>t hdr L1. read_file path L = Inr ((0, hdr), L1) \<and>
       elf_magic (ram (s_phys (l_sched L1))) hdr \<and> t \<noteq> 0 \<and> (t \<notin> set ts \<longrightarrow>
         q_ok (l_sched L') (curCpuCore (l_sched L)) (ts @ [t]) \<and>
         map_option pid (threads (l_sched L') t) = Some (curPid (l_sched L)) \<and>
         (settled_bytes (s_phys (l_sched L1)) (hdr + 24) 8 \<longrightarrow> map_option ctxt (threads (l_sched L') t)
            = Some (initial_context (e_entry (ram (s_phys (l_sched L1))) hdr) True)))))"
proof -
  obtain r1 hdr L1 where rd: "read_file path L = Inr ((r1, hdr), L1)"
    using run by (auto simp: LoadAndExecuteElf_def bindE_eq_Inr)
  note s1 = read_file_same [OF rd, unfolded fst_conv]
  show ?thesis
  proof (cases "r1 \<noteq> 0 \<or> \<not> elf_magic (ram (s_phys (l_sched L1))) hdr")
    case True
    then have "r = - 1 \<and> L' = L1"
      using run rd s1(2) by (auto simp: LoadAndExecuteElf_def Let_def split: if_splits)
    then show ?thesis using s1(1) by simp
  next
    case False
    let ?m = "ram (s_phys (l_sched L1))"
    obtain t L2 s3 s4 u s5 where st: "on_heap (\<lambda>h. malloc h Thread_size) L1 = Inr (t, L2)" "t \<noteq> 0"
      "new_thread b mmap cur g t (e_entry (ram (s_phys (l_sched L2))) hdr) (l_sched L2) = Inr s3"
      "load_segments hdr (hdr + e_phoff ?m hdr) t 0 s3 = Inr s4" "AddThread s4 t = Inr (u, s5)"
      "r = 0" "L' = L2\<lparr>l_sched := s5\<rparr>"
      using run rd False by (auto simp: LoadAndExecuteElf_def Let_def bindE_eq_Inr split: if_splits)
    have rd0: "read_file path L = Inr ((0, hdr), L1)" using rd False by simp
    have e: "e_entry (ram (s_phys (l_sched L2))) hdr = e_entry ?m hdr"
      if "settled_bytes (s_phys (l_sched L1)) (hdr + 24) 8"
      unfolding e_entry_def
      by (rule ld64_cong) (use that on_heap_malloc(2) [OF st(1) read_file_pm_ok [OF rd0 pm]]
          in \<open>simp add: settled_bytes_def word_less_nat_alt\<close>)
    have "q_ok s5 (curCpuCore (l_sched L)) (ts @ [t]) \<and> map_option pid (threads s5 t) = Some (curPid (l_sched L)) \<and>
        map_option ctxt (threads s5 t) = Some (initial_context (e_entry (ram (s_phys (l_sched L2))) hdr) True)"
      if t: "t \<notin> set ts"
    proof -
      have s12: "same_sched (l_sched L) (l_sched L2)"
        using same_sched_trans [OF s1(1)] on_heap_same [OF st(1)] by blast
      note d = same_schedD [OF s12]
      have q2: "q_ok (l_sched L2) (curCpuCore (l_sched L)) ts" using q(1) q_ok_same [OF s12] by simp
      note n = new_thread_q_ok [OF q2 t st(3)]
      note l = load_segments_same [OF st(4)]
      obtain th where th: "threads s3 = (threads (l_sched L2))(t \<mapsto> th)" "next_thread th = 0"
        "ctxt th = initial_context (e_entry (ram (s_phys (l_sched L2))) hdr) True"
        using n(2) by blast
      have q4: "q_ok s4 (curCpuCore s4) ts" using n(1) q_ok_same [OF l] same_schedD [OF l] n(3) d by simp
      have t4: "threads s4 t = Some th" using th(1) same_schedD [OF l] by simp
      obtain s' where a: "AddThread s4 t = Inr (t, s')" "q_ok s' (curCpuCore s4) (ts @ [t])"
        "map_option pid (threads s' t) = Some (curPid s4)"
        "map_option ctxt (threads s' t) = Some (ctxt th)"
        using add_thread_ok [OF q4 st(2) t t4 th(2) q(2)] by blast
      then show ?thesis using st(5) n(3,4) d same_schedD [OF l] th(3) by simp
    qed
    then show ?thesis using rd0 False st(2,6,7) e by (intro disjI2 conjI exI [of _ t] exI [of _ hdr] exI [of _ L1]) auto
  qed
qed

section \<open>A demonstration file\<close>

text \<open>
  A program header at physical address \<open>0x1000\<close>: loadable, offset \<open>0x100\<close> from the header, virtual
  address \<open>0x5000\<close>, two bytes in the file and five in memory; the bytes are at \<open>0x1100\<close>.
\<close>

definition demo_segment :: mem where
  "demo_segment = (\<lambda>_. 0)(0x1000 := 1, 0x1009 := 1, 0x1011 := 0x50, 0x1020 := 2, 0x1028 := 5,
     0x1100 := 0xAB, 0x1101 := 0xCD)"

definition demo_target :: sched where
  "demo_target = demo_sched\<lparr>s_phys := demo_pm\<lparr>ram := demo_segment\<rparr>,
     threads := [0x10 \<mapsto> (demo_thread True 0)\<lparr>rootTable := 0x4000\<rparr>]\<rparr>"

lemma demo_fields:
  "p_type demo_segment 0x1000 = 1" "p_memsz demo_segment 0x1000 = 5" "p_filesz demo_segment 0x1000 = 2"
  "p_offset demo_segment 0x1000 = 0x100" "p_vaddr demo_segment 0x1000 = 0x5000"
  by (simp_all add: demo_segment_def p_type_def p_memsz_def p_filesz_def p_offset_def p_vaddr_def ld64_def ld32_def
      push_bit_eq_mult)

lemma demo_tables: "table_pages (ram demo_pm) 0x4000 = {4}"
proof -
  have e: "ent (ram demo_pm) t i = 0" for t i
    unfolding ent_def by (rule ld64_zero) (simp add: demo_pm_def)
  have "tbl (ram demo_pm) 0x4000 p = Some t \<longleftrightarrow> p = [] \<and> t = 0x4000" for p t
    by (cases p) (auto simp: e)
  then show ?thesis by (auto simp: table_pages_def valid_path_def page_of_def)
qed

lemma demo_target_ok: "vm_ok (demo_pm\<lparr>ram := demo_segment\<rparr>) 0x4000"
  "table_pages demo_segment 0x4000 = {4}" "mmu_walk demo_segment 0x4000 va = None"
proof -
  have s: "demo_segment x = ram demo_pm x" if "page_of x \<in> table_pages (ram demo_pm) 0x4000" for x
    using that unfolding demo_tables by (auto simp: demo_segment_def demo_pm_def page_of_def)
  note o = vm_ok_outside [OF demo_root(1), of demo_segment, OF s]
  show "vm_ok (demo_pm\<lparr>ram := demo_segment\<rparr>) 0x4000" "table_pages demo_segment 0x4000 = {4}"
    using o demo_tables by simp_all
  show "mmu_walk demo_segment 0x4000 va = None"
    using o(4) mmu_walk_eq [OF demo_root(1), of va] demo_root(2) [of va] by simp
qed

lemma demo_load: "\<exists>s'. load_segment 0x1000 0x1000 0x10 demo_target = Inr s'"
proof -
  let ?s = "demo_pm\<lparr>ram := demo_segment\<rparr>"
  note ok = demo_target_ok(1)
  have pok: "pm_ok ?s" using ok by (simp add: vm_ok_def)
  have av: "card (avail ?s) = 5" using demo_avail by simp
  then have "avail ?s \<noteq> {}" by auto
  then obtain a s1 where a: "PhysicalMemory_alloc ?s 1 = Inr (a, s1)" "card (avail ?s) = Suc (card (avail s1))"
    using alloc_page_total [OF pok] by auto
  note ok1 = alloc_frame(2) [OF ok a(1)]
  obtain p where p: "VirtualMemory_MapPage s1 0x4000 (p_vaddr (ram s1) 0x1000) a 7 = Inr p"
    using MapPage_total(1) [OF ok1] a(2) av by (cases "VirtualMemory_MapPage s1 0x4000 (p_vaddr (ram s1) 0x1000) a 7") auto
  have d: "deref demo_target 0x10 = Inr ((demo_thread True 0)\<lparr>rootTable := 0x4000\<rparr>)"
    by (simp add: deref_def demo_target_def)
  have r: "s_phys demo_target = ?s" by (simp add: demo_target_def)
  have n: "segment_pages 5 = 1" by (simp add: segment_pages_def)
  show ?thesis
    unfolding load_segment_def Let_def r using demo_fields a(1) p n permissions_seven
    by (simp add: Thread_MapPage_eq [OF d])
qed

definition demo_loader :: "initrd vfs \<Rightarrow> initrd loader" where
  "demo_loader v = \<lparr>l_vfs = v, l_sched = demo_sched\<lparr>s_phys := demo_heap_pm\<rparr>, l_heap = demo_heap\<rparr>"

lemma demo_loader_run:
  "\<exists>v L'. VFS_Initialize [demo_module] None vfs_boot = Inr v \<and>
     LoadAndExecuteElf demo_boot demo_fb 0 0 [47, 97, 0] (demo_loader v) = Inr (- 1, L')"
proof -
  obtain v v1 v2 v3 v4 v5 where v: "VFS_Initialize [demo_module] None vfs_boot = Inr v"
    "VFS_open v [47, 97, 0] [114, 98, 0] = Inr (0, v1)" "VFS_lseek v1 0 0 SEEK_END = Inr (3, v2)"
    "VFS_tell v2 0 = Inr 3" "VFS_lseek v2 0 0 SEEK_SET = Inr (0, v3)"
    "VFS_read v3 0 3 = Inr (3, [1, 2, 3], v4)" "VFS_close v4 0 = Inr (0, v5)"
    using boot_reads_file [OF demo_module_ok, of None "[]" "[114, 98, 0]"]
    by (simp add: demo_base_name) blast
  obtain h1 where h1: "malloc demo_heap 3 = Inr (0xffff800000008030, h1)" using demo_malloc [of 3] by auto
  have "(demo_heap\<lparr>h_phys := demo_heap_pm\<rparr>) = demo_heap" by (simp add: demo_heap_def)
  then have m: "on_heap (\<lambda>h. malloc h 3) ((demo_loader v)\<lparr>l_vfs := v3\<rparr>) = Inr (0xffff800000008030,
      (demo_loader v)\<lparr>l_vfs := v3, l_heap := h1, l_sched := (demo_sched\<lparr>s_phys := h_phys h1\<rparr>)\<rparr>)"
    using h1 by (simp add: on_heap_def demo_loader_def)
  obtain L1 where L1: "read_file [47, 97, 0] (demo_loader v) = Inr ((0, 0xffff800000008030 - hhdm h1), L1)"
    "ram (s_phys (l_sched L1)) = store_bytes (ram (h_phys h1)) (0xffff800000008030 - hhdm h1) [1, 2, 3]"
    using v m by (simp add: read_file_def Let_def) (simp add: demo_loader_def Let_def)
  have "\<not> elf_magic (ram (s_phys (l_sched L1))) (0xffff800000008030 - hhdm h1)"
    by (simp add: elf_magic_def L1(2) store_bytes_apply)
  then show ?thesis using v(1) L1(1) by (intro exI [of _ v] exI [of _ L1]) (simp add: LoadAndExecuteElf_def)
qed

section \<open>Properties\<close>

text \<open>C25. Loading a segment. A loadable header whose file bytes fit the pages the loader allocates (as
  many as whole pages fit in \<^verbatim>\<open>p_memsz\<close>, at least one) gets new pages of its own, in which the
  file's bytes are stored, and the page of \<^verbatim>\<open>p_vaddr\<close> is mapped to the first of them. Every other
  virtual page translates as before, so of a segment of several pages only the first is mapped.\<close>

theorem elf_segment_loaded:
  assumes "vm_ok (s_phys s) root" and "deref s t = Inr th" and "rootTable th = root"
    and "m = ram (s_phys s)" and "p_type m ph = 1" and "p_memsz m ph \<noteq> 0"
    and "n = unat (segment_pages (p_memsz m ph))" and "len = unat (p_filesz m ph)"
    and "settled (s_phys s) root ph 56" and "settled (s_phys s) root (hdr + p_offset m ph) len"
    and "len \<le> 4096 * n" and "load_segment hdr ph t s = Inr s'"
  shows "\<exists>seg. page_aligned seg \<and> {page_of seg..<page_of seg + n} \<subseteq> pm_free (s_phys s) \<and>
    pm_free (s_phys s') \<inter> {page_of seg..<page_of seg + n} = {} \<and> vm_ok (s_phys s') root \<and>
    (\<forall>vb. mmu_walk (ram (s_phys s')) root vb =
      (if same_vpage (p_vaddr m ph) vb then Some (seg OR (vb AND 0xFFF)) else mmu_walk m root vb)) \<and>
    (\<forall>k < len. ram (s_phys s') (seg + of_nat k) = m (hdr + p_offset m ph + of_nat k))"
  by (rule load_segment_ok [OF assms])

theorem elf_segment_loaded_witness:
  "\<exists>s' seg. load_segment 0x1000 0x1000 0x10 demo_target = Inr s' \<and>
    mmu_walk (ram (s_phys s')) 0x4000 0x5001 = Some (seg OR 1) \<and>
    mmu_walk (ram (s_phys s')) 0x4000 0x6001 = None \<and> ram (s_phys s') (seg + 1) = 0xCD"
proof -
  obtain s' where s': "load_segment 0x1000 0x1000 0x10 demo_target = Inr s'" using demo_load by blast
  have r: "s_phys demo_target = demo_pm\<lparr>ram := demo_segment\<rparr>" by (simp add: demo_target_def)
  have d: "deref demo_target 0x10 = Inr ((demo_thread True 0)\<lparr>rootTable := 0x4000\<rparr>)"
    by (simp add: deref_def demo_target_def)
  have st: "settled (demo_pm\<lparr>ram := demo_segment\<rparr>) 0x4000 a n" if "page_of a = 1" "n \<le> 256" "unat a mod 4096 \<le> 0x100" for a n
    unfolding settled_def
  proof (intro allI impI)
    fix k assume "k < n"
    then have k: "k < 256" using that(2) by simp
    have a: "unat a = 4096 + unat a mod 4096"
      using that(1) div_mult_mod_eq [of "unat a" 4096] by (simp add: page_of_def)
    have "unat (a + of_nat k) = unat a + k"
      using a k that(3) by (subst unat_add_nowrap) (simp_all add: unat_of_nat)
    then have "page_of (a + of_nat k) = 1" using a k that(3) by (simp add: page_of_def)
    then show "page_of (a + of_nat k) \<notin> pm_free (demo_pm\<lparr>ram := demo_segment\<rparr>) \<union>
        table_pages (ram (demo_pm\<lparr>ram := demo_segment\<rparr>)) 0x4000"
      using demo_target_ok(2) demo_free by simp
  qed
  have fld: "unat (segment_pages (p_memsz demo_segment 0x1000)) = 1" "unat (p_filesz demo_segment 0x1000) = 2"
    by (simp_all add: demo_fields segment_pages_def)
  have "\<exists>seg. page_aligned seg \<and> {page_of seg..<page_of seg + 1} \<subseteq> pm_free (s_phys demo_target) \<and>
    pm_free (s_phys s') \<inter> {page_of seg..<page_of seg + 1} = {} \<and> vm_ok (s_phys s') 0x4000 \<and>
    (\<forall>vb. mmu_walk (ram (s_phys s')) 0x4000 vb =
      (if same_vpage (p_vaddr demo_segment 0x1000) vb then Some (seg OR (vb AND 0xFFF)) else mmu_walk demo_segment 0x4000 vb)) \<and>
    (\<forall>k < 2. ram (s_phys s') (seg + of_nat k) = demo_segment (0x1000 + p_offset demo_segment 0x1000 + of_nat k))"
    by (rule elf_segment_loaded [OF _ d _ _ _ _ _ _ _ _ _ s'])
      (use st demo_target_ok(1) fld in \<open>simp_all add: r demo_fields page_of_def\<close>)
  then obtain seg where sg: "\<And>vb. mmu_walk (ram (s_phys s')) 0x4000 vb =
      (if same_vpage 0x5000 vb then Some (seg OR (vb AND 0xFFF)) else None)"
    "\<And>k. k < 2 \<Longrightarrow> ram (s_phys s') (seg + of_nat k) = demo_segment (0x1100 + of_nat k)"
    unfolding demo_fields demo_target_ok(3) by auto
  have "ram (s_phys s') (seg + 1) = 0xCD" using sg(2) [of 1] by (simp add: demo_segment_def)
  then show ?thesis using s' sg(1) [of "0x5001"] sg(1) [of "0x6001"]
    by (intro exI [of _ s'] exI [of _ seg]) (simp add: same_vpage_nat)
qed



end
