(* ===== verification/Console.thy ===== *)
theory Console
  imports Font
begin

text \<open>
  The console, \<^verbatim>\<open>src/src/drivers/Screen.cpp\<close>: number formatting, the character cell cursor, the
  drawing of glyphs into the framebuffer, \<^verbatim>\<open>printf\<close> and its lock. Everything printed also goes to
  the serial port, whose port writes are recorded in order. The framebuffer is the object of
  \<open>pitch * height\<close> bytes the boot loader describes; a write outside it is \<open>OutOfBounds\<close>. The text
  \<^verbatim>\<open>itoa\<close> and \<^verbatim>\<open>utoa\<close> return is the list of bytes from the pointer to the end of the object it
  points into.
\<close>

section \<open>State\<close>

record framebuffer =
  fb_width :: u64
  fb_height :: u64
  fb_pitch :: u64
  red_mask_shift :: u8
  green_mask_shift :: u8
  blue_mask_shift :: u8

record console =
  ports :: "(u16 \<times> u8) list"
  cursor_x :: i32
  cursor_y :: i32
  pixels :: "u64 \<Rightarrow> u32"
  chosen_fb :: framebuffer
  screen_lock :: i32

definition outb :: "u16 \<Rightarrow> u8 \<Rightarrow> console \<Rightarrow> console" where
  "outb port data c = c\<lparr>ports := ports c @ [(port, data)]\<rparr>"

definition PORT_COM0 :: u16 where "PORT_COM0 = 0x3f8"

section \<open>The serial port\<close>

definition InitCom0 :: "console \<Rightarrow> console" where
  "InitCom0 c = fold (\<lambda>(off, v). outb (PORT_COM0 + off) v)
     [(1, 0x00), (3, 0x80), (0, 0x03), (1, 0x00), (3, 0x03), (2, 0xC7), (4, 0x0B), (4, 0x0F)] c"

definition putc_com0 :: "u8 \<Rightarrow> console \<Rightarrow> console" where
  "putc_com0 ch c = outb PORT_COM0 ch c"

fun puts_com0 :: "u8 list \<Rightarrow> console \<Rightarrow> console result" where
  "puts_com0 [] c = Inl OutOfBounds"
| "puts_com0 (b # s) c = (if b = 0 then Inr c else puts_com0 s (putc_com0 b c))"

section \<open>Numbers\<close>

text \<open>The literal \<^verbatim>\<open>"0123456789abcdef"\<close> with its terminator.\<close>

definition hex_digits :: "u8 list" where
  "hex_digits = [48, 49, 50, 51, 52, 53, 54, 55, 56, 57, 97, 98, 99, 100, 101, 102, 0]"

definition digit_at :: "u64 \<Rightarrow> u8 result" where
  "digit_at i = (if unat i < length hex_digits then Inr (hex_digits ! unat i) else Inl OutOfBounds)"

text \<open>
  The loop both routines have, from position \<open>i\<close> of the buffer down; the result is what it
  stored, in the order of the buffer.
\<close>

fun digits_loop :: "u64 \<Rightarrow> u64 \<Rightarrow> nat \<Rightarrow> u8 list \<Rightarrow> u8 list result" where
  "digits_loop val base 0 acc = Inr acc"
| "digits_loop val base (Suc i) acc =
     (if val = 0 then Inr acc
      else if base = 0 then Inl DivideError
      else bindE (digit_at (val mod base)) (\<lambda>d. digits_loop (val div base) base i (d # acc)))"

text \<open>
  \<^verbatim>\<open>utoa\<close> stores its last digit at position 62 of 64, so the byte after it is the one at 63,
  which is 0 and never written. \<^verbatim>\<open>itoa\<close> stores its last digit at position 63, the end of its buffer.
\<close>

definition utoa :: "u64 \<Rightarrow> u64 \<Rightarrow> u8 list result" where
  "utoa val base =
     (if val = 0 then Inr [48, 0]
      else bindE (digits_loop val base 62 []) (\<lambda>ds. Inr (ds @ [0])))"

definition itoa :: "u64 \<Rightarrow> u64 \<Rightarrow> u8 list result" where
  "itoa val base =
     (if val = 0 then Inr [48, 0]
      else let isNegative = sint val < 0; v = (if isNegative then - val else val)
           in if sint v < 0 then Inl OutOfBounds
              else bindE (digits_loop v base 63 []) (\<lambda>ds.
                   Inr (if isNegative then 45 # ds else ds)))"

section \<open>Pixels and glyphs\<close>

definition PutPixel :: "i32 \<Rightarrow> i32 \<Rightarrow> u8 \<Rightarrow> u8 \<Rightarrow> u8 \<Rightarrow> console \<Rightarrow> console result" where
  "PutPixel x y r g b c =
     (let fb = chosen_fb c;
          color = push_bit (unat (red_mask_shift fb)) (ucast r)
            OR push_bit (unat (green_mask_shift fb)) (ucast g)
            OR push_bit (unat (blue_mask_shift fb)) (ucast b) :: u32;
          fb_index = scast y * (fb_pitch fb div 4) + scast x :: u64
      in if 4 * unat fb_index + 4 \<le> unat (fb_pitch fb) * unat (fb_height fb)
         then Inr (c\<lparr>pixels := (pixels c)(fb_index := color)\<rparr>)
         else Inl OutOfBounds)"

text \<open>The two loops over a glyph: \<open>x\<close> and \<open>y\<close> are \<^verbatim>\<open>screen_x\<close> and \<^verbatim>\<open>screen_y\<close>.\<close>

fun draw_row :: "u8 \<Rightarrow> nat list \<Rightarrow> i32 \<Rightarrow> i32 \<Rightarrow> console \<Rightarrow> console result" where
  "draw_row row [] x y c = Inr c"
| "draw_row row (k # ks) x y c =
     bindE (if bit row k then PutPixel x y 255 255 255 c else PutPixel x y 0 0 0 c)
       (\<lambda>c1. draw_row row ks (x + 1) y c1)"

fun draw_glyph :: "u8 list \<Rightarrow> i32 \<Rightarrow> i32 \<Rightarrow> console \<Rightarrow> console result" where
  "draw_glyph [] x y c = Inr c"
| "draw_glyph (row # rows) x y c =
     bindE (draw_row row [0..<8] x y c) (\<lambda>c1. draw_glyph rows x (y + 1) c1)"

text \<open>The loop that moves the cursor to the next multiple of four.\<close>

function tab_loop :: "i32 \<Rightarrow> i32" where
  "tab_loop x = (if x AND 3 \<noteq> 0 then tab_loop (x + 1) else x)"
  by pat_completeness auto
termination
proof (relation "measure (\<lambda>x. unat (- x AND 3))")
  fix x :: i32
  assume nz: "x AND 3 \<noteq> 0"
  have m: "y AND 3 = y mod 4" for y :: i32
  proof -
    have "(3 :: i32) = mask 2" by (simp add: mask_eq_exp_minus_1)
    then have "y AND 3 = take_bit 2 y" by (simp only: take_bit_eq_mask)
    then show ?thesis by (simp add: take_bit_eq_mod)
  qed
  have u: "unat (y mod 4) = unat y mod 4" for y :: i32 by (simp add: unat_mod)
  have x: "x \<noteq> 0" using nz by auto
  have un: "unat (NOT y) = 4294967295 - unat y" for y :: i32
  proof -
    have "unat y \<le> unat (- 1 :: i32)" using unat_less_u32 [of y] by (simp add: unat_minus_one_word)
    then have "unat (- 1 - y) = unat (- 1 :: i32) - unat y" by (rule unat_sub_nowrap)
    moreover have "NOT y = - 1 - y" by (simp add: not_eq_complement)
    ultimately show ?thesis by (simp only: unat_minus_one_word) simp
  qed
  define n where "n = 4294967295 - unat x"
  have lt: "unat x < 4294967296" by (rule unat_less_u32)
  have "- x = NOT (x - 1)" by (rule minus_eq_not_minus_1)
  then have a: "unat (- x) = Suc n"
    using unat_minus_1_nonzero [OF x] un [of "x - 1"] lt by (simp add: n_def)
  have "- (x + 1) = NOT x" by (simp add: not_eq_complement)
  then have b: "unat (- (x + 1)) = n" using un by (simp only: n_def)
  have "\<not> 4 dvd unat x" using nz u [of x] by (auto simp: m word_unat_eq_iff mod_eq_0_iff_dvd)
  moreover have "unat x = 4294967296 - Suc n" using lt by (simp add: n_def)
  ultimately have "\<not> 4 dvd Suc n" using dvd_diff_nat [of 4 4294967296 "Suc n"] by auto
  then have "Suc n mod 4 \<noteq> 0" by (simp only: dvd_eq_mod_eq_0 not_False_eq_True)
  then have "n mod 4 < Suc n mod 4" by (auto simp: mod_Suc split: if_splits)
  then have "unat (- (x + 1)) mod 4 < unat (- x) mod 4" by (simp only: a b)
  then show "(x + 1, x) \<in> measure (\<lambda>x. unat (- x AND 3))" by (simp add: m u)
qed auto

declare tab_loop.simps [simp del]

definition Console_putc :: "u8 \<Rightarrow> console \<Rightarrow> console result" where
  "Console_putc ch c0 =
     (let c = putc_com0 ch c0
      in if ch = 10 then Inr (c\<lparr>cursor_y := cursor_y c + 1, cursor_x := 0\<rparr>)
         else if ch = 9 then Inr (c\<lparr>cursor_x := tab_loop (cursor_x c + 1)\<rparr>)
         else if sint ch < 0 then Inl OutOfBounds
         else bindE (draw_glyph (font8x8_basic ! unat ch) (cursor_x c * 8) (cursor_y c * 8) c) (\<lambda>c1.
              let c2 = c1\<lparr>cursor_x := cursor_x c1 + 1\<rparr>
              in if scast (cursor_x c2) = fb_width (chosen_fb c2)
                 then Inr (c2\<lparr>cursor_x := 0, cursor_y := cursor_y c2 + 1\<rparr>)
                 else Inr c2))"

section \<open>printf\<close>

fun Console_puts :: "u8 list \<Rightarrow> i32 \<Rightarrow> console \<Rightarrow> (i32 \<times> console) result" where
  "Console_puts [] n c = Inl OutOfBounds"
| "Console_puts (b # s) n c =
     (if b = 0 then Inr (n, c) else bindE (Console_putc b c) (\<lambda>c1. Console_puts s (n + 1) c1))"

text \<open>The variable arguments: 64-bit slots, or pointers to strings.\<close>

datatype va = Slot u64 | Str "u8 list"

fun va_slot :: "va list \<Rightarrow> (u64 \<times> va list) result" where
  "va_slot (Slot v # as) = Inr (v, as)"
| "va_slot _ = Inl OutOfBounds"

fun va_str :: "va list \<Rightarrow> (u8 list \<times> va list) result" where
  "va_str (Str s # as) = Inr (s, as)"
| "va_str _ = Inl OutOfBounds"

definition screen_acquire :: "console \<Rightarrow> console result" where
  "screen_acquire c = (if screen_lock c = 0 then Inr (c\<lparr>screen_lock := 1\<rparr>) else Inl Diverges)"

text \<open>
  One conversion. The default case prints with \<^verbatim>\<open>printf\<close>, which takes the lock, and then halts.
\<close>

definition unknown_specifier :: "u8 list" where
  "unknown_specifier = [85, 110, 107, 110, 111, 119, 110, 32, 102, 111, 114, 109, 97, 116, 32,
     115, 112, 101, 99, 105, 102, 105, 101, 114, 32]"

definition convert :: "u8 \<Rightarrow> va list \<Rightarrow> console \<Rightarrow> (va list \<times> console) result" where
  "convert d as c =
     (if d = 120 then bindE (va_slot as) (\<lambda>(v, as). bindE (utoa v 16) (\<lambda>s.
        bindE (Console_puts s 0 c) (\<lambda>(_, c1). Inr (as, c1))))
      else if d = 115 then bindE (va_str as) (\<lambda>(s, as).
        bindE (Console_puts s 0 c) (\<lambda>(_, c1). Inr (as, c1)))
      else if d = 100 then bindE (va_slot as) (\<lambda>(v, as). bindE (itoa v 10) (\<lambda>s.
        bindE (Console_puts s 0 c) (\<lambda>(_, c1). Inr (as, c1))))
      else if d = 117 then bindE (va_slot as) (\<lambda>(v, as). bindE (utoa (scast (ucast v :: i32)) 10) (\<lambda>s.
        bindE (Console_puts s 0 c) (\<lambda>(_, c1). Inr (as, c1))))
      else if d = 99 then bindE (va_slot as) (\<lambda>(v, as).
        bindE (Console_putc (ucast v) c) (\<lambda>c1. Inr (as, c1)))
      else bindE (screen_acquire c) (\<lambda>c1.
           bindE (Console_puts (unknown_specifier @ [0]) 0 c1) (\<lambda>(_, c2).
           bindE (Console_putc d c2) (\<lambda>c3. bindE (Console_putc 10 c3) (\<lambda>_. Inl Halted)))))"

fun vprintf :: "u8 list \<Rightarrow> va list \<Rightarrow> console \<Rightarrow> console result" where
  "vprintf [] as c = Inl OutOfBounds"
| "vprintf [f] as c = (if f = 0 then Inr c else if f = 37 then Inl OutOfBounds
     else bindE (Console_putc f c) (\<lambda>_. Inl OutOfBounds))"
| "vprintf (f # d # fs) as c =
     (if f = 0 then Inr c
      else if f = 37 then bindE (convert d as c) (\<lambda>(as1, c1). vprintf fs as1 c1)
      else bindE (Console_putc f c) (\<lambda>c1. vprintf (d # fs) as c1))"

definition Console_printf :: "u8 list \<Rightarrow> va list \<Rightarrow> console \<Rightarrow> (i32 \<times> console) result" where
  "Console_printf fmt as c =
     bindE (screen_acquire c) (\<lambda>c1.
     bindE (vprintf fmt as c1) (\<lambda>c2. Inr (0, c2\<lparr>screen_lock := 0\<rparr>)))"

text \<open>
  \<^verbatim>\<open>Screen::Initialize\<close>: the boot loader's framebuffers with their addresses and whether each has
  an EDID block. The address is only printed, the pixels are indexed from it.
\<close>

definition c_text :: "string \<Rightarrow> u8 list" where
  "c_text s = map of_char s @ [0]"

fun Screen_Initialize :: "(framebuffer \<times> u64 \<times> bool) list \<Rightarrow> console \<Rightarrow> console result" where
  "Screen_Initialize [] c = Inl OutOfBounds"
| "Screen_Initialize ((fb, address, edid) # _) c =
     (let c1 = c\<lparr>chosen_fb := fb\<rparr>
      in bindE (Console_printf (c_text (''Framebuffer is at 0x%x, %dx%d'' @ [CHR 0x0A]))
                  [Slot address, Slot (fb_width fb), Slot (fb_height fb)] c1) (\<lambda>(_, c2).
         bindE (Console_printf (c_text (''Framebuffer initialized...'' @ replicate 4 (CHR 0x09) @ ''[OK]'' @ [CHR 0x0A]))
                  [] c2) (\<lambda>(_, c3).
         if edid then Inr c3
         else bindE (Console_printf (c_text (''No EDID detected'' @ [CHR 0x0A])) [] c3) (\<lambda>(_, c4). Inr c4))))"

section \<open>Numbers read back\<close>

definition digit_value :: "u8 \<Rightarrow> nat" where
  "digit_value d = (if d < 58 then unat d - 48 else unat d - 87)"

definition digits_value :: "nat \<Rightarrow> u8 list \<Rightarrow> nat" where
  "digits_value base ds = foldl (\<lambda>a d. a * base + digit_value d) 0 ds"

lemma digits_value_snoc: "digits_value base (ds @ [d]) = digits_value base ds * base + digit_value d"
  by (simp add: digits_value_def)

lemma digit_at_ok:
  assumes "unat i < 16"
  shows "\<exists>d. digit_at i = Inr d \<and> d \<noteq> 0 \<and> digit_value d = unat i \<and> (d = 48 \<longleftrightarrow> i = 0) \<and> 0 \<le> sint d \<and> d \<noteq> 9 \<and> d \<noteq> 10"
proof -
  have "list_all (\<lambda>n. hex_digits ! n \<noteq> 0 \<and> digit_value (hex_digits ! n) = n \<and> (hex_digits ! n = 48 \<longleftrightarrow> n = 0) \<and>
      0 \<le> sint (hex_digits ! n) \<and> hex_digits ! n \<noteq> 9 \<and> hex_digits ! n \<noteq> 10) [0..<16]"
    by code_simp
  then have "hex_digits ! unat i \<noteq> 0 \<and> digit_value (hex_digits ! unat i) = unat i \<and> (hex_digits ! unat i = 48 \<longleftrightarrow> unat i = 0) \<and>
      0 \<le> sint (hex_digits ! unat i) \<and> hex_digits ! unat i \<noteq> 9 \<and> hex_digits ! unat i \<noteq> 10"
    using assms by (simp only: list_all_iff set_upt) simp
  then show ?thesis
    using assms by (simp add: digit_at_def unat_eq_zero) (simp add: hex_digits_def)
qed

lemma digits_loop_ok:
  assumes "2 \<le> unat base" "unat base \<le> 16"
  shows "unat val < unat base ^ i \<Longrightarrow> \<exists>ds. digits_loop val base i acc = Inr (ds @ acc) \<and>
    digits_value (unat base) ds = unat val \<and> 0 \<notin> set ds \<and>
    (\<forall>d \<in> set ds. digit_value d < unat base) \<and> (val \<noteq> 0 \<longrightarrow> ds \<noteq> [] \<and> hd ds \<noteq> 48) \<and> (val = 0 \<longrightarrow> ds = [])"
proof (induction i arbitrary: val acc)
  case 0
  then show ?case by (auto simp: digits_value_def unat_eq_zero intro!: exI [of _ "[]"])
next
  case (Suc i)
  show ?case
  proof (cases "val = 0")
    case True
    then show ?thesis by (auto simp: digits_value_def intro!: exI [of _ "[]"])
  next
    case False
    have b: "base \<noteq> 0" using assms(1) by auto
    have m: "unat (val mod base) = unat val mod unat base" by (simp add: unat_mod)
    have q: "unat (val div base) = unat val div unat base" by (simp add: unat_div)
    have "unat val mod unat base < unat base" using assms(1) by simp
    then have "unat (val mod base) < 16" using assms(2) m by simp
    then obtain d where d: "digit_at (val mod base) = Inr d" "d \<noteq> 0" "digit_value d = unat (val mod base)"
      "d = 48 \<longleftrightarrow> val mod base = 0"
      using digit_at_ok by blast
    have "unat (val div base) < unat base ^ i"
      using Suc.prems assms(1) q by (simp add: less_mult_imp_div_less mult.commute)
    then obtain ds where ds: "digits_loop (val div base) base i (d # acc) = Inr (ds @ d # acc)"
      "digits_value (unat base) ds = unat (val div base)" "0 \<notin> set ds"
      "\<forall>d \<in> set ds. digit_value d < unat base" "val div base \<noteq> 0 \<longrightarrow> ds \<noteq> [] \<and> hd ds \<noteq> 48" "val div base = 0 \<longrightarrow> ds = []"
      using Suc.IH [of "val div base" "d # acc"] by blast
    have z: "val mod base \<noteq> 0" if "val div base = 0"
    proof
      assume "val mod base = 0"
      then have "unat val = 0" using that m q div_mult_mod_eq [of "unat val" "unat base"] by simp
      then show False using False by (simp add: unat_eq_zero)
    qed
    show ?thesis
    proof (intro exI [of _ "ds @ [d]"] conjI)
      show "digits_loop val base (Suc i) acc = Inr ((ds @ [d]) @ acc)" using False b d(1) ds(1) by simp
      show "digits_value (unat base) (ds @ [d]) = unat val" using ds(2) d(3) q m by (simp add: digits_value_snoc)
      show "0 \<notin> set (ds @ [d])" using ds(3) d(2) by simp
      show "\<forall>d \<in> set (ds @ [d]). digit_value d < unat base" using ds(4) d(3) m assms(1) by simp
      show "val \<noteq> 0 \<longrightarrow> ds @ [d] \<noteq> [] \<and> hd (ds @ [d]) \<noteq> 48"
        using ds(5,6) d(4) z by (cases "val div base = 0"; cases ds) auto
      show "val = 0 \<longrightarrow> ds @ [d] = []" using False by simp
    qed
  qed
qed

lemma base_power: "3 \<le> (b :: nat) \<Longrightarrow> unat (v :: u64) < b ^ 62"
proof -
  assume "3 \<le> b"
  then have "(3 :: nat) ^ 62 \<le> b ^ 62" by (rule power_mono) simp
  moreover have "(18446744073709551616 :: nat) < 3 ^ 62" by simp
  ultimately show ?thesis using unat_less_u64 [of v] by linarith
qed

lemma utoa_ok:
  assumes "3 \<le> unat base" "unat base \<le> 16"
  shows "\<exists>ds. utoa v base = Inr (ds @ [0]) \<and> digits_value (unat base) ds = unat v \<and> 0 \<notin> set ds \<and>
    (\<forall>d \<in> set ds. digit_value d < unat base) \<and> (v \<noteq> 0 \<longrightarrow> ds \<noteq> [] \<and> hd ds \<noteq> 48)"
proof (cases "v = 0")
  case True
  then show ?thesis
    using assms by (auto simp: utoa_def digits_value_def digit_value_def intro!: exI [of _ "[48]"])
next
  case False
  then show ?thesis
    using digits_loop_ok [OF _ assms(2) base_power [OF assms(1), of v], of "[]"] assms(1)
    by (auto simp: utoa_def)
qed

lemma itoa_cases:
  assumes "v \<noteq> 0" "3 \<le> unat base" "unat base \<le> 16"
  shows "itoa v base = Inl OutOfBounds \<or> (\<exists>ds. itoa v base = Inr ds \<and> 0 \<notin> set ds)"
proof -
  let ?v = "if sint v < 0 then - v else v"
  obtain ds where "digits_loop ?v base 63 [] = Inr ds" "0 \<notin> set ds"
  proof -
    have "unat ?v < unat base ^ 62" by (rule base_power [OF assms(2)])
    also have "\<dots> \<le> unat base ^ 63" by (rule power_increasing) (use assms(2) in simp_all)
    finally show ?thesis using digits_loop_ok [of base ?v 63 "[]"] assms(2,3) that by auto
  qed
  then show ?thesis using assms(1) by (auto simp: itoa_def Let_def)
qed

section \<open>Printing fails in one way\<close>

lemma PutPixel_error: "PutPixel x y r g b c = Inl e \<Longrightarrow> e = OutOfBounds"
  by (auto simp: PutPixel_def Let_def split: if_splits)

lemma draw_row_error: "draw_row row ks x y c = Inl e \<Longrightarrow> e = OutOfBounds"
  by (induction row ks x y c rule: draw_row.induct) (auto simp: bindE_eq_Inl dest: PutPixel_error split: if_splits)

lemma draw_glyph_error: "draw_glyph rows x y c = Inl e \<Longrightarrow> e = OutOfBounds"
  by (induction rows x y c rule: draw_glyph.induct) (auto simp: bindE_eq_Inl dest: draw_row_error)

lemma putc_error: "Console_putc ch c = Inl e \<Longrightarrow> e = OutOfBounds"
  by (auto simp: Console_putc_def Let_def bindE_eq_Inl dest: draw_glyph_error split: if_splits)

lemma puts_unterminated: "0 \<notin> set s \<Longrightarrow> Console_puts s n c = Inl OutOfBounds"
proof (induction s n c rule: Console_puts.induct)
  case (2 b s n c)
  then show ?case by (cases "Console_putc b c") (auto dest: putc_error)
qed simp

lemma convert_d:
  assumes "v \<noteq> 0"
  shows "convert 100 (Slot v # as) c = Inl OutOfBounds"
  using itoa_cases [OF assms, of 10] puts_unterminated by (auto simp: convert_def)

section \<open>Where a glyph goes\<close>

text \<open>The index of the pixel in column \<open>x\<close> and line \<open>y\<close>, and the two colours.\<close>

definition pixel_at :: "framebuffer \<Rightarrow> nat \<Rightarrow> nat \<Rightarrow> nat" where
  "pixel_at fb x y = y * (unat (fb_pitch fb) div 4) + x"

definition shade :: "framebuffer \<Rightarrow> bool \<Rightarrow> u32" where
  "shade fb on = (let v = (if on then 255 else 0 :: u8)
     in push_bit (unat (red_mask_shift fb)) (ucast v) OR push_bit (unat (green_mask_shift fb)) (ucast v)
        OR push_bit (unat (blue_mask_shift fb)) (ucast v))"

text \<open>A point of the screen, on a framebuffer whose lines hold whole pixels.\<close>

definition on_screen :: "framebuffer \<Rightarrow> nat \<Rightarrow> nat \<Rightarrow> bool" where
  "on_screen fb x y \<longleftrightarrow> x < unat (fb_pitch fb) div 4 \<and> y < unat (fb_height fb) \<and>
     unat (fb_pitch fb) mod 4 = 0 \<and> unat (fb_pitch fb) < 2 ^ 31 \<and> unat (fb_height fb) < 2 ^ 31"

lemma scast_nat:
  assumes "n < 2 ^ 31"
  shows "(scast (of_nat n :: i32) :: u64) = of_nat n"
proof -
  have u: "unat (of_nat n :: i32) = n" using assms by (simp add: unat_of_nat)
  then have "unat (scast (of_nat n :: i32) :: u64) = n" using unat_scast_up [of "of_nat n"] assms by simp
  then show ?thesis using assms by (simp add: word_unat_eq_iff unat_of_nat)
qed

lemma pixel_bound:
  assumes "on_screen fb x y"
  shows "4 * pixel_at fb x y + 4 \<le> unat (fb_pitch fb) * unat (fb_height fb)" "pixel_at fb x y < 2 ^ 60"
proof -
  define P where "P = unat (fb_pitch fb) div 4"
  have p: "unat (fb_pitch fb) = 4 * P" using assms by (auto simp: on_screen_def P_def)
  have "y * P + x + 1 \<le> Suc y * P" using assms by (simp add: on_screen_def P_def)
  also have "\<dots> \<le> unat (fb_height fb) * P" using assms by (intro mult_le_mono1) (simp add: on_screen_def)
  finally have b: "pixel_at fb x y + 1 \<le> P * unat (fb_height fb)" by (simp add: pixel_at_def P_def mult.commute)
  then show "4 * pixel_at fb x y + 4 \<le> unat (fb_pitch fb) * unat (fb_height fb)" using p by simp
  have "P * unat (fb_height fb) \<le> 2 ^ 29 * 2 ^ 31" using assms p by (intro mult_le_mono) (simp_all add: on_screen_def)
  then show "pixel_at fb x y < 2 ^ 60" using b by simp
qed

lemma PutPixel_on_screen:
  assumes "on_screen (chosen_fb c) x y"
  shows "(if on then PutPixel (of_nat x) (of_nat y) 255 255 255 c else PutPixel (of_nat x) (of_nat y) 0 0 0 c) =
    Inr (c\<lparr>pixels := (pixels c)(of_nat (pixel_at (chosen_fb c) x y) := shade (chosen_fb c) on)\<rparr>)"
proof -
  let ?fb = "chosen_fb c"
  have lt: "x < 2 ^ 31" "y < 2 ^ 31" using assms by (auto simp: on_screen_def)
  have "fb_pitch ?fb div 4 = of_nat (unat (fb_pitch ?fb) div 4)"
    using le_less_trans [OF div_le_dividend unat_less_u64 [of "fb_pitch ?fb"], of 4]
    by (simp add: word_unat_eq_iff unat_div unat_of_nat)
  then have i: "scast (of_nat y :: i32) * (fb_pitch ?fb div 4) + scast (of_nat x :: i32) = (of_nat (pixel_at ?fb x y) :: u64)"
    using lt by (simp only: scast_nat pixel_at_def of_nat_add of_nat_mult)
  have u: "unat (of_nat (pixel_at ?fb x y) :: u64) = pixel_at ?fb x y"
    using pixel_bound(2) [OF assms] by (simp add: unat_of_nat)
  show ?thesis
    unfolding PutPixel_def Let_def i u using pixel_bound(1) [OF assms] by (simp add: shade_def)
qed

text \<open>What painting some of the pixels \<open>(x + k, y)\<close>, \<open>k\<close> in \<open>K\<close>, leaves at the index \<open>i\<close>.\<close>

lemma draw_row_on_screen:
  assumes "\<forall>k. j \<le> k \<longrightarrow> k < j + m \<longrightarrow> on_screen (chosen_fb c) (x + k) y"
  shows "\<exists>px. draw_row row [j..<j + m] (of_nat (x + j)) (of_nat y) c = Inr (c\<lparr>pixels := px\<rparr>) \<and>
    (\<forall>k. j \<le> k \<longrightarrow> k < j + m \<longrightarrow> px (of_nat (pixel_at (chosen_fb c) (x + k) y)) = shade (chosen_fb c) (bit row k)) \<and>
    (\<forall>i. (\<forall>k. j \<le> k \<longrightarrow> k < j + m \<longrightarrow> i \<noteq> of_nat (pixel_at (chosen_fb c) (x + k) y)) \<longrightarrow> px i = pixels c i)"
  using assms
proof (induction m arbitrary: j c)
  case 0
  then show ?case by (intro exI [of _ "pixels c"]) simp
next
  case (Suc m)
  let ?fb = "chosen_fb c" and ?i = "of_nat (pixel_at (chosen_fb c) (x + j) y) :: u64"
  let ?c1 = "c\<lparr>pixels := (pixels c)(?i := shade ?fb (bit row j))\<rparr>"
  have up: "[j..<j + Suc m] = j # [Suc j..<Suc j + m]" by (simp add: upt_conv_Cons del: upt_Suc)
  have p: "(if bit row j then PutPixel (of_nat (x + j)) (of_nat y) 255 255 255 c
      else PutPixel (of_nat (x + j)) (of_nat y) 0 0 0 c) = Inr ?c1"
    using PutPixel_on_screen [of c "x + j" y "bit row j"] Suc.prems by simp
  obtain px where px: "draw_row row [Suc j..<Suc j + m] (of_nat (x + Suc j)) (of_nat y) ?c1 = Inr (?c1\<lparr>pixels := px\<rparr>)"
    "\<forall>k. Suc j \<le> k \<longrightarrow> k < Suc j + m \<longrightarrow> px (of_nat (pixel_at ?fb (x + k) y)) = shade ?fb (bit row k)"
    "\<forall>i. (\<forall>k. Suc j \<le> k \<longrightarrow> k < Suc j + m \<longrightarrow> i \<noteq> of_nat (pixel_at ?fb (x + k) y)) \<longrightarrow> px i = pixels ?c1 i"
    using Suc.IH [of "Suc j" ?c1] Suc.prems by auto
  have inj: "?i \<noteq> of_nat (pixel_at ?fb (x + k) y)" if "Suc j \<le> k" "k < Suc j + m" for k
  proof -
    have "on_screen ?fb (x + j) y" "on_screen ?fb (x + k) y" using Suc.prems that by simp_all
    note pixel_bound(2) [OF this(1)] pixel_bound(2) [OF this(2)]
    moreover have "pixel_at ?fb (x + j) y \<noteq> pixel_at ?fb (x + k) y" using that by (simp add: pixel_at_def)
    ultimately show ?thesis by (simp add: word_unat_eq_iff unat_of_nat)
  qed
  have "draw_row row [j..<j + Suc m] (of_nat (x + j)) (of_nat y) c = Inr (c\<lparr>pixels := px\<rparr>)"
    unfolding up draw_row.simps p bindE_simps using px(1) by (simp add: add.commute add.left_commute)
  moreover have "px (of_nat (pixel_at ?fb (x + k) y)) = shade ?fb (bit row k)" if "j \<le> k" "k < j + Suc m" for k
  proof (cases "k = j")
    case True
    then show ?thesis using px(3) inj by auto
  next
    case False
    then show ?thesis using px(2) that by simp
  qed
  moreover have "px i = pixels c i" if "\<forall>k. j \<le> k \<longrightarrow> k < j + Suc m \<longrightarrow> i \<noteq> of_nat (pixel_at ?fb (x + k) y)" for i
    using px(3) that by auto
  ultimately show ?case by blast
qed

lemma pixel_at_inj:
  assumes "on_screen fb x y" "on_screen fb x' y'"
    and "(of_nat (pixel_at fb x y) :: u64) = of_nat (pixel_at fb x' y')"
  shows "x = x' \<and> y = y'"
proof -
  define P where "P = unat (fb_pitch fb) div 4"
  have x: "x < P" "x' < P" using assms by (simp_all add: on_screen_def P_def)
  have "pixel_at fb x y = pixel_at fb x' y'"
    using assms(3) pixel_bound(2) [OF assms(1)] pixel_bound(2) [OF assms(2)]
    by (simp add: word_unat_eq_iff unat_of_nat)
  then have e: "y * P + x = y' * P + x'" by (simp add: pixel_at_def P_def)
  then have "(y * P + x) div P = (y' * P + x') div P" by simp
  then have "y = y'" using x by simp
  then show ?thesis using e by simp
qed

lemma draw_glyph_on_screen:
  assumes "\<forall>r k. r < length rows \<longrightarrow> k < 8 \<longrightarrow> on_screen (chosen_fb c) (x + k) (y + r)"
  shows "\<exists>px. draw_glyph rows (of_nat x) (of_nat y) c = Inr (c\<lparr>pixels := px\<rparr>) \<and>
    (\<forall>r k. r < length rows \<longrightarrow> k < 8 \<longrightarrow>
       px (of_nat (pixel_at (chosen_fb c) (x + k) (y + r))) = shade (chosen_fb c) (bit (rows ! r) k)) \<and>
    (\<forall>i. (\<forall>r k. r < length rows \<longrightarrow> k < 8 \<longrightarrow> i \<noteq> of_nat (pixel_at (chosen_fb c) (x + k) (y + r))) \<longrightarrow>
       px i = pixels c i)"
  using assms
proof (induction rows arbitrary: y c)
  case Nil
  then show ?case by (intro exI [of _ "pixels c"]) simp
next
  case (Cons row rows)
  let ?fb = "chosen_fb c"
  have first: "on_screen ?fb (x + k) y" if "k < 8" for k using Cons.prems [rule_format, of 0 k] that by simp
  have rest: "\<forall>r k. r < length rows \<longrightarrow> k < 8 \<longrightarrow> on_screen ?fb (x + k) (Suc y + r)"
  proof (intro allI impI)
    fix r k assume "r < length rows" "k < (8 :: nat)"
    then show "on_screen ?fb (x + k) (Suc y + r)" using Cons.prems [rule_format, of "Suc r" k] by simp
  qed
  have o1: "\<forall>k. 0 \<le> k \<longrightarrow> k < 0 + 8 \<longrightarrow> on_screen ?fb (x + k) y" using first by simp
  from draw_row_on_screen [of 0 8 c x y row, OF o1]
  obtain p1 where r: "draw_row row [0..<0 + 8] (of_nat (x + 0)) (of_nat y) c = Inr (c\<lparr>pixels := p1\<rparr>)"
    and r2: "\<forall>k. 0 \<le> k \<longrightarrow> k < 0 + 8 \<longrightarrow> p1 (of_nat (pixel_at ?fb (x + k) y)) = shade ?fb (bit row k)"
    and r3: "\<forall>i. (\<forall>k. 0 \<le> k \<longrightarrow> k < 0 + 8 \<longrightarrow> i \<noteq> of_nat (pixel_at ?fb (x + k) y)) \<longrightarrow> p1 i = pixels c i"
    by (elim exE conjE)
  have p1: "draw_row row [0..<8] (of_nat x) (of_nat y) c = Inr (c\<lparr>pixels := p1\<rparr>)"
    using r unfolding add_0 add_0_right .
  have p2: "p1 (of_nat (pixel_at ?fb (x + k) y)) = shade ?fb (bit row k)" if "k < 8" for k
    using r2 that by simp
  have p3: "p1 i = pixels c i" if "\<And>k. k < 8 \<Longrightarrow> i \<noteq> of_nat (pixel_at ?fb (x + k) y)" for i
    using r3 that by simp
  let ?c1 = "c\<lparr>pixels := p1\<rparr>"
  have fb1: "chosen_fb ?c1 = ?fb" by simp
  from Cons.IH [of ?c1 "Suc y", unfolded fb1, OF rest]
  obtain px where q: "draw_glyph rows (of_nat x) (of_nat (Suc y)) ?c1 = Inr (?c1\<lparr>pixels := px\<rparr>)"
    and q2: "\<forall>r k. r < length rows \<longrightarrow> k < 8 \<longrightarrow> px (of_nat (pixel_at ?fb (x + k) (Suc y + r))) = shade ?fb (bit (rows ! r) k)"
    and q3: "\<forall>i. (\<forall>r k. r < length rows \<longrightarrow> k < 8 \<longrightarrow> i \<noteq> of_nat (pixel_at ?fb (x + k) (Suc y + r))) \<longrightarrow> px i = pixels ?c1 i"
    by (elim exE conjE)
  have px3: "px i = p1 i"
    if "\<And>r k. r < length rows \<Longrightarrow> k < 8 \<Longrightarrow> i \<noteq> of_nat (pixel_at ?fb (x + k) (Suc y + r))" for i
    using q3 that by simp
  have "draw_glyph (row # rows) (of_nat x) (of_nat y) c = Inr (c\<lparr>pixels := px\<rparr>)"
    using p1 q by (simp add: add.commute)
  moreover have "px (of_nat (pixel_at ?fb (x + k) (y + r))) = shade ?fb (bit ((row # rows) ! r) k)"
    if "r < length (row # rows)" "k < 8" for r k
  proof (cases r)
    case 0
    have "px (of_nat (pixel_at ?fb (x + k) y)) = p1 (of_nat (pixel_at ?fb (x + k) y))"
    proof (rule px3, rule notI)
      fix r' k' assume "r' < length rows" "k' < 8"
        and e: "(of_nat (pixel_at ?fb (x + k) y) :: u64) = of_nat (pixel_at ?fb (x + k') (Suc y + r'))"
      from pixel_at_inj [OF first [OF that(2)] rest [rule_format, OF this(1,2)] e] show False by simp
    qed
    then show ?thesis using p2 that(2) 0 by simp
  next
    case (Suc j)
    then show ?thesis using q2 [rule_format, of j k] that by simp
  qed
  moreover have "px i = pixels c i"
    if *: "\<forall>r k. r < length (row # rows) \<longrightarrow> k < 8 \<longrightarrow> i \<noteq> of_nat (pixel_at ?fb (x + k) (y + r))" for i
  proof -
    have "i \<noteq> of_nat (pixel_at ?fb (x + k) (Suc y + r))" if "r < length rows" "k < 8" for r k
      using *[rule_format, of "Suc r" k] that by simp
    then have "px i = p1 i" by (rule px3)
    moreover have "i \<noteq> of_nat (pixel_at ?fb (x + k) y)" if "k < 8" for k
      using *[rule_format, of 0 k] that by simp
    then have "p1 i = pixels c i" by (rule p3)
    ultimately show ?thesis by simp
  qed
  ultimately show ?case by (intro exI [of _ px] conjI allI impI)
qed

lemma glyph_rows: "g \<in> set font8x8_basic \<Longrightarrow> length g = 8"
proof -
  have "list_all (\<lambda>g. length g = 8) font8x8_basic" by (simp add: font8x8_basic_def)
  then show "g \<in> set font8x8_basic \<Longrightarrow> length g = 8" by (simp only: list_all_iff)
qed

lemma not_sint_neg: "unat (ch :: u8) < 128 \<Longrightarrow> \<not> sint ch < 0"
proof -
  assume "unat ch < 128"
  then have "int (unat ch) < int 128" by (simp only: of_nat_less_iff)
  then have "int (unat ch) < 128" by (simp only: of_nat_numeral)
  then have w: "0 \<le> uint ch" "uint ch < 128" by (simp_all only: uint_nat [symmetric] uint_ge_0)
  have "sint ch = uint ch"
    unfolding sint_uint using w order_trans [OF _ w(1), of "- 128"]
    by (intro signed_take_bit_int_eq_self) simp_all
  then show ?thesis using w by simp
qed

lemma putc_on_screen:
  assumes ch: "unat ch < 128" "ch \<noteq> 9" "ch \<noteq> 10" and X: "cursor_x c = of_nat X" "cursor_y c = of_nat Y"
    and on: "on_screen (chosen_fb c) (8 * X + 7) (8 * Y + 7)"
  shows "\<exists>px. Console_putc ch c = Inr (c\<lparr>ports := ports c @ [(PORT_COM0, ch)], pixels := px,
      cursor_x := (if Suc X = unat (fb_width (chosen_fb c)) then 0 else of_nat (Suc X)),
      cursor_y := (if Suc X = unat (fb_width (chosen_fb c)) then of_nat (Suc Y) else of_nat Y)\<rparr>) \<and>
    (\<forall>r k. r < 8 \<longrightarrow> k < 8 \<longrightarrow> px (of_nat (pixel_at (chosen_fb c) (8 * X + k) (8 * Y + r)))
       = shade (chosen_fb c) (bit (font8x8_basic ! unat ch ! r) k)) \<and>
    (\<forall>i. (\<forall>r k. r < 8 \<longrightarrow> k < 8 \<longrightarrow> i \<noteq> of_nat (pixel_at (chosen_fb c) (8 * X + k) (8 * Y + r))) \<longrightarrow>
       px i = pixels c i)"
proof -
  let ?g = "font8x8_basic ! unat ch" and ?c = "putc_com0 ch c"
  have len: "length ?g = 8" using glyph_rows nth_mem [of "unat ch" font8x8_basic] ch(1) font_size by simp
  have fb: "chosen_fb ?c = chosen_fb c" by (simp add: putc_com0_def outb_def)
  have s: "\<not> sint ch < 0" using ch(1) by (rule not_sint_neg)
  have on': "\<forall>r k. r < length ?g \<longrightarrow> k < 8 \<longrightarrow> on_screen (chosen_fb ?c) (8 * X + k) (8 * Y + r)"
    using on len by (simp add: on_screen_def fb)
  note g = draw_glyph_on_screen [of ?g ?c "8 * X" "8 * Y", OF on']
  from g [unfolded len fb]
  obtain px where d: "draw_glyph ?g (of_nat (8 * X)) (of_nat (8 * Y)) ?c = Inr (?c\<lparr>pixels := px\<rparr>)"
    and d2: "\<forall>r k. r < 8 \<longrightarrow> k < 8 \<longrightarrow> px (of_nat (pixel_at (chosen_fb c) (8 * X + k) (8 * Y + r)))
       = shade (chosen_fb c) (bit (?g ! r) k)"
    and d3: "\<forall>i. (\<forall>r k. r < 8 \<longrightarrow> k < 8 \<longrightarrow> i \<noteq> of_nat (pixel_at (chosen_fb c) (8 * X + k) (8 * Y + r))) \<longrightarrow> px i = pixels ?c i"
    by (elim exE conjE)
  have X31: "Suc X < 2 ^ 31"
  proof -
    have "8 * X + 7 < unat (fb_pitch (chosen_fb c)) div 4" "unat (fb_pitch (chosen_fb c)) < 2 ^ 31"
      using on by (simp_all only: on_screen_def)
    then show ?thesis by simp
  qed
  have suc: "of_nat X + 1 = (of_nat (Suc X) :: i32)" "of_nat Y + 1 = (of_nat (Suc Y) :: i32)" by simp_all
  have w: "(scast (of_nat (Suc X) :: i32) :: u64) = fb_width (chosen_fb c) \<longleftrightarrow> Suc X = unat (fb_width (chosen_fb c))"
    using X31 unfolding scast_nat [OF X31] by (simp add: word_unat_eq_iff unat_of_nat del: of_nat_Suc)
  have cx: "cursor_x ?c * 8 = of_nat (8 * X)" "cursor_y ?c * 8 = of_nat (8 * Y)"
    using X by (simp_all add: putc_com0_def outb_def)
  have p: "Console_putc ch c = Inr (c\<lparr>ports := ports c @ [(PORT_COM0, ch)], pixels := px,
      cursor_x := (if Suc X = unat (fb_width (chosen_fb c)) then 0 else of_nat (Suc X)),
      cursor_y := (if Suc X = unat (fb_width (chosen_fb c)) then of_nat (Suc Y) else of_nat Y)\<rparr>)"
    unfolding Console_putc_def Let_def cx d if_not_P [OF ch(2)] if_not_P [OF ch(3)] if_not_P [OF s] bindE_simps
    by (simp add: putc_com0_def outb_def X suc w del: of_nat_Suc)
  have f: "pixels ?c = pixels c" by (simp add: putc_com0_def outb_def)
  show ?thesis by (rule exI [of _ px]) (rule conjI [OF p conjI [OF d2 d3 [unfolded f]]])
qed

section \<open>Properties\<close>

lemma unknown_cell: "0 \<notin> set unknown_specifier" by (simp add: unknown_specifier_def)

text \<open>The text \<^verbatim>\<open>utoa\<close> returns for a base from 3 to 16 is a string of digits of that base, without
  an early terminator and without a leading zero, that reads back as the number.
\<close>

theorem utoa_digits:
  assumes "3 \<le> unat base" "unat base \<le> 16"
  shows "\<exists>ds. utoa v base = Inr (ds @ [0]) \<and> digits_value (unat base) ds = unat v \<and> 0 \<notin> set ds \<and>
    list_all (\<lambda>d. digit_value d < unat base) ds \<and> (v = 0 \<and> ds = [48] \<or> ds \<noteq> [] \<and> hd ds \<noteq> 48)"
proof (cases "v = 0")
  case True
  then show ?thesis
    using assms by (auto simp: utoa_def digits_value_def digit_value_def intro!: exI [of _ "[48]"])
next
  case False
  then show ?thesis using utoa_ok [OF assms, of v] by (simp only: list_all_iff) blast
qed

theorem utoa_digits_witness:
  "\<exists>ds. utoa 48879 16 = Inr (ds @ [0]) \<and> digits_value 16 ds = 48879"
  using utoa_digits [of 16 48879] by auto

text \<open>C27. A printable character is sent to the serial port and its glyph drawn in the cell of the
  cursor, white where the font's bit is set and black elsewhere; no other pixel changes, and the
  cursor moves one cell to the right, to the next line only when the cell's number reaches the
  width of the screen in pixels.
\<close>

theorem glyph_drawn:
  assumes "unat ch < 128" "ch \<noteq> 9" "ch \<noteq> 10" "cursor_x c = of_nat X" "cursor_y c = of_nat Y"
    and "on_screen (chosen_fb c) (8 * X + 7) (8 * Y + 7)"
  shows "\<exists>px. Console_putc ch c = Inr (c\<lparr>ports := ports c @ [(PORT_COM0, ch)], pixels := px,
      cursor_x := (if Suc X = unat (fb_width (chosen_fb c)) then 0 else of_nat (Suc X)),
      cursor_y := (if Suc X = unat (fb_width (chosen_fb c)) then of_nat (Suc Y) else of_nat Y)\<rparr>) \<and>
    (\<forall>r k. r < 8 \<longrightarrow> k < 8 \<longrightarrow> px (of_nat (pixel_at (chosen_fb c) (8 * X + k) (8 * Y + r)))
       = shade (chosen_fb c) (bit (font8x8_basic ! unat ch ! r) k)) \<and>
    (\<forall>i. (\<forall>r k. r < 8 \<longrightarrow> k < 8 \<longrightarrow> i \<noteq> of_nat (pixel_at (chosen_fb c) (8 * X + k) (8 * Y + r))) \<longrightarrow>
       px i = pixels c i)"
  by (rule putc_on_screen [OF assms])

definition demo_console :: console where
  "demo_console = \<lparr>ports = [], cursor_x = 2, cursor_y = 1, pixels = \<lambda>_. 0,
     chosen_fb = \<lparr>fb_width = 64, fb_height = 32, fb_pitch = 256, red_mask_shift = 16,
       green_mask_shift = 8, blue_mask_shift = 0\<rparr>, screen_lock = 0\<rparr>"

theorem glyph_drawn_witness:
  "\<exists>px. Console_putc 65 demo_console = Inr (demo_console\<lparr>ports := [(PORT_COM0, 65)], pixels := px,
      cursor_x := 3, cursor_y := 1\<rparr>) \<and>
    px (of_nat (8 * 64 + 18)) = 0xFFFFFF \<and> px (of_nat (8 * 64 + 23)) = 0 \<and> px 0 = 0"
proof -
  let ?c = demo_console
  have fb: "on_screen (chosen_fb ?c) (8 * 2 + 7) (8 * 1 + 7)" "cursor_x ?c = of_nat 2" "cursor_y ?c = of_nat 1"
    by (simp_all add: demo_console_def on_screen_def)
  have n: "unat (65 :: u8) < 128" "(65 :: u8) \<noteq> 9" "(65 :: u8) \<noteq> 10" by simp_all
  obtain px where p: "Console_putc 65 ?c = Inr (?c\<lparr>ports := ports ?c @ [(PORT_COM0, 65)], pixels := px,
      cursor_x := (if Suc 2 = unat (fb_width (chosen_fb ?c)) then 0 else of_nat (Suc 2)),
      cursor_y := (if Suc 2 = unat (fb_width (chosen_fb ?c)) then of_nat (Suc 1) else of_nat 1)\<rparr>)"
    and d: "\<forall>r k. r < 8 \<longrightarrow> k < 8 \<longrightarrow> px (of_nat (pixel_at (chosen_fb ?c) (8 * 2 + k) (8 * 1 + r)))
       = shade (chosen_fb ?c) (bit (font8x8_basic ! unat (65 :: u8) ! r) k)"
    and o: "\<forall>i. (\<forall>r k. r < 8 \<longrightarrow> k < 8 \<longrightarrow> i \<noteq> of_nat (pixel_at (chosen_fb ?c) (8 * 2 + k) (8 * 1 + r))) \<longrightarrow>
       px i = pixels ?c i"
    using glyph_drawn [OF n fb(2,3,1)] by (elim exE conjE)
  have b: "bit (font8x8_basic ! 65 ! 0) 2" "\<not> bit (font8x8_basic ! 65 ! 0) 7" by code_simp+
  have a: "px (of_nat (8 * 64 + 18)) = 0xFFFFFF" "px (of_nat (8 * 64 + 23)) = 0"
    using spec [OF spec [OF d, of 0], of 2] spec [OF spec [OF d, of 0], of 7] b
    by (simp_all add: pixel_at_def shade_def demo_console_def push_bit_eq_mult)
  moreover have "px 0 = 0"
  proof -
    have "(0 :: u64) \<noteq> of_nat (pixel_at (chosen_fb ?c) (8 * 2 + k) (8 * 1 + r))" if "r < 8" "k < 8" for r k
    proof -
      have "(8 + r) * 64 + (16 + k) < 2 ^ 64" "0 < (8 + r) * 64 + (16 + k)" using that by simp_all
      then show ?thesis
        by (simp add: pixel_at_def demo_console_def word_unat_eq_iff unat_of_nat del: of_nat_add of_nat_mult)
    qed
    then show ?thesis using spec [OF o, of 0] by (simp add: demo_console_def)
  qed
  ultimately show ?thesis using p by (intro exI [of _ px]) (simp add: demo_console_def)
qed

text \<open>\<^verbatim>\<open>printf("%d", v)\<close> of a number other than 0 never returns normally: the text \<^verbatim>\<open>itoa\<close> hands out
  ends at the end of its buffer, so \<^verbatim>\<open>puts\<close> reads past it (and with the lock already held the call
  spins before that).
\<close>

theorem printf_d_unterminated:
  assumes "v \<noteq> 0"
  shows "Console_printf (37 # 100 # fs) (Slot v # as) c = (if screen_lock c = 0 then Inl OutOfBounds else Inl Diverges)"
  using assms by (cases fs) (simp_all add: Console_printf_def screen_acquire_def convert_d)

theorem printf_d_unterminated_witness: "Console_printf [37, 100, 0] [Slot 42] demo_console = Inl OutOfBounds"
  using printf_d_unterminated [of 42 "[0]" "[]" demo_console] by (simp add: demo_console_def)

text \<open>
  \<^verbatim>\<open>printf\<close> of a format that starts with an unknown conversion deadlocks: its message is itself printed with
  \<^verbatim>\<open>printf\<close>, whose first step is to take the lock the outer call holds.
\<close>

theorem printf_unknown_deadlocks:
  assumes "d \<notin> {120, 115, 100, 117, 99}"
  shows "Console_printf (37 # d # fs) as c = Inl Diverges"
  using assms by (cases fs) (auto simp: Console_printf_def screen_acquire_def convert_def)

theorem printf_unknown_deadlocks_witness: "Console_printf [37, 48, 56, 120, 0] [Slot 42] demo_console = Inl Diverges"
  using printf_unknown_deadlocks [of 48] by simp

end
