(* ===== verification/Gdt.thy ===== *)
theory Gdt
  imports Sched
begin

text \<open>
  The segment descriptors and the task state segments, \<^verbatim>\<open>src/src/cpu/gdt.cpp\<close> with the structures of
  \<^verbatim>\<open>src/src/include/cpu/gdt.h\<close> and \<^verbatim>\<open>LoadGdt\<close> of \<^verbatim>\<open>src/src/cpu/gdt_asm.asm\<close>. The addresses of the static
  objects \<^verbatim>\<open>gdt\<close> and \<^verbatim>\<open>tss\<close> and the direct map's offset are arguments. The second half reads the table
  the way the processor does: from the 64-bit words the packed structures lay out, with the
  descriptor fields of the architecture manual.
\<close>

section \<open>Data\<close>

type_synonym u4 = "4 word"

record GDTEntry =
  limit0 :: u16
  base0 :: u16
  base1 :: u8
  access :: u8
  limit1 :: u4
  eflags :: u4
  base2 :: u8

record TSSEntry = GDTEntry +
  base3 :: u32
  tss_rsv :: u32

record TSS =
  rsv0 :: u32
  tss_rsp :: "u64 list"
  rsv1 :: u64
  ist :: "u64 list"
  rsv2 :: u64
  rsv3 :: u16
  iopb :: u16

definition sizeof_TSS :: u64 where "sizeof_TSS = 0x68"

record GDT =
  null_entry :: GDTEntry
  kernel_code :: GDTEntry
  kernel_data :: GDTEntry
  user_code :: GDTEntry
  user_data :: GDTEntry
  tss_entry :: TSSEntry

definition sizeof_GDT :: u16 where "sizeof_GDT = 5 * 8 + 16"

text \<open>The registers of the processor the code loads.\<close>

record seg_regs =
  gdtr :: "u16 \<times> u64"
  cs_reg :: u16
  ds_reg :: u16
  es_reg :: u16
  ss_reg :: u16
  task_reg :: u16

record gdt_state =
  gdt :: GDT
  tss :: "u64 \<Rightarrow> TSS"
  gdt_lock :: i32
  g_phys :: phys
  segs :: seg_regs
  cpu_tss :: "u64 \<Rightarrow> u64"

section \<open>Operations\<close>

definition LoadGdt :: "u16 \<times> u64 \<Rightarrow> seg_regs \<Rightarrow> seg_regs" where
  "LoadGdt p r = r\<lparr>gdtr := p, ds_reg := 0x10, es_reg := 0x10, ss_reg := 0x10, cs_reg := 0x8\<rparr>"

text \<open>The seven assignments each flat segment gets, in the order of the source.\<close>

definition fill_entry :: "u8 \<Rightarrow> u4 \<Rightarrow> u16 \<Rightarrow> u4 \<Rightarrow> 'a GDTEntry_scheme \<Rightarrow> 'a GDTEntry_scheme" where
  "fill_entry acc fl l0 l1 e =
     e\<lparr>access := acc, base0 := 0, base1 := 0, base2 := 0, eflags := fl, limit0 := l0, limit1 := l1\<rparr>"

definition fill_tss_entry :: "u64 \<Rightarrow> u16 \<Rightarrow> TSSEntry \<Rightarrow> TSSEntry" where
  "fill_tss_entry tss_base tss_size e =
     e\<lparr>access := 0x89, eflags := 0x00, tss_rsv := 0,
       base0 := ucast (tss_base AND 0xFFFF),
       base1 := ucast (drop_bit 16 tss_base AND 0xFF),
       base2 := ucast (drop_bit 24 tss_base AND 0xFF),
       base3 := ucast (drop_bit 32 tss_base),
       limit0 := tss_size AND 0xffff, limit1 := 0\<rparr>"

definition fill_gdt :: "u64 \<Rightarrow> GDT \<Rightarrow> GDT" where
  "fill_gdt tss_base g =
     g\<lparr>null_entry := fill_entry 0 0 0 0 (null_entry g),
       kernel_code := fill_entry 0x9A 0xA 0xFFFF (ucast (0xFF :: u8)) (kernel_code g),
       kernel_data := fill_entry 0x92 0xC 0xFFFF (ucast (0xFF :: u8)) (kernel_data g),
       user_code := fill_entry 0xFA 0xA 0xFFFF (ucast (0xFF :: u8)) (user_code g),
       user_data := fill_entry 0xF2 0xC 0xFFFF (ucast (0xFF :: u8)) (user_data g),
       tss_entry := fill_tss_entry tss_base (ucast sizeof_TSS) (tss_entry g)\<rparr>"

definition gdt_acquire :: "gdt_state \<Rightarrow> gdt_state result" where
  "gdt_acquire s =
     (case compare_exchange (gdt_lock s) 0 1 of (done, v) \<Rightarrow>
        if done then Inr (s\<lparr>gdt_lock := v\<rparr>) else Inl Diverges)"

definition SetupGdt :: "u64 \<Rightarrow> u64 \<Rightarrow> u64 \<Rightarrow> u64 \<Rightarrow> gdt_state \<Rightarrow> gdt_state result" where
  "SetupGdt gdt_at tss_at hhdm cpu_id s =
     bindE (gdt_acquire s) (\<lambda>s1.
     if \<not> cpu_id < 256 then Inl OutOfBounds
     else bindE (PhysicalMemory_alloc (g_phys s1) (0x4000 div 4096)) (\<lambda>(p, ph).
       let t = tss s1 cpu_id;
           t1 = t\<lparr>tss_rsp := (tss_rsp t)[0 := (p + 0x4000) + hhdm], iopb := ucast sizeof_TSS\<rparr>;
           tss_base = tss_at + sizeof_TSS * cpu_id
       in Inr (s1\<lparr>g_phys := ph, tss := (tss s1)(cpu_id := t1), gdt := fill_gdt tss_base (gdt s1),
            segs := (LoadGdt (sizeof_GDT - 1, gdt_at) (segs s1))\<lparr>task_reg := 0x28\<rparr>,
            cpu_tss := (cpu_tss s1)(cpu_id := tss_base), gdt_lock := 0\<rparr>)))"

section \<open>The table as the processor reads it\<close>

definition entry_word :: "'a GDTEntry_scheme \<Rightarrow> u64" where
  "entry_word e = ucast (limit0 e) OR push_bit 16 (ucast (base0 e)) OR push_bit 32 (ucast (base1 e))
     OR push_bit 40 (ucast (access e)) OR push_bit 48 (ucast (limit1 e)) OR push_bit 52 (ucast (eflags e))
     OR push_bit 56 (ucast (base2 e))"

definition gdt_words :: "GDT \<Rightarrow> u64 list" where
  "gdt_words g = [entry_word (null_entry g), entry_word (kernel_code g), entry_word (kernel_data g),
     entry_word (user_code g), entry_word (user_data g), entry_word (tss_entry g),
     ucast (base3 (tss_entry g)) OR push_bit 32 (ucast (tss_rsv (tss_entry g)))]"

text \<open>The fields of a descriptor: type and flag bits, the base and the limit.\<close>

definition d_type :: "u64 \<Rightarrow> u64" where "d_type d = drop_bit 40 d AND 15"
definition d_dpl :: "u64 \<Rightarrow> u64" where "d_dpl d = drop_bit 45 d AND 3"
definition d_base :: "u64 \<Rightarrow> u64" where
  "d_base d = (drop_bit 16 d AND 0xFFFFFF) OR push_bit 24 (drop_bit 56 d)"
definition d_limit :: "u64 \<Rightarrow> u64" where
  "d_limit d = (d AND 0xFFFF) OR push_bit 16 (drop_bit 48 d AND 15)"

datatype seg_kind = Code64 | Data | Other

definition seg_kind :: "u64 \<Rightarrow> seg_kind" where
  "seg_kind d = (if \<not> bit d 47 \<or> \<not> bit d 44 then Other
     else if bit d 43 then (if bit d 53 \<and> \<not> bit d 54 then Code64 else Other)
     else if bit d 41 then Data else Other)"

text \<open>
  The type of a selector in a table: the kind of the segment it names with its privilege level.
  A null selector, or one past the limit, has none.
\<close>

definition selector_type :: "u64 list \<Rightarrow> u16 \<Rightarrow> (seg_kind \<times> u64) option" where
  "selector_type ws sel = (let i = unat (drop_bit 3 sel)
     in if i = 0 \<or> \<not> i < length ws \<or> bit sel 2 then None
        else Some (seg_kind (ws ! i), d_dpl (ws ! i)))"

text \<open>The processor resumes a context only with a code selector and a writable data selector of one level.\<close>

definition context_loads :: "u64 list \<Rightarrow> u16 \<Rightarrow> u16 \<Rightarrow> bool" where
  "context_loads ws c s \<longleftrightarrow>
     selector_type ws c = Some (Code64, ucast (c AND 3)) \<and> selector_type ws s = Some (Data, ucast (c AND 3)) \<and>
     s AND 3 = c AND 3"

section \<open>The words of the filled table\<close>

definition flat_words :: "u64 list" where
  "flat_words = [0, 0x00AF9A000000FFFF, 0x00CF92000000FFFF, 0x00AFFA000000FFFF, 0x00CFF2000000FFFF]"

lemma entry_word_fill:
  "entry_word (fill_entry acc fl l0 l1 e) =
     ucast l0 OR push_bit 40 (ucast acc) OR push_bit 48 (ucast l1) OR push_bit 52 (ucast fl)"
  by (simp add: entry_word_def fill_entry_def)

lemma gdt_words_fill:
  "gdt_words (fill_gdt b g) = flat_words @
     [entry_word (tss_entry (fill_gdt b g)), ucast (base3 (tss_entry (fill_gdt b g)))]"
  by (simp add: gdt_words_def fill_gdt_def entry_word_fill flat_words_def fill_tss_entry_def push_bit_eq_mult)

lemma flat_types:
  "selector_type (flat_words @ ws) 0x08 = Some (Code64, 0)"
  "selector_type (flat_words @ ws) 0x10 = Some (Data, 0)"
  "selector_type (flat_words @ ws) 0x1B = Some (Code64, 3)"
  "selector_type (flat_words @ ws) 0x23 = Some (Data, 3)"
  by (simp_all add: selector_type_def flat_words_def seg_kind_def d_dpl_def Let_def bit_iff_odd drop_bit_eq_div)

lemma filled_types:
  "selector_type (gdt_words (fill_gdt b g)) 0x08 = Some (Code64, 0)"
  "selector_type (gdt_words (fill_gdt b g)) 0x10 = Some (Data, 0)"
  "selector_type (gdt_words (fill_gdt b g)) 0x1B = Some (Code64, 3)"
  "selector_type (gdt_words (fill_gdt b g)) 0x23 = Some (Data, 3)"
  unfolding gdt_words_fill by (rule flat_types)+

text \<open>A descriptor word bit by bit.\<close>

lemma high_bits: "bit (w :: 'a::len word) k \<Longrightarrow> k < LENGTH('a)"
  by (rule bit_imp_le_length)

lemma entry_word_bit:
  "n < 16 \<Longrightarrow> bit (entry_word e) n = bit (limit0 e) n"
  "16 \<le> n \<Longrightarrow> n < 32 \<Longrightarrow> bit (entry_word e) n = bit (base0 e) (n - 16)"
  "32 \<le> n \<Longrightarrow> n < 40 \<Longrightarrow> bit (entry_word e) n = bit (base1 e) (n - 32)"
  "40 \<le> n \<Longrightarrow> n < 48 \<Longrightarrow> bit (entry_word e) n = bit (access e) (n - 40)"
  "48 \<le> n \<Longrightarrow> n < 52 \<Longrightarrow> bit (entry_word e) n = bit (limit1 e) (n - 48)"
  "56 \<le> n \<Longrightarrow> n < 64 \<Longrightarrow> bit (entry_word e) n = bit (base2 e) (n - 56)"
  unfolding entry_word_def
  by (auto simp: bit_or_iff bit_push_bit_iff bit_unsigned_iff dest: high_bits)

definition system_base :: "u64 list \<Rightarrow> nat \<Rightarrow> u64" where
  "system_base ws i = d_base (ws ! i) OR push_bit 32 (ws ! Suc i)"

lemma masks64: "(0xFFFF :: u64) = mask 16" "(0xFF :: u64) = mask 8" "(0xFFFFFF :: u64) = mask 24" "(15 :: u64) = mask 4"
  by (simp_all add: mask_eq_exp_minus_1)

lemma tss_fields:
  "base0 (tss_entry (fill_gdt b g)) = ucast (b AND mask 16)"
  "base1 (tss_entry (fill_gdt b g)) = ucast (drop_bit 16 b AND mask 8)"
  "base2 (tss_entry (fill_gdt b g)) = ucast (drop_bit 24 b AND mask 8)"
  "base3 (tss_entry (fill_gdt b g)) = ucast (drop_bit 32 b)"
  "limit0 (tss_entry (fill_gdt b g)) = 0x68" "limit1 (tss_entry (fill_gdt b g)) = 0"
  "access (tss_entry (fill_gdt b g)) = 0x89"
  by (simp_all add: fill_gdt_def fill_tss_entry_def sizeof_TSS_def flip: masks64)

lemma system_base_bit:
  assumes "n < 64"
  shows "bit (system_base (ws @ [entry_word e, ucast (hi :: u32)]) (length ws)) n =
    (if n < 16 then bit (base0 e) n else if n < 24 then bit (base1 e) (n - 16)
     else if n < 32 then bit (base2 e) (n - 24) else bit hi (n - 32))"
proof -
  have w: "(ws @ [entry_word e, ucast hi]) ! length ws = entry_word e"
    "(ws @ [entry_word e, ucast hi]) ! Suc (length ws) = ucast hi" by (simp_all add: nth_append)
  have u: "bit (system_base (ws @ [entry_word e, ucast hi]) (length ws)) n =
      (n < 24 \<and> bit (entry_word e) (n + 16) \<or> 24 \<le> n \<and> bit (entry_word e) (n + 32) \<or> 32 \<le> n \<and> bit hi (n - 32))"
    using assms unfolding system_base_def w d_base_def masks64
    by (auto simp: bit_or_iff bit_and_iff bit_push_bit_iff bit_drop_bit_eq bit_mask_iff bit_unsigned_iff add.commute dest: high_bits)
  consider "n < 16" | "16 \<le> n" "n < 24" | "24 \<le> n" "n < 32" | "32 \<le> n" by linarith
  then show ?thesis
  proof cases
    case 1
    then show ?thesis unfolding u using entry_word_bit(2) [of "n + 16" e] by simp
  next
    case 2
    then show ?thesis unfolding u using entry_word_bit(3) [of "n + 16" e] by simp
  next
    case 3
    then show ?thesis unfolding u using entry_word_bit(6) [of "n + 32" e] by (simp add: numeral_eq_Suc)
  next
    case 4
    then have "\<not> bit (entry_word e) (n + 32)" using high_bits [of "entry_word e" "n + 32"] by auto
    then show ?thesis unfolding u using 4 by simp
  qed
qed

lemma tss_base_back: "system_base (gdt_words (fill_gdt b g)) 5 = b"
proof (rule bit_word_eqI)
  fix n assume "n < LENGTH(64)"
  then have n: "n < 64" by simp
  have len: "length flat_words = 5" by (simp add: flat_words_def)
  show "bit (system_base (gdt_words (fill_gdt b g)) 5) n = bit b n"
    using system_base_bit [OF n, of flat_words "tss_entry (fill_gdt b g)"] n unfolding gdt_words_fill len tss_fields
    by (auto simp: bit_and_iff bit_mask_iff bit_drop_bit_eq bit_unsigned_iff)
qed

lemma d_limit_entry: "d_limit (entry_word e) = ucast (limit0 e) OR push_bit 16 (ucast (limit1 e))"
proof (rule bit_word_eqI)
  fix n assume "n < LENGTH(64)"
  consider "n < 16" | "16 \<le> n" "n < 20" | "20 \<le> n" by linarith
  then show "bit (d_limit (entry_word e)) n = bit (ucast (limit0 e) OR push_bit 16 (ucast (limit1 e)) :: u64) n"
  proof cases
    case 1
    then show ?thesis using entry_word_bit(1) [of n e]
      unfolding d_limit_def masks64 by (simp add: bit_or_iff bit_and_iff bit_push_bit_iff bit_mask_iff bit_unsigned_iff)
  next
    case 2
    then show ?thesis using entry_word_bit(5) [of "n + 32" e] high_bits [of "limit0 e" n]
      unfolding d_limit_def masks64
      by (auto simp: bit_or_iff bit_and_iff bit_push_bit_iff bit_mask_iff bit_unsigned_iff bit_drop_bit_eq add.commute)
  next
    case 3
    then show ?thesis using high_bits [of "limit0 e" n] high_bits [of "limit1 e" "n - 16"]
      unfolding d_limit_def masks64
      by (auto simp: bit_or_iff bit_and_iff bit_push_bit_iff bit_mask_iff bit_unsigned_iff)
  qed
qed

lemma access_bits:
  assumes "access e = 0x89"
  shows "d_type (entry_word e) = 9" "\<not> bit (entry_word e) 44" "bit (entry_word e) 47"
proof -
  have b: "bit (0x89 :: u8) 7" "\<not> bit (0x89 :: u8) 4" by simp_all
  show "\<not> bit (entry_word e) 44" "bit (entry_word e) 47"
    using entry_word_bit(4) [of 44 e] entry_word_bit(4) [of 47 e] assms b by simp_all
  have t: "bit (d_type (entry_word e)) n = (n < 4 \<and> bit (0x89 :: u8) n)" for n
    using entry_word_bit(4) [of "n + 40" e] assms unfolding d_type_def masks64
    by (auto simp: bit_and_iff bit_mask_iff bit_drop_bit_eq add.commute)
  have l: "bit (0x89 :: u8) 0 = bit (9 :: u64) 0" "bit (0x89 :: u8) 1 = bit (9 :: u64) 1"
    "bit (0x89 :: u8) 2 = bit (9 :: u64) 2" "bit (0x89 :: u8) 3 = bit (9 :: u64) 3" by simp_all
  show "d_type (entry_word e) = 9"
  proof (rule bit_word_eqI)
    fix n assume "n < LENGTH(64)"
    have "bit (9 :: u64) n \<Longrightarrow> n < 4"
    proof (rule ccontr)
      assume b: "bit (9 :: u64) n" and "\<not> n < 4"
      have "(9 :: u64) = take_bit 4 9" by simp
      then have "bit (take_bit 4 (9 :: u64)) n" using b by simp
      then show False using \<open>\<not> n < 4\<close> by (simp only: bit_take_bit_iff simp_thms)
    qed
    moreover have "n < 4 \<Longrightarrow> n = 0 \<or> n = 1 \<or> n = 2 \<or> n = 3" by arith
    ultimately show "bit (d_type (entry_word e)) n = bit (9 :: u64) n"
      using l unfolding t by blast
  qed
qed

section \<open>Setting up a processor\<close>

text \<open>What \<^verbatim>\<open>SetupGdt\<close> leaves behind for processor \<open>i\<close>.\<close>

lemma tss_descriptor:
  "selector_type (gdt_words (fill_gdt b g)) 0x28 = Some (Other, 0)"
  "d_type (gdt_words (fill_gdt b g) ! 5) = 9" "bit (gdt_words (fill_gdt b g) ! 5) 47"
  "d_limit (gdt_words (fill_gdt b g) ! 5) = 0x68" "length (gdt_words (fill_gdt b g)) = 7"
proof -
  let ?e = "tss_entry (fill_gdt b g)"
  have len: "length flat_words = 5" by (simp add: flat_words_def)
  have w: "gdt_words (fill_gdt b g) ! 5 = entry_word ?e" unfolding gdt_words_fill by (simp add: nth_append len)
  note a = access_bits [OF tss_fields(7)]
  show "d_type (gdt_words (fill_gdt b g) ! 5) = 9" "bit (gdt_words (fill_gdt b g) ! 5) 47"
    unfolding w by (rule a)+
  show "d_limit (gdt_words (fill_gdt b g) ! 5) = 0x68" unfolding w d_limit_entry tss_fields by simp
  show l: "length (gdt_words (fill_gdt b g)) = 7" unfolding gdt_words_fill by (simp add: len)
  have dpl: "d_dpl (entry_word ?e) = 0"
  proof (rule bit_word_eqI)
    fix n assume "n < LENGTH(64)"
    have m: "(3 :: u64) = mask 2" by (simp add: mask_eq_exp_minus_1)
    have "list_all (\<lambda>n. \<not> bit (0x89 :: u8) n) [5, 6]" by simp
    moreover have "n < 2 \<Longrightarrow> n = 0 \<or> n = 1" by arith
    ultimately have "n < 2 \<Longrightarrow> \<not> bit (0x89 :: u8) (n + 5)" by auto
    then show "bit (d_dpl (entry_word ?e)) n = bit (0 :: u64) n"
      using entry_word_bit(4) [of "n + 45" ?e] unfolding d_dpl_def m tss_fields
      by (auto simp: bit_and_iff bit_mask_iff bit_drop_bit_eq add.commute)
  qed
  have "seg_kind (entry_word ?e) = Other" using a by (simp add: seg_kind_def)
  then show "selector_type (gdt_words (fill_gdt b g)) 0x28 = Some (Other, 0)"
    using w l dpl by (simp add: selector_type_def drop_bit_eq_div)
qed

text \<open>The selectors of the architecture-independent code against a filled table.\<close>

definition segments_typed :: "u64 list \<Rightarrow> bool" where
  "segments_typed ws \<longleftrightarrow> selector_type ws 0x08 = Some (Code64, 0) \<and> selector_type ws 0x10 = Some (Data, 0) \<and>
     selector_type ws 0x1B = Some (Code64, 3) \<and> selector_type ws 0x23 = Some (Data, 3)"

lemma SetupGdt_cases:
  assumes "SetupGdt gdt_at tss_at hhdm i s = Inr s'"
  shows "\<exists>p ph. i < 256 \<and> gdt_lock s = 0 \<and> PhysicalMemory_alloc (g_phys s) 4 = Inr (p, ph) \<and>
    s' = s\<lparr>g_phys := ph,
      tss := (tss s)(i := (tss s i)\<lparr>tss_rsp := (tss_rsp (tss s i))[0 := (p + 0x4000) + hhdm], iopb := 0x68\<rparr>),
      gdt := fill_gdt (tss_at + 0x68 * i) (gdt s),
      segs := (LoadGdt (0x37, gdt_at) (segs s))\<lparr>task_reg := 0x28\<rparr>,
      cpu_tss := (cpu_tss s)(i := tss_at + 0x68 * i), gdt_lock := 0\<rparr>"
  using assms
  by (auto simp: SetupGdt_def gdt_acquire_def compare_exchange_def bindE_eq_Inr Let_def sizeof_TSS_def sizeof_GDT_def
      split: if_splits prod.splits)

lemma contexts_load:
  "context_loads (gdt_words (fill_gdt b g)) (ucast (cs (initial_context entry u))) (ucast (ss (initial_context entry u)))"
  using filled_types [of b g] by (simp add: context_loads_def initial_context_def)

lemma SetupGdt_ok:
  assumes "pm_ok (g_phys s)" "alloc_possible (g_phys s) 4" "gdt_lock s = 0" "i < 256"
  obtains p ph where "PhysicalMemory_alloc (g_phys s) 4 = Inr (p, ph)"
    "SetupGdt gdt_at tss_at hhdm i s = Inr (s\<lparr>g_phys := ph,
      tss := (tss s)(i := (tss s i)\<lparr>tss_rsp := (tss_rsp (tss s i))[0 := (p + 0x4000) + hhdm], iopb := 0x68\<rparr>),
      gdt := fill_gdt (tss_at + 0x68 * i) (gdt s),
      segs := (LoadGdt (0x37, gdt_at) (segs s))\<lparr>task_reg := 0x28\<rparr>,
      cpu_tss := (cpu_tss s)(i := tss_at + 0x68 * i), gdt_lock := 0\<rparr>)"
proof -
  have four: "unat (4 :: u64) = 4" by simp
  obtain p ph where a: "PhysicalMemory_alloc (g_phys s) 4 = Inr (p, ph)"
    using alloc_cases [OF assms(1), of 4, unfolded four] assms(2) by auto
  show ?thesis
    by (rule that [OF a])
      (use a assms(3,4) in \<open>simp add: SetupGdt_def gdt_acquire_def compare_exchange_def Let_def sizeof_TSS_def sizeof_GDT_def\<close>)
qed

definition demo_gdt :: gdt_state where
  "demo_gdt = (let e = \<lparr>limit0 = 1, base0 = 2, base1 = 3, access = 4, limit1 = 5, eflags = 6, base2 = 7\<rparr>;
     t = \<lparr>limit0 = 1, base0 = 2, base1 = 3, access = 4, limit1 = 5, eflags = 6, base2 = 7, base3 = 8, tss_rsv = 9\<rparr>
   in \<lparr>gdt = \<lparr>null_entry = e, kernel_code = e, kernel_data = e, user_code = e, user_data = e, tss_entry = t\<rparr>,
       tss = \<lambda>_. \<lparr>rsv0 = 0, tss_rsp = [0, 0, 0], rsv1 = 0, ist = replicate 7 0, rsv2 = 0, rsv3 = 0, iopb = 0\<rparr>,
       gdt_lock = 0,
       g_phys = demo_pm\<lparr>bitmap := [0b11000000]\<rparr>,
       segs = \<lparr>gdtr = (0, 0), cs_reg = 0x28, ds_reg = 0x30, es_reg = 0x30, ss_reg = 0x30, task_reg = 0\<rparr>,
       cpu_tss = \<lambda>_. 0\<rparr>)"

lemma demo_gdt_ok: "pm_ok (g_phys demo_gdt)" "alloc_possible (g_phys demo_gdt) 4" "gdt_lock demo_gdt = 0"
proof -
  have pb: "page_bit [0b11000000] i = (i < 2)" if "i < 8" for i
  proof -
    have "list_all (\<lambda>i. page_bit [0b11000000] i = (i < 2)) [0..<8]" by code_simp
    then show ?thesis using that by (simp only: list_all_iff set_upt) simp
  qed
  have f: "pm_free (g_phys demo_gdt) = {2..<8}"
    using pb by (auto simp: demo_gdt_def pm_free_def free_pages_def Let_def not_less)
  then show "pm_ok (g_phys demo_gdt)"
    by (simp add: pm_ok_def) (simp add: demo_gdt_def demo_pm_def page_limit_def Let_def)
  have "{2..<2 + 4} \<subseteq> pm_free (g_phys demo_gdt)" unfolding f by auto
  then show "alloc_possible (g_phys demo_gdt) 4"
    by (auto simp: alloc_possible_def free_run_def pm_free_def demo_gdt_def demo_pm_def page_limit_def Let_def intro!: exI [of _ 2])
  show "gdt_lock demo_gdt = 0" by (simp add: demo_gdt_def Let_def)
qed

section \<open>Properties\<close>

text \<open>C28. After \<^verbatim>\<open>SetupGdt\<close> every selector the kernel hands out names a segment of the type it is used
  at: the contexts of new threads, kernel and user, hold a 64-bit code selector and a writable data
  selector of one privilege level, the selectors \<^verbatim>\<open>LoadGdt\<close> puts into the segment registers are kernel
  code and data, and the task register's selector names a present 64-bit task state segment.\<close>

theorem selectors_typed:
  assumes "SetupGdt gdt_at tss_at hhdm i s = Inr s'"
  shows "segments_typed (gdt_words (gdt s')) \<and>
    context_loads (gdt_words (gdt s')) (ucast (cs (initial_context entry u))) (ucast (ss (initial_context entry u))) \<and>
    selector_type (gdt_words (gdt s')) (ucast (cs (initial_context entry u))) = Some (Code64, if u then 3 else 0) \<and>
    context_loads (gdt_words (gdt s')) (cs_reg (segs s')) (ss_reg (segs s')) \<and>
    drop_bit 3 (task_reg (segs s')) = 5 \<and> d_type (gdt_words (gdt s') ! 5) = 9 \<and> bit (gdt_words (gdt s') ! 5) 47"
  using SetupGdt_cases [OF assms] filled_types contexts_load tss_descriptor(2,3)
  by (auto simp: segments_typed_def context_loads_def LoadGdt_def initial_context_def drop_bit_eq_div)

theorem selectors_typed_witness:
  "\<exists>s'. SetupGdt 0xffffffff80010000 0xffffffff80020000 0 1 demo_gdt = Inr s' \<and> segments_typed (gdt_words (gdt s'))"
proof -
  have "(1 :: u64) < 256" by simp
  from SetupGdt_ok [OF demo_gdt_ok this]
  obtain s' where s': "SetupGdt 0xffffffff80010000 0xffffffff80020000 0 1 demo_gdt = Inr s'" by metis
  from selectors_typed [OF this] show ?thesis using s' by blast
qed

text \<open>On processor \<open>i\<close> the descriptor written in four pieces names exactly the processor's own task state
  segment with its size as limit; its ring 0 stack is the top of four pages that were free, and
  the segments of the other processors stay as they are.\<close>

theorem setup_gdt_stack:
  assumes "pm_ok (g_phys s)" "alloc_possible (g_phys s) 4" "gdt_lock s = 0" "i < 256"
    and "length (tss_rsp (tss s i)) = 3"
  shows "\<exists>s' p. SetupGdt gdt_at tss_at hhdm i s = Inr s' \<and> gdt_lock s' = 0 \<and>
    takes_pages (pm_free (g_phys s)) (pm_free (g_phys s')) 4 p (page_limit (g_phys s)) \<and>
    tss_rsp (tss s' i) ! 0 = p + 4 * 4096 + hhdm \<and> iopb (tss s' i) = 0x68 \<and>
    system_base (gdt_words (gdt s')) 5 = tss_at + 0x68 * i \<and> cpu_tss s' i = tss_at + 0x68 * i \<and>
    d_limit (gdt_words (gdt s') ! 5) = 0x68 \<and> (\<forall>j. j \<noteq> i \<longrightarrow> tss s' j = tss s j \<and> cpu_tss s' j = cpu_tss s j)"
proof -
  have four: "unat (4 :: u64) = 4" by simp
  obtain p ph where a: "PhysicalMemory_alloc (g_phys s) 4 = Inr (p, ph)" and
    r: "SetupGdt gdt_at tss_at hhdm i s = Inr (s\<lparr>g_phys := ph,
      tss := (tss s)(i := (tss s i)\<lparr>tss_rsp := (tss_rsp (tss s i))[0 := (p + 0x4000) + hhdm], iopb := 0x68\<rparr>),
      gdt := fill_gdt (tss_at + 0x68 * i) (gdt s),
      segs := (LoadGdt (0x37, gdt_at) (segs s))\<lparr>task_reg := 0x28\<rparr>,
      cpu_tss := (cpu_tss s)(i := tss_at + 0x68 * i), gdt_lock := 0\<rparr>)"
    using SetupGdt_ok [OF assms(1-4)] by blast
  show ?thesis
    unfolding r using pm_alloc_ok(2) [OF assms(1) a, unfolded four] assms(5)
    by (intro exI [of _ p] exI conjI) (rule refl, simp_all add: tss_base_back tss_descriptor(4))
qed

theorem setup_gdt_stack_witness:
  "\<exists>s' p. SetupGdt 0xffffffff80010000 0xffffffff80020000 0xffff800000000000 1 demo_gdt = Inr s' \<and>
    tss_rsp (tss s' 1) ! 0 = p + 4 * 4096 + 0xffff800000000000 \<and>
    system_base (gdt_words (gdt s')) 5 = 0xffffffff80020068"
proof -
  have l: "(1 :: u64) < 256" "length (tss_rsp (tss demo_gdt 1)) = 3" by (simp_all add: demo_gdt_def Let_def)
  show ?thesis
    using setup_gdt_stack [OF demo_gdt_ok l, of "0xffffffff80010000" "0xffffffff80020000" "0xffff800000000000"]
    by auto
qed

end
