(* ===== verification/Idt.thy ===== *)
theory Idt
  imports Gdt Console
begin

text \<open>
  Interrupts: the descriptor table and the dispatcher of \<^verbatim>\<open>src/src/cpu/idt.cpp\<close>. The addresses of the
  256 assembly stubs and of the table are arguments. Handlers are function pointers; what calling
  one does to the rest of the machine is the argument \<open>call\<close>.
\<close>

section \<open>Data\<close>

record IDTEntry =
  offset0 :: u16
  gate_cs :: u16
  gate_ist :: u8
  gate_flags :: u8
  offset1 :: u16
  offset2 :: u32
  gate_zero :: u32

record idt_state =
  idt :: "IDTEntry list"
  idtr :: "u16 \<times> u64"
  interrupts_on :: bool

section \<open>The table\<close>

definition SetIDTEntry :: "nat \<Rightarrow> u64 \<Rightarrow> u8 \<Rightarrow> u16 \<Rightarrow> u8 \<Rightarrow> u8 \<Rightarrow> idt_state \<Rightarrow> idt_state result" where
  "SetIDTEntry i entry ist_no sel gate_type dpl s =
     (if \<not> i < length (idt s) then Inl OutOfBounds
      else Inr (s\<lparr>idt := (idt s)[i := (idt s ! i)
        \<lparr>offset0 := ucast (entry AND 0xffff),
         offset1 := ucast (drop_bit 16 entry AND 0xffff),
         offset2 := ucast (drop_bit 32 entry AND 0xffffffff),
         gate_ist := ist_no,
         gate_flags := 0x80 OR push_bit 5 dpl OR gate_type,
         gate_cs := sel,
         gate_zero := 0\<rparr>]\<rparr>))"

fun idt_loop :: "(nat \<Rightarrow> u64) \<Rightarrow> nat list \<Rightarrow> idt_state \<Rightarrow> idt_state result" where
  "idt_loop isr_table [] s = Inr s"
| "idt_loop isr_table (i # is) s =
     bindE (SetIDTEntry i (isr_table i) 0 0x08 0xE 0 s) (\<lambda>s1. idt_loop isr_table is s1)"

definition IDT_Initialize :: "(nat \<Rightarrow> u64) \<Rightarrow> u64 \<Rightarrow> idt_state \<Rightarrow> idt_state result" where
  "IDT_Initialize isr_table idt_at s =
     bindE (idt_loop isr_table [0..<256] s) (\<lambda>s1.
     Inr (s1\<lparr>idtr := (256 * 16 - 1, idt_at), interrupts_on := True\<rparr>))"

definition DisableInts :: "idt_state \<Rightarrow> idt_state" where
  "DisableInts s = s\<lparr>interrupts_on := False\<rparr>"

definition EnableInts :: "idt_state \<Rightarrow> idt_state" where
  "EnableInts s = s\<lparr>interrupts_on := True\<rparr>"

section \<open>The dispatcher\<close>

definition interrupt_exception_name :: "string list" where
  "interrupt_exception_name =
    [''Division By 0'', ''Debug interrupt'', ''NMI (Non Maskable Interrupt)'', ''Breakpoint interrupt'',
     ''invalid (4)'', ''table overflow'', ''Invalid opcode'', ''No FPU'', ''Double fault'', ''invalid (9)'',
     ''invalid TSS'', ''Segment not present'', ''invalid stack'', ''General protection fault'', ''Page fault'',
     ''invalid (15)'', ''x87 FPU fault'', ''Alignment fault'', ''Machine check fault'',
     ''SIMD floating point exception'', ''vitualisation excpetion'', ''control protection exception'',
     ''invalid (22)'', ''invalid (23)'', ''invalid (24)'', ''invalid (25)'', ''invalid (26)'', ''invalid (27)'',
     ''invalid (28)'', ''invalid (29)'', ''invalid (30)'', ''invalid (31)'']"

text \<open>The table of handlers, 0 for none.\<close>

type_synonym handlers = "u64 \<Rightarrow> u64"

definition AddHandler :: "i32 \<Rightarrow> u64 \<Rightarrow> handlers \<Rightarrow> handlers result" where
  "AddHandler no handler hs =
     (if sint no < 0 \<or> 256 \<le> sint no then Inl OutOfBounds else Inr (hs(scast no := handler)))"

text \<open>A sequence of \<^verbatim>\<open>printf\<close> calls.\<close>

fun print_lines :: "(string \<times> va list) list \<Rightarrow> console \<Rightarrow> console result" where
  "print_lines [] c = Inr c"
| "print_lines ((fmt, as) # ls) c = bindE (Console_printf (c_text (fmt @ [CHR 0x0A])) as c) (\<lambda>(_, c1). print_lines ls c1)"

text \<open>The fault address, of which the accessor passes 32 bits.\<close>

definition ReadCr2 :: "u64 \<Rightarrow> u32" where
  "ReadCr2 cr2 = ucast cr2"

definition panic_lines :: "u64 \<Rightarrow> SavedRegs \<Rightarrow> (string \<times> va list) list" where
  "panic_lines cr2 r =
    [(''PANIC! Exception %s encountered!'', [Str (c_text (interrupt_exception_name ! unat (int_no r)))]),
     (''rax 0x%x rbx 0x%x rcx 0x%x rdx 0x%x'', [Slot (rax r), Slot (rbx r), Slot (rcx r), Slot (rdx r)]),
     (''rsi 0x%x rdi 0x%x rbp 0x%x rsp 0x%x'', [Slot (rsi r), Slot (rdi r), Slot (rbp r), Slot (rsp r)]),
     (''r8  0x%x r9  0x%x r10 0x%x r11 0x%x'', [Slot (r8 r), Slot (r9 r), Slot (r10 r), Slot (r11 r)]),
     (''r12 0x%x r13 0x%x r14 0x%x r15 0x%x'', [Slot (r12 r), Slot (r13 r), Slot (r14 r), Slot (r15 r)]),
     (''Exception occured at 0x%x, error code %d'', [Slot (rip r), Slot (error_code r)])]
    @ (if int_no r = 0x0e then [(''cr2 0x%x'', [Slot (ucast (ReadCr2 cr2))])] else [])"

definition interrupt_handler ::
  "(u64 \<Rightarrow> SavedRegs \<Rightarrow> 'w \<Rightarrow> (SavedRegs \<times> 'w) result) \<Rightarrow> u64 \<Rightarrow> handlers \<Rightarrow> SavedRegs \<Rightarrow> console \<Rightarrow> 'w
     \<Rightarrow> (SavedRegs \<times> console \<times> 'w) result" where
  "interrupt_handler call cr2 handlers regs c w =
     (if int_no regs < 32 then bindE (print_lines (panic_lines cr2 regs) c) (\<lambda>_. Inl Halted)
      else if \<not> int_no regs < 256 then Inl OutOfBounds
      else if handlers (int_no regs) = 0
      then bindE (print_lines [(''ERROR: Unhandled interrupt %d!'', [Slot (int_no regs)])] c) (\<lambda>_. Inl Halted)
      else bindE (call (handlers (int_no regs)) regs w) (\<lambda>(r, w1). Inr (r, c, w1)))"

section \<open>The table as the processor reads it\<close>

definition gate_offset :: "IDTEntry \<Rightarrow> u64" where
  "gate_offset e = ucast (offset0 e) OR push_bit 16 (ucast (offset1 e)) OR push_bit 32 (ucast (offset2 e))"

text \<open>A present 64-bit interrupt gate of privilege level 0 on the current stack.\<close>

definition interrupt_gate :: "IDTEntry \<Rightarrow> bool" where
  "interrupt_gate e \<longleftrightarrow> gate_flags e AND 15 = 14 \<and> \<not> bit (gate_flags e) 4 \<and> bit (gate_flags e) 7 \<and>
     drop_bit 5 (gate_flags e) AND 3 = 0 \<and> gate_ist e AND 7 = 0"

lemma gate_offset_set:
  "(ucast (ucast (entry AND 0xffff) :: u16) OR push_bit 16 (ucast (ucast (drop_bit 16 entry AND 0xffff) :: u16))
    OR push_bit 32 (ucast (ucast (drop_bit 32 entry AND 0xffffffff) :: u32)) :: u64) = entry"
proof (rule bit_word_eqI)
  fix n assume n: "n < LENGTH(64)"
  have m: "(0xffff :: u64) = mask 16" "(0xffffffff :: u64) = mask 32" by (simp_all add: mask_eq_exp_minus_1)
  consider "n < 16" | "16 \<le> n" "n < 32" | "32 \<le> n" by linarith
  then show "bit (ucast (ucast (entry AND 0xffff) :: u16) OR push_bit 16 (ucast (ucast (drop_bit 16 entry AND 0xffff) :: u16))
    OR push_bit 32 (ucast (ucast (drop_bit 32 entry AND 0xffffffff) :: u32)) :: u64) n = bit entry n"
    using n unfolding m
    by cases (auto simp: bit_or_iff bit_and_iff bit_push_bit_iff bit_unsigned_iff bit_drop_bit_eq bit_mask_iff)
qed

definition kernel_gate :: "u64 \<Rightarrow> IDTEntry \<Rightarrow> bool" where
  "kernel_gate entry e \<longleftrightarrow> gate_offset e = entry \<and> interrupt_gate e \<and> gate_cs e = 0x08"

lemma SetIDTEntry_kernel:
  assumes "i < length (idt s)"
  shows "\<exists>e. SetIDTEntry i entry 0 0x08 0xE 0 s = Inr (s\<lparr>idt := (idt s)[i := e]\<rparr>) \<and> kernel_gate entry e"
proof -
  let ?e = "(idt s ! i)\<lparr>offset0 := ucast (entry AND 0xffff), offset1 := ucast (drop_bit 16 entry AND 0xffff),
    offset2 := ucast (drop_bit 32 entry AND 0xffffffff), gate_ist := 0, gate_flags := 0x80 OR push_bit 5 0 OR 0xE,
    gate_cs := 0x08, gate_zero := 0\<rparr>"
  have "gate_offset ?e = entry" by (simp add: gate_offset_def gate_offset_set)
  moreover have "interrupt_gate ?e" "gate_cs ?e = 0x08" by (simp_all add: interrupt_gate_def drop_bit_eq_div)
  ultimately show ?thesis
    using assms unfolding SetIDTEntry_def kernel_gate_def by (intro exI [of _ ?e]) simp
qed

lemma idt_loop_ok:
  assumes "set is \<subseteq> {..<length (idt s)}" "distinct is"
  shows "\<exists>es. idt_loop stubs is s = Inr (s\<lparr>idt := es\<rparr>) \<and> length es = length (idt s) \<and>
    (\<forall>i. i < length es \<longrightarrow> (if i \<in> set is then kernel_gate (stubs i) (es ! i) else es ! i = idt s ! i))"
  using assms
proof (induction "is" arbitrary: s)
  case Nil
  then show ?case by (intro exI [of _ "idt s"]) simp
next
  case (Cons i js)
  obtain e where e: "SetIDTEntry i (stubs i) 0 0x08 0xE 0 s = Inr (s\<lparr>idt := (idt s)[i := e]\<rparr>)" "kernel_gate (stubs i) e"
    using SetIDTEntry_kernel [of i s "stubs i"] Cons.prems by auto
  have p: "set js \<subseteq> {..<length (idt (s\<lparr>idt := (idt s)[i := e]\<rparr>))}" "distinct js" "i < length (idt s)" "i \<notin> set js"
    using Cons.prems by auto
  obtain es where es: "idt_loop stubs js (s\<lparr>idt := (idt s)[i := e]\<rparr>) = Inr (s\<lparr>idt := es\<rparr>)" "length es = length (idt s)"
    "\<forall>j. j < length es \<longrightarrow> (if j \<in> set js then kernel_gate (stubs j) (es ! j) else es ! j = (idt s)[i := e] ! j)"
    using Cons.IH [OF p(1,2)] by auto
  have "kernel_gate (stubs j) (es ! j)" if "j < length es" "j \<in> set (i # js)" for j
    using es(2,3) e(2) p(3,4) that by (cases "j = i") (auto split: if_splits)
  moreover have "es ! j = idt s ! j" if "j < length es" "j \<notin> set (i # js)" for j
    using es(3) that by (simp split: if_splits)
  ultimately show ?case using e(1) es(1,2) by (intro exI [of _ es]) simp
qed

lemma IDT_Initialize_ok:
  assumes "length (idt s) = 256"
  shows "\<exists>s'. IDT_Initialize stubs idt_at s = Inr s' \<and> idtr s' = (0xFFF, idt_at) \<and> interrupts_on s' \<and>
    length (idt s') = 256 \<and> (\<forall>i < 256. kernel_gate (stubs i) (idt s' ! i))"
proof -
  obtain es where "idt_loop stubs [0..<256] s = Inr (s\<lparr>idt := es\<rparr>)" "length es = 256"
    "\<forall>i. i < length es \<longrightarrow> (if i \<in> set [0..<256] then kernel_gate (stubs i) (es ! i) else es ! i = idt s ! i)"
    using idt_loop_ok [of "[0..<256]" s stubs] assms by (auto simp: atLeast0LessThan)
  then show ?thesis by (intro exI [of _ "s\<lparr>idt := es, idtr := (0xFFF, idt_at), interrupts_on := True\<rparr>"])
    (simp add: IDT_Initialize_def)
qed

section \<open>Properties\<close>

text \<open>C29. \<^verbatim>\<open>IDT::Initialize\<close> makes each of the 256 entries a present 64-bit interrupt gate for ring 0 whose
  three offset pieces name exactly the entry's stub, and whose selector is 64-bit kernel code in
  the table \<^verbatim>\<open>SetupGdt\<close> leaves; the limit loaded covers the whole table.\<close>

theorem idt_gates:
  assumes "SetupGdt gdt_at tss_at hhdm i g = Inr g'" "length (idt s) = 256"
  shows "\<exists>s'. IDT_Initialize stubs idt_at s = Inr s' \<and> idtr s' = (16 * 256 - 1, idt_at) \<and>
    (\<forall>k < 256. gate_offset (idt s' ! k) = stubs k \<and> interrupt_gate (idt s' ! k) \<and>
       selector_type (gdt_words (gdt g')) (gate_cs (idt s' ! k)) = Some (Code64, 0))"
proof -
  obtain s' where "IDT_Initialize stubs idt_at s = Inr s'" "idtr s' = (0xFFF, idt_at)"
    "\<forall>k < 256. kernel_gate (stubs k) (idt s' ! k)"
    using IDT_Initialize_ok [OF assms(2)] by blast
  moreover have "selector_type (gdt_words (gdt g')) 0x08 = Some (Code64, 0)"
    using SetupGdt_cases [OF assms(1)] filled_types(1) by auto
  ultimately show ?thesis by (intro exI [of _ s']) (simp add: kernel_gate_def)
qed

definition demo_idt :: idt_state where
  "demo_idt = \<lparr>idt = replicate 256 \<lparr>offset0 = 0, gate_cs = 0, gate_ist = 0, gate_flags = 0, offset1 = 0,
     offset2 = 0, gate_zero = 0\<rparr>, idtr = (0, 0), interrupts_on = False\<rparr>"

theorem idt_gates_witness:
  "\<exists>s'. IDT_Initialize (\<lambda>k. 0xffffffff80001000 + 16 * of_nat k) 0xffffffff80030000 demo_idt = Inr s' \<and>
    gate_offset (idt s' ! 14) = 0xffffffff800010e0 \<and> interrupt_gate (idt s' ! 14)"
proof -
  have i: "(1 :: u64) < 256" by simp
  obtain g' where g: "SetupGdt 0xffffffff80010000 0xffffffff80020000 0 1 demo_gdt = Inr g'"
    using SetupGdt_ok [OF demo_gdt_ok i] by metis
  have l: "length (idt demo_idt) = 256" by (simp add: demo_idt_def)
  have k: "(14 :: nat) < 256" by simp
  from idt_gates [OF g l, of "\<lambda>k. 0xffffffff80001000 + 16 * of_nat k" "0xffffffff80030000"]
  obtain s' where "IDT_Initialize (\<lambda>k. 0xffffffff80001000 + 16 * of_nat k) 0xffffffff80030000 demo_idt = Inr s'"
    "gate_offset (idt s' ! 14) = 0xffffffff80001000 + 16 * of_nat 14" "interrupt_gate (idt s' ! 14)"
    using k by blast
  then show ?thesis by (intro exI [of _ s']) simp
qed

text \<open>The dispatcher resumes the interrupted code exactly when a handler is registered for the interrupt
  and returns, with the registers the handler returns and nothing else of the kernel's state
  changed: an exception, or an interrupt without a handler, never comes back.\<close>

theorem interrupt_dispatch:
  "interrupt_handler call cr2 hs regs c w = Inr (r, c1, w1) \<longleftrightarrow>
     32 \<le> int_no regs \<and> int_no regs < 256 \<and> hs (int_no regs) \<noteq> 0 \<and>
     call (hs (int_no regs)) regs w = Inr (r, w1) \<and> c1 = c"
  by (auto simp: interrupt_handler_def bindE_eq_Inr not_le)

text \<open>
  An exception raised while the console is locked is never reported: the report spins on the lock.
\<close>

theorem panic_deadlocks:
  assumes "screen_lock c \<noteq> 0" "int_no regs < 32"
  shows "interrupt_handler call cr2 hs regs c w = Inl Diverges"
  using assms by (simp add: interrupt_handler_def panic_lines_def Console_printf_def screen_acquire_def)

text \<open>A handler registered for a vector is the one the dispatcher calls, and no other vector changes.\<close>

lemma AddHandler_dispatch:
  assumes "AddHandler no h hs = Inr hs'" "v < 256"
  shows "hs' v = (if v = scast no then h else hs v)"
  using assms by (auto simp: AddHandler_def split: if_splits)

end
