(* ===== verification/Syscall.thy ===== *)
theory Syscall
  imports Idt
begin

text \<open>
  System calls, \<^verbatim>\<open>src/src/include/cpu/Syscall.cpp\<close>, with the model specific register accessors of
  \<^verbatim>\<open>src/src/include/util.h\<close>. The registers are a map; the processor's use of \<^verbatim>\<open>STAR\<close> on the way into and
  out of the kernel is written out from the architecture manual.
\<close>

section \<open>Model specific registers\<close>

type_synonym msrs = "u32 \<Rightarrow> u64"

text \<open>The instructions: register number in ecx, value in edx and eax.\<close>

definition wrmsr_insn :: "u64 \<Rightarrow> u64 \<Rightarrow> u64 \<Rightarrow> msrs \<Rightarrow> msrs" where
  "wrmsr_insn eax edx ecx m =
     m(ucast ecx := ucast (ucast eax :: u32) OR push_bit 32 (ucast (ucast edx :: u32)))"

definition rdmsr_insn :: "u64 \<Rightarrow> msrs \<Rightarrow> u64 \<times> u64" where
  "rdmsr_insn ecx m = (ucast (ucast (m (ucast ecx)) :: u32), ucast (ucast (drop_bit 32 (m (ucast ecx))) :: u32))"

definition wrmsr :: "u64 \<Rightarrow> u64 \<Rightarrow> msrs \<Rightarrow> msrs" where
  "wrmsr msr value m = (let low = ucast (value AND 0xFFFFFFFF) :: u32; high = ucast (drop_bit 32 value) :: u32
     in wrmsr_insn (ucast low) (ucast high) msr m)"

definition rdmsr :: "u64 \<Rightarrow> msrs \<Rightarrow> u64" where
  "rdmsr msr m = (let (low, high) = rdmsr_insn msr m
     in push_bit 32 (ucast (ucast high :: u32)) OR ucast (ucast low :: u32))"

section \<open>Enabling system calls\<close>

definition MSR_STAR :: u64 where "MSR_STAR = 0xC0000081"
definition MSR_LSTAR :: u64 where "MSR_LSTAR = 0xC0000082"
definition MSR_SFMASK :: u64 where "MSR_SFMASK = 0xC0000084"

definition SysCalls_Init :: "u64 \<Rightarrow> msrs \<Rightarrow> msrs" where
  "SysCalls_Init syscall_handler m =
     (let low = syscall_handler AND 0xFFFFFFFF;
          high = drop_bit 32 syscall_handler;
          m1 = wrmsr_insn low high MSR_LSTAR m;
          sysretSelectors = 0x10 :: u32;
          syscallSelectors = 0x20 :: u32;
          m2 = wrmsr_insn 0 (ucast (push_bit 16 sysretSelectors OR syscallSelectors)) MSR_STAR m1;
          m3 = wrmsr_insn 0x3F7FD5 0 MSR_SFMASK m2;
          (low, high) = rdmsr_insn 0xC0000080 m3;
          low = low OR 1
      in wrmsr_insn low high 0xC0000080 m3)"

section \<open>The handler\<close>

definition SyscallHandler :: "u64 \<Rightarrow> SavedRegs \<Rightarrow> sched \<times> console \<Rightarrow> (sched \<times> console) result" where
  "SyscallHandler cur regs = (\<lambda>(s, c).
     if rax regs = 0 then bindE (DeleteCurThread cur s) (\<lambda>s1. Inr (s1, c))
     else if rax regs = 1
     then bindE (Console_printf (c_text ''%c'') [Slot (scast (ucast (rbx regs) :: i32))] c) (\<lambda>(_, c1). Inr (s, c1))
     else Inr (s, c))"

section \<open>The processor's side\<close>

text \<open>The selectors loaded by the \<^verbatim>\<open>syscall\<close> and \<^verbatim>\<open>sysret\<close> instructions from the \<^verbatim>\<open>STAR\<close> register.\<close>

definition syscall_cs :: "u64 \<Rightarrow> u16" where "syscall_cs star = ucast (drop_bit 32 star) AND 0xFFFC"
definition syscall_ss :: "u64 \<Rightarrow> u16" where "syscall_ss star = syscall_cs star + 8"
definition sysret_cs :: "u64 \<Rightarrow> u16" where "sysret_cs star = (ucast (drop_bit 48 star) + 16) OR 3"
definition sysret_ss :: "u64 \<Rightarrow> u16" where "sysret_ss star = (ucast (drop_bit 48 star) + 8) OR 3"

lemma split_join: "(ucast (ucast v :: u32) OR push_bit 32 (ucast (ucast (drop_bit 32 v) :: u32)) :: u64) = v"
proof (rule bit_word_eqI)
  fix n assume "n < LENGTH(64)"
  then show "bit (ucast (ucast v :: u32) OR push_bit 32 (ucast (ucast (drop_bit 32 v) :: u32)) :: u64) n = bit v n"
    by (cases "n < 32") (auto simp: bit_or_iff bit_push_bit_iff bit_unsigned_iff bit_drop_bit_eq dest: high_bits)
qed

lemma ucast_mask: "(ucast (v AND 0xFFFFFFFF :: u64) :: u32) = ucast v"
proof (rule bit_word_eqI)
  have m: "(0xFFFFFFFF :: u64) = mask 32" by (simp add: mask_eq_exp_minus_1)
  fix n assume "n < LENGTH(32)"
  then show "bit (ucast (v AND 0xFFFFFFFF :: u64) :: u32) n = bit (ucast v :: u32) n"
    unfolding m by (simp add: bit_unsigned_iff bit_and_iff bit_mask_iff)
qed

lemma down_up: "(ucast (ucast (w :: u32) :: u64) :: u32) = w"
  by (rule bit_word_eqI) (simp add: bit_unsigned_iff)

lemma down_or: "(ucast (a OR b :: u64) :: u32) = ucast a OR ucast b"
  by (rule bit_word_eqI) (simp add: bit_unsigned_iff bit_or_iff)

lemma wrmsr_eq: "wrmsr msr value m = m(ucast msr := value)"
  by (simp add: wrmsr_def wrmsr_insn_def Let_def down_up ucast_mask split_join)

lemma rdmsr_eq: "rdmsr msr m = m (ucast msr)"
  by (simp add: rdmsr_def rdmsr_insn_def Let_def down_up split_join or.commute)

lemma or_one: "(ucast (ucast v OR 1 :: u32) OR push_bit 32 (ucast (ucast (drop_bit 32 v) :: u32)) :: u64) = v OR 1"
proof -
  have "(ucast (ucast v OR 1 :: u32) :: u64) = 1 OR ucast (ucast v :: u32)"
    by (rule bit_word_eqI) (auto simp: bit_unsigned_iff bit_or_iff bit_1_iff)
  then show ?thesis unfolding or.commute [of v 1] by (simp only: or.assoc split_join)
qed

lemma wrmsr_lstar: "wrmsr_insn (h AND 0xFFFFFFFF) (drop_bit 32 h) MSR_LSTAR n = n(0xC0000082 := h)"
  unfolding wrmsr_insn_def MSR_LSTAR_def ucast_mask split_join by simp

lemma wrmsr_star:
  "wrmsr_insn 0 (ucast (push_bit 16 (0x10 :: u32) OR 0x20 :: u32)) MSR_STAR n = n(0xC0000081 := 0x0010002000000000)"
  unfolding wrmsr_insn_def MSR_STAR_def down_up by (simp add: push_bit_eq_mult)

lemma wrmsr_sfmask: "wrmsr_insn 0x3F7FD5 0 MSR_SFMASK n = n(0xC0000084 := 0x3F7FD5)"
  unfolding wrmsr_insn_def MSR_SFMASK_def by simp

lemma wrmsr_efer:
  "wrmsr_insn (ucast (ucast v :: u32) OR 1) (ucast (ucast (drop_bit 32 v) :: u32)) 0xC0000080 n = n(0xC0000080 := v OR 1)"
proof -
  have "(ucast (1 :: u64) :: u32) = 1" by simp
  then show ?thesis unfolding wrmsr_insn_def down_or down_up by (simp only: or_one) simp
qed

lemma SysCalls_Init_eq:
  "SysCalls_Init h m = m(0xC0000082 := h, 0xC0000081 := 0x0010002000000000, 0xC0000084 := 0x3F7FD5,
     0xC0000080 := m 0xC0000080 OR 1)"
proof -
  have d: "0xC0000080 \<noteq> (0xC0000082 :: u32)" "0xC0000080 \<noteq> (0xC0000081 :: u32)" "0xC0000080 \<noteq> (0xC0000084 :: u32)" by simp_all
  have c: "(ucast (0xC0000080 :: u64) :: u32) = 0xC0000080" by simp
  show ?thesis
    unfolding SysCalls_Init_def Let_def wrmsr_lstar wrmsr_star wrmsr_sfmask rdmsr_insn_def prod.case c wrmsr_efer
    using d by (simp only: fun_upd_apply if_False)
qed

section \<open>The exit call\<close>

text \<open>The current thread marked as not to be run.\<close>

definition stopped :: "sched \<Rightarrow> u64 \<Rightarrow> sched" where
  "stopped s t = s\<lparr>threads := (threads s)(t := map_option (\<lambda>h. h\<lparr>canRun := False\<rparr>) (threads s t))\<rparr>"

lemma stopped_ok: "q_ok s i ts \<Longrightarrow> q_ok (stopped s t) i ts"
proof -
  assume q: "q_ok s i ts"
  have "\<exists>th. threads (stopped s t) (ts ! k) = Some th \<and>
      next_thread th = (if Suc k < length ts then ts ! Suc k else 0)" if "k < length ts" for k
    using q_okD(5) [OF q that] by (auto simp: stopped_def)
  then show ?thesis
    using q_okD(1-4,6-9) [OF q] unfolding q_ok_def by (simp add: stopped_def)
qed

lemma stopped_simps [simp]:
  "runnable (stopped s t) u = (u \<noteq> t \<and> runnable s u)" "cpus (stopped s t) = cpus s"
  "at_index (stopped s t) = at_index s"
  by (auto simp: runnable_def stopped_def at_index_def fun_eq_iff split: option.splits)

lemma DeleteCurThread_eq:
  assumes "q_ok s cur ts" "processor_id (cpus s cur) = cur" "k < length ts" "qcurrent (queue (cpus s cur)) = ts ! k"
  shows "DeleteCurThread cur s = Inr (stopped s (ts ! k))"
proof -
  obtain th where th: "deref s (ts ! k) = Inr th" "threads s (ts ! k) = Some th"
    by (rule deref_queued [OF assms(1,3)])
  show ?thesis
    using q_okD(1) [OF assms(1)] assms(2,4) th
    by (simp add: DeleteCurThread_def cpu_at_def set_thread_def stopped_def)
qed

section \<open>Properties\<close>

text \<open>C30. The exit system call stops the current thread for good: the queue stays well formed, no other
  thread is touched, and the scheduler then picks another thread that can run, or, when there is none,
  never returns.\<close>

theorem exit_stops_thread:
  assumes "q_ok s cur ts" "processor_id (cpus s cur) = cur" "k < length ts" "qcurrent (queue (cpus s cur)) = ts ! k"
    and "rax regs = 0"
  shows "\<exists>s'. SyscallHandler cur regs (s, c) = Inr (s', c) \<and> q_ok s' cur ts \<and>
    runnable s' = (\<lambda>t. t \<noteq> ts ! k \<and> runnable s t) \<and>
    (if \<exists>t \<in> set ts. t \<noteq> ts ! k \<and> runnable s t
     then \<exists>t. GetNextThread s' cur = Some (Inr (t, moved s' cur t)) \<and> t \<in> set ts \<and> t \<noteq> ts ! k \<and> runnable s t
     else GetNextThread s' cur = None)"
proof -
  let ?s = "stopped s (ts ! k)"
  have q: "q_ok ?s cur ts" by (rule stopped_ok [OF assms(1)])
  have i: "at_index ?s cur ts k" using assms(3,4) by (simp add: at_index_def)
  have n: "ts \<noteq> []" using assms(3) by auto
  have "if \<exists>t \<in> set ts. t \<noteq> ts ! k \<and> runnable s t
     then \<exists>t. GetNextThread ?s cur = Some (Inr (t, moved ?s cur t)) \<and> t \<in> set ts \<and> t \<noteq> ts ! k \<and> runnable s t
     else GetNextThread ?s cur = None"
  proof (cases "\<exists>t \<in> set ts. t \<noteq> ts ! k \<and> runnable s t")
    case True
    then have "\<exists>t \<in> set ts. runnable ?s t" by simp
    then obtain j where j: "j > 0" "runnable ?s (ts ! ((k + j) mod length ts))"
      "GetNextThread ?s cur = Some (Inr (ts ! ((k + j) mod length ts), moved ?s cur (ts ! ((k + j) mod length ts))))"
      by (rule GetNextThread_total [OF q i])
    have "ts ! ((k + j) mod length ts) \<in> set ts" using n by simp
    then show ?thesis using True j by auto
  next
    case False
    then have "GetNextThread ?s cur = None" by (intro GetNextThread_diverges [OF q n]) auto
    then show ?thesis using False by simp
  qed
  moreover have "SyscallHandler cur regs (s, c) = Inr (?s, c)"
    using DeleteCurThread_eq [OF assms(1-4)] assms(5) by (simp add: SyscallHandler_def)
  ultimately show ?thesis using q by (intro exI [of _ ?s]) (simp add: fun_eq_iff)
qed

theorem exit_stops_thread_witness:
  "\<exists>s' t. SyscallHandler 0 zero_regs (demo_sched, demo_console) = Inr (s', demo_console) \<and>
    GetNextThread s' 0 = Some (Inr (t, moved s' 0 t)) \<and> t \<noteq> 0x10"
proof -
  have "processor_id (cpus demo_sched 0) = 0" "0 < length [0x10, 0x20, 0x30 :: u64]"
    "qcurrent (queue (cpus demo_sched 0)) = [0x10, 0x20, 0x30] ! 0" "rax zero_regs = 0"
    by (simp_all add: demo_sched_def zero_regs_def)
  from exit_stops_thread [OF demo_q this, of demo_console] show ?thesis
    using demo_runnable(3) by auto
qed

text \<open>The print system call writes its character with the console's lock taken and given back. The
  character is a signed byte that indexes the font, so a user program that passes one from 128 on
  makes the kernel read outside the table.\<close>

theorem print_call:
  assumes "rax regs = 1" "screen_lock c = 0"
  shows "SyscallHandler cur regs (s, c) =
    (if sint (ucast (rbx regs) :: u8) < 0 then Inl OutOfBounds
     else bindE (Console_putc (ucast (rbx regs)) (c\<lparr>screen_lock := 1\<rparr>)) (\<lambda>c1. Inr (s, c1\<lparr>screen_lock := 0\<rparr>)))"
proof -
  have t: "c_text ''%c'' = [37, 99, 0]" by (simp add: c_text_def)
  have u: "(ucast (scast (ucast (rbx regs) :: i32) :: u64) :: u8) = ucast (rbx regs)"
    by (rule bit_word_eqI) (simp add: bit_unsigned_iff bit_signed_iff)
  have neg: "Console_putc ch d = Inl OutOfBounds" if "sint ch < 0" for ch d
  proof -
    have "ch \<noteq> 10" "ch \<noteq> 9" using that by auto
    then show ?thesis using that by (simp add: Console_putc_def Let_def)
  qed
  have "SyscallHandler cur regs (s, c) =
    bindE (Console_putc (ucast (rbx regs)) (c\<lparr>screen_lock := 1\<rparr>)) (\<lambda>c1. Inr (s, c1\<lparr>screen_lock := 0\<rparr>))"
    using assms
    by (simp add: SyscallHandler_def Console_printf_def t screen_acquire_def convert_def u bindE_assoc)
  then show ?thesis using neg by simp
qed

theorem print_call_witness:
  "SyscallHandler 0 (zero_regs\<lparr>rax := 1, rbx := 0xC8\<rparr>) (demo_sched, demo_console) = Inl OutOfBounds"
  using print_call [of "zero_regs\<lparr>rax := 1, rbx := 0xC8\<rparr>" demo_console 0 demo_sched] by (simp add: demo_console_def)

text \<open>\<^verbatim>\<open>SysCalls::Init\<close> points the entry register at the handler, enables the instruction, masks
  interrupts on entry and changes no other register. The selectors it puts into \<^verbatim>\<open>STAR\<close> do not fit the
  segment table: a thread resumed by \<^verbatim>\<open>sysret\<close> runs with the user data selector as its code selector and the
  user code selector as its stack selector, and the kernel entered by \<^verbatim>\<open>syscall\<close> with user data and the
  task state segment; neither pair is one the processor can resume a saved context with.\<close>

theorem syscall_selectors:
  assumes "SetupGdt gdt_at tss_at hhdm i g = Inr g'"
  shows "(let m' = SysCalls_Init handler m; star = rdmsr MSR_STAR m'; ws = gdt_words (gdt g') in
    rdmsr MSR_LSTAR m' = handler \<and> bit (rdmsr 0xC0000080 m') 0 \<and> bit (rdmsr MSR_SFMASK m') 9 \<and>
    (\<forall>r. r \<notin> {0xC0000080, 0xC0000081, 0xC0000082, 0xC0000084} \<longrightarrow> m' r = m r) \<and>
    selector_type ws (sysret_cs star) = Some (Data, 3) \<and> selector_type ws (sysret_ss star) = Some (Code64, 3) \<and>
    selector_type ws (syscall_cs star) = Some (Data, 3) \<and> selector_type ws (syscall_ss star) = Some (Other, 0) \<and>
    \<not> context_loads ws (sysret_cs star) (sysret_ss star) \<and> \<not> context_loads ws (syscall_cs star) (syscall_ss star))"
proof -
  obtain b where g: "gdt g' = fill_gdt b (gdt g)" using SetupGdt_cases [OF assms] by auto
  let ?star = "0x0010002000000000 :: u64"
  have st: "rdmsr MSR_STAR (SysCalls_Init handler m) = ?star" by (simp add: rdmsr_eq SysCalls_Init_eq MSR_STAR_def)
  have sel: "sysret_cs ?star = 0x23" "sysret_ss ?star = 0x1B" "syscall_cs ?star = 0x20" "syscall_ss ?star = 0x28"
    by (simp_all add: sysret_cs_def sysret_ss_def syscall_cs_def syscall_ss_def drop_bit_eq_div)
  have t20: "selector_type (gdt_words (fill_gdt b (gdt g))) 0x20 = Some (Data, 3)"
    using filled_types(4) [of b "gdt g"] by (simp add: selector_type_def Let_def drop_bit_eq_div split: if_splits)
  have r: "rdmsr MSR_LSTAR (SysCalls_Init handler m) = handler" "bit (rdmsr 0xC0000080 (SysCalls_Init handler m)) 0"
    "bit (rdmsr MSR_SFMASK (SysCalls_Init handler m)) 9"
    by (simp_all add: rdmsr_eq SysCalls_Init_eq MSR_LSTAR_def MSR_SFMASK_def bit_or_iff)
  have o: "\<forall>r. r \<notin> {0xC0000080, 0xC0000081, 0xC0000082, 0xC0000084} \<longrightarrow> SysCalls_Init handler m r = m r"
    by (simp add: SysCalls_Init_eq)
  show ?thesis
    unfolding Let_def st sel g
    using r o t20 filled_types(3,4) [of b "gdt g"] tss_descriptor(1) [of b "gdt g"] by (simp add: context_loads_def)
qed

theorem syscall_selectors_witness:
  "\<exists>g'. SetupGdt 0xffffffff80010000 0xffffffff80020000 0 1 demo_gdt = Inr g' \<and>
    selector_type (gdt_words (gdt g')) (sysret_cs (rdmsr MSR_STAR (SysCalls_Init 0xffffffff80005000 (\<lambda>_. 0)))) = Some (Data, 3)"
proof -
  have i: "(1 :: u64) < 256" by simp
  obtain g' where g: "SetupGdt 0xffffffff80010000 0xffffffff80020000 0 1 demo_gdt = Inr g'"
    using SetupGdt_ok [OF demo_gdt_ok i] by metis
  from syscall_selectors [OF this, of "0xffffffff80005000" "\<lambda>_. 0"] show ?thesis
    unfolding Let_def using g by blast
qed

text \<open>What \<^verbatim>\<open>wrmsr\<close> writes, \<^verbatim>\<open>rdmsr\<close> reads back, although both go through two 32-bit halves.\<close>

lemma msr_roundtrip: "rdmsr r (wrmsr r v m) = v"
  by (simp add: rdmsr_eq wrmsr_eq)

end
