(* ===== verification/Entry.thy ===== *)
theory Entry
  imports Syscall
begin

text \<open>
  The assembly entry points: the interrupt stubs of \<^verbatim>\<open>src/src/cpu/idt_asm.asm\<close> and the system call entry of
  \<^verbatim>\<open>src/src/include/cpu/syscall.asm\<close>, as lists of instructions of a small machine with the 64-bit registers
  and byte-addressed memory. The C++ function they call is the argument \<open>call\<close>, a function on the
  machine that stands for the call and its return. What the processor does on an interrupt and for
  \<^verbatim>\<open>syscall\<close>, \<^verbatim>\<open>sysret\<close> and \<^verbatim>\<open>iretq\<close> is written out from the architecture manual.
\<close>

section \<open>The machine\<close>

datatype reg = RAX | RBX | RCX | RDX | RSI | RDI | RBP | RSP | R8 | R9 | R10 | R11 | R12 | R13 | R14 | R15

record mach =
  gpr :: "reg \<Rightarrow> u64"
  m_rip :: u64
  m_cs :: u64
  m_rflags :: u64
  m_ss :: u64
  gs_base :: u64
  kernel_gs_base :: u64
  mstore :: mem

datatype instr = PUSH reg | PUSHI u64 | PUSHGS u64 | POP reg | MOV reg reg | STGS u64 reg | LDGS reg u64
  | ADDI reg u64 | XOR_SELF reg | SWAPGS | CLD | STI | CALL | IRETQ | SYSRET u64

definition push :: "u64 \<Rightarrow> mach \<Rightarrow> mach" where
  "push v m = (let sp = gpr m RSP - 8 in m\<lparr>gpr := (gpr m)(RSP := sp), mstore := st64 (mstore m) sp v\<rparr>)"

fun exec_instr :: "(mach \<Rightarrow> mach) \<Rightarrow> instr \<Rightarrow> mach \<Rightarrow> mach" where
  "exec_instr call (PUSH r) m = push (gpr m r) m"
| "exec_instr call (PUSHI v) m = push v m"
| "exec_instr call (PUSHGS off) m = push (ld64 (mstore m) (gs_base m + off)) m"
| "exec_instr call (POP r) m =
     (let sp = gpr m RSP in m\<lparr>gpr := (gpr m)(RSP := sp + 8, r := ld64 (mstore m) sp)\<rparr>)"
| "exec_instr call (MOV r s) m = m\<lparr>gpr := (gpr m)(r := gpr m s)\<rparr>"
| "exec_instr call (STGS off r) m = m\<lparr>mstore := st64 (mstore m) (gs_base m + off) (gpr m r)\<rparr>"
| "exec_instr call (LDGS r off) m = m\<lparr>gpr := (gpr m)(r := ld64 (mstore m) (gs_base m + off))\<rparr>"
| "exec_instr call (ADDI r v) m = m\<lparr>gpr := (gpr m)(r := gpr m r + v)\<rparr>"
| "exec_instr call (XOR_SELF r) m = m\<lparr>gpr := (gpr m)(r := 0)\<rparr>"
| "exec_instr call SWAPGS m = m\<lparr>gs_base := kernel_gs_base m, kernel_gs_base := gs_base m\<rparr>"
| "exec_instr call CLD m = m\<lparr>m_rflags := m_rflags m AND NOT (push_bit 10 1)\<rparr>"
| "exec_instr call STI m = m\<lparr>m_rflags := m_rflags m OR push_bit 9 1\<rparr>"
| "exec_instr call CALL m = call m"
| "exec_instr call IRETQ m =
     (let sp = gpr m RSP; word = (\<lambda>k. ld64 (mstore m) (sp + 8 * k))
      in m\<lparr>m_rip := word 0, m_cs := word 1, m_rflags := word 2, m_ss := word 4, gpr := (gpr m)(RSP := word 3)\<rparr>)"
| "exec_instr call (SYSRET star) m =
     m\<lparr>m_rip := gpr m RCX, m_rflags := (gpr m R11 AND 0x3C7FD7) OR 2,
       m_cs := ucast (sysret_cs star), m_ss := ucast (sysret_ss star)\<rparr>"

definition exec :: "(mach \<Rightarrow> mach) \<Rightarrow> instr list \<Rightarrow> mach \<Rightarrow> mach" where
  "exec call is m = fold (exec_instr call) is m"

lemma exec_simps [simp]:
  "exec call [] m = m"
  "exec call (i # is) m = exec call is (exec_instr call i m)"
  "exec call (is @ js) m = exec call js (exec call is m)"
  by (simp_all add: exec_def)

section \<open>The interrupt stubs\<close>

definition push_all :: "instr list" where
  "push_all = List.map PUSH [RAX, RBX, RCX, RDX, RSI, RDI, RBP, R8, R9, R10, R11, R12, R13, R14, R15]"

definition pop_all :: "instr list" where
  "pop_all = List.map POP [R15, R14, R13, R12, R11, R10, R9, R8, RBP, RDI, RSI, RDX, RCX, RBX, RAX]"

definition isr_common :: "instr list" where
  "isr_common = push_all @ [MOV RDI RSP, CALL, MOV RSP RAX] @ pop_all @ [ADDI RSP 16, STI, IRETQ]"

definition isr_noerr :: "u64 \<Rightarrow> instr list" where
  "isr_noerr i = [PUSHI 0, PUSHI i, CLD]"

definition isr_err :: "u64 \<Rightarrow> instr list" where
  "isr_err i = [PUSHI i, CLD]"

text \<open>The stub of vector \<open>i\<close>, with the jump at its end followed.\<close>

definition isr :: "u64 \<Rightarrow> instr list" where
  "isr i = (if i = 8 \<or> (i \<ge> 10 \<and> i \<le> 14) \<or> i = 17 \<or> i = 21 \<or> i = 29 \<or> i = 30 then isr_err i else isr_noerr i)
     @ isr_common"

section \<open>The system call entry\<close>

definition syscall_entry :: "u64 \<Rightarrow> instr list" where
  "syscall_entry star =
     [SWAPGS, STGS 0x40 RSP, LDGS RSP 0x30, PUSHI 0x1B, PUSHGS 0x40, SWAPGS, PUSH R11, PUSHI 0x23, PUSH RCX, PUSHI 0]
     @ push_all @ [MOV RDI RSP, XOR_SELF RBP, CALL] @ pop_all
     @ [ADDI RSP 8, POP RCX, ADDI RSP 8, POP R11, POP RSP, SYSRET star]"

section \<open>The frame\<close>

text \<open>The structure \<^verbatim>\<open>SavedRegs\<close> as it lies in memory.\<close>

definition frame_words :: "mem \<Rightarrow> u64 \<Rightarrow> nat \<Rightarrow> u64 list" where
  "frame_words m p n = List.map (\<lambda>k. ld64 m (p + 8 * of_nat k)) [0..<n]"

fun regs_of_words :: "u64 list \<Rightarrow> SavedRegs" where
  "regs_of_words ws =
     \<lparr>r15 = ws ! 0, r14 = ws ! 1, r13 = ws ! 2, r12 = ws ! 3, r11 = ws ! 4, r10 = ws ! 5, r9 = ws ! 6, r8 = ws ! 7,
      rbp = ws ! 8, rdi = ws ! 9, rsi = ws ! 10, rdx = ws ! 11, rcx = ws ! 12, rbx = ws ! 13, rax = ws ! 14,
      int_no = ws ! 15, error_code = ws ! 16, rip = ws ! 17, cs = ws ! 18, rflags = ws ! 19, rsp = ws ! 20, ss = ws ! 21\<rparr>"

definition saved_regs_at :: "mem \<Rightarrow> u64 \<Rightarrow> SavedRegs" where
  "saved_regs_at m p = regs_of_words (frame_words m p 22)"

text \<open>What the machine holds, with a vector and an error code.\<close>

definition context_of :: "mach \<Rightarrow> u64 \<Rightarrow> u64 \<Rightarrow> SavedRegs" where
  "context_of m vec err =
     \<lparr>r15 = gpr m R15, r14 = gpr m R14, r13 = gpr m R13, r12 = gpr m R12, r11 = gpr m R11, r10 = gpr m R10,
      r9 = gpr m R9, r8 = gpr m R8, rbp = gpr m RBP, rdi = gpr m RDI, rsi = gpr m RSI, rdx = gpr m RDX,
      rcx = gpr m RCX, rbx = gpr m RBX, rax = gpr m RAX, int_no = vec, error_code = err,
      rip = m_rip m, cs = m_cs m, rflags = m_rflags m, rsp = gpr m RSP, ss = m_ss m\<rparr>"

section \<open>What the processor does\<close>

definition has_error_code :: "u64 \<Rightarrow> bool" where
  "has_error_code vec \<longleftrightarrow> vec \<in> {8, 10, 11, 12, 13, 14, 17, 21, 29, 30}"

text \<open>Delivery through an interrupt gate to a handler that runs on the stack at \<open>sp\<close>, which the processor aligns.\<close>

definition deliver :: "u64 \<Rightarrow> u64 \<Rightarrow> u64 \<Rightarrow> u64 \<Rightarrow> mach \<Rightarrow> mach" where
  "deliver vec err entry sp m =
     (let m1 = m\<lparr>gpr := (gpr m)(RSP := sp AND NOT 0xF)\<rparr>;
          m2 = fold push ([m_ss m, gpr m RSP, m_rflags m, m_cs m, m_rip m] @ (if has_error_code vec then [err] else [])) m1
      in m2\<lparr>m_rip := entry, m_cs := 0x08, m_rflags := m_rflags m AND NOT (push_bit 9 1)\<rparr>)"

text \<open>The instruction \<^verbatim>\<open>syscall\<close> with the entry point and flag mask of the model specific registers.\<close>

definition syscall_insn :: "msrs \<Rightarrow> mach \<Rightarrow> mach" where
  "syscall_insn r m =
     m\<lparr>gpr := (gpr m)(RCX := m_rip m, R11 := m_rflags m), m_rip := rdmsr MSR_LSTAR r,
       m_rflags := m_rflags m AND NOT (rdmsr MSR_SFMASK r),
       m_cs := ucast (syscall_cs (rdmsr MSR_STAR r)), m_ss := ucast (syscall_ss (rdmsr MSR_STAR r))\<rparr>"

section \<open>Pushing and popping\<close>

fun push_mem :: "mem \<Rightarrow> u64 \<Rightarrow> u64 list \<Rightarrow> mem" where
  "push_mem m sp [] = m"
| "push_mem m sp (v # vs) = push_mem (st64 m (sp - 8) v) (sp - 8) vs"

lemma unat_neg: "unat (x :: u64) \<noteq> 0 \<Longrightarrow> unat (- x) = 2 ^ 64 - unat x"
proof -
  assume x: "unat x \<noteq> 0"
  have m: "(unat (- x) + unat x) mod 2 ^ 64 = 0" using unat_word_ariths(1) [of "- x" x] by simp
  have "2 ^ 64 dvd unat (- x) + unat x" using m by (simp only: mod_eq_0_iff_dvd)
  then obtain q where "unat (- x) + unat x = 2 ^ 64 * q" by (rule dvdE)
  moreover have "unat (- x) + unat x < 2 ^ 64 * 2" using unat_less_u64 [of x] unat_less_u64 [of "- x"] by simp
  ultimately have "q < 2" "unat (- x) + unat x = 2 ^ 64 * q" by simp_all
  then have "q = 0 \<or> q = 1" "unat (- x) + unat x = 2 ^ 64 * q" by auto
  then show ?thesis using x by auto
qed

lemma ld64_push_above:
  assumes "j + length vs < 2 ^ 60"
  shows "ld64 (push_mem m sp vs) (sp + 8 * of_nat j) = ld64 m (sp + 8 * of_nat j)"
  using assms
proof (induction vs arbitrary: m sp j)
  case (Cons v vs)
  have e: "sp + 8 * of_nat j = (sp - 8) + 8 * of_nat (Suc j)" by (simp add: algebra_simps)
  have u: "unat (8 * of_nat (Suc j) :: u64) = 8 * Suc j"
    using Cons.prems by (simp add: unat_word_ariths unsigned_of_nat take_bit_nat_eq_self)
  have d: "8 \<le> unat ((sp - 8) + 8 * of_nat (Suc j) - (sp - 8))" unfolding add_diff_cancel_left' u by simp
  have d': "8 \<le> unat ((sp - 8) - ((sp - 8) + 8 * of_nat (Suc j)))"
  proof -
    have "(sp - 8) - ((sp - 8) + 8 * of_nat (Suc j)) = - (8 * of_nat (Suc j))" by simp
    moreover have "unat (- (8 * of_nat (Suc j)) :: u64) = 2 ^ 64 - 8 * Suc j"
      unfolding u [symmetric] by (rule unat_neg) (use u in simp)
    ultimately show ?thesis using Cons.prems by simp
  qed
  show ?case
    unfolding push_mem.simps e using Cons.IH [of "Suc j" "st64 m (sp - 8) v" "sp - 8"] Cons.prems ld64_st64_other [OF d d'] by simp
qed simp

lemma ld64_push_mem:
  assumes "i < length vs" "length vs < 2 ^ 60"
  shows "ld64 (push_mem m sp vs) (sp - 8 * of_nat (Suc i)) = vs ! i"
  using assms
proof (induction vs arbitrary: m sp i)
  case (Cons v vs)
  show ?case
  proof (cases i)
    case 0
    then show ?thesis
      using ld64_push_above [of 0 vs "st64 m (sp - 8) v" "sp - 8"] Cons.prems by (simp add: ld64_st64)
  next
    case (Suc k)
    then have "ld64 (push_mem (st64 m (sp - 8) v) (sp - 8) vs) ((sp - 8) - 8 * of_nat (Suc k)) = vs ! k"
      using Cons.prems by (intro Cons.IH) simp_all
    moreover have "sp - 8 * of_nat (Suc i) = (sp - 8) - 8 * of_nat (Suc k)" unfolding Suc by (simp add: algebra_simps)
    ultimately show ?thesis by (simp only: push_mem.simps Suc nth_Cons_Suc)
  qed
qed simp

text \<open>The words at the stack pointer after pushing are those pushed, the last one first.\<close>

lemma frame_words_pushed:
  assumes "length vs < 2 ^ 60"
  shows "frame_words (push_mem m sp vs) (sp - 8 * of_nat (length vs)) (length vs) = rev vs"
proof (rule nth_equalityI)
  fix k assume k: "k < length (frame_words (push_mem m sp vs) (sp - 8 * of_nat (length vs)) (length vs))"
  then have k: "k < length vs" by (simp add: frame_words_def)
  define i where "i = length vs - Suc k"
  have i: "i < length vs" "length vs = Suc i + k" using k unfolding i_def by simp_all
  have e: "sp - 8 * of_nat (length vs) + 8 * of_nat k = sp - 8 * of_nat (Suc i)"
    unfolding i(2) by (simp add: algebra_simps)
  have "frame_words (push_mem m sp vs) (sp - 8 * of_nat (length vs)) (length vs) ! k
      = ld64 (push_mem m sp vs) (sp - 8 * of_nat (length vs) + 8 * of_nat k)"
    using k by (simp add: frame_words_def)
  also have "\<dots> = vs ! i" unfolding e by (rule ld64_push_mem [OF i(1) assms])
  also have "\<dots> = rev vs ! k" using k by (simp add: rev_nth i_def)
  finally show "frame_words (push_mem m sp vs) (sp - 8 * of_nat (length vs)) (length vs) ! k = rev vs ! k"
    .
qed (simp add: frame_words_def)

section \<open>Entering and leaving\<close>

text \<open>The machine when the C++ function of an interrupt stub is called, and after the stub.\<close>

definition isr_prologue :: "u64 \<Rightarrow> instr list" where
  "isr_prologue i = takeWhile (\<lambda>k. k \<noteq> CALL) (isr i)"

definition isr_epilogue :: "u64 \<Rightarrow> instr list" where
  "isr_epilogue i = tl (dropWhile (\<lambda>k. k \<noteq> CALL) (isr i))"

lemma isr_split: "isr i = isr_prologue i @ [CALL] @ isr_epilogue i"
  unfolding isr_prologue_def isr_epilogue_def
  by (simp add: isr_def isr_err_def isr_noerr_def isr_common_def push_all_def)

lemma isr_prologue_eq:
  "isr_prologue i = (if has_error_code i then [PUSHI i] else [PUSHI 0, PUSHI i]) @ [CLD] @ push_all @ [MOV RDI RSP]"
proof -
  have "(i \<ge> 10 \<and> i \<le> 14) \<longleftrightarrow> i \<in> {10, 11, 12, 13, 14 :: u64}"
  proof -
    have "(i \<ge> 10 \<and> i \<le> 14) \<longleftrightarrow> 10 \<le> unat i \<and> unat i \<le> 14" by (simp add: word_le_nat_alt)
    also have "\<dots> \<longleftrightarrow> unat i \<in> {10, 11, 12, 13, 14}" by auto
    finally show ?thesis by (simp add: word_unat_eq_iff)
  qed
  then show ?thesis
    unfolding isr_prologue_def isr_def isr_err_def isr_noerr_def isr_common_def push_all_def has_error_code_def by simp
qed

lemma isr_epilogue_eq: "isr_epilogue i = MOV RSP RAX # pop_all @ [ADDI RSP 16, STI, IRETQ]"
  unfolding isr_epilogue_def by (simp add: isr_def isr_err_def isr_noerr_def isr_common_def push_all_def)

definition gprs :: "mach \<Rightarrow> u64 list" where
  "gprs m = List.map (gpr m) [RAX, RBX, RCX, RDX, RSI, RDI, RBP, R8, R9, R10, R11, R12, R13, R14, R15]"

lemma isr_prologue_frame:
  fixes call m vec err entry sp
  defines "m1 \<equiv> exec call (isr_prologue vec) (deliver vec err entry sp m)"
  shows "gpr m1 RDI = gpr m1 RSP"
    "saved_regs_at (mstore m1) (gpr m1 RDI) = context_of m vec (if has_error_code vec then err else 0)"
    "\<not> bit (m_rflags m1) 9"
proof -
  let ?e = "if has_error_code vec then err else 0"
  define vs where "vs = [m_ss m, gpr m RSP, m_rflags m, m_cs m, m_rip m, ?e, vec] @ gprs m"
  have len: "length vs = 22" unfolding vs_def gprs_def by simp
  define a where "a = sp AND NOT 0xF"
  define m0 where "m0 = m\<lparr>gpr := (gpr m)(RSP := a)\<rparr>"
  have "gpr m1 RDI = gpr m1 RSP \<and> gpr m1 RSP = a - 8 * of_nat (length vs) \<and> mstore m1 = push_mem (mstore m) a vs
      \<and> m_rflags m1 = (m_rflags m AND NOT (push_bit 9 1)) AND NOT (push_bit 10 1)"
    unfolding m1_def isr_prologue_eq deliver_def push_all_def vs_def gprs_def a_def [symmetric]
    by (cases "has_error_code vec") (simp_all add: push_def Let_def)
  then have f: "gpr m1 RDI = gpr m1 RSP" "gpr m1 RSP = a - 8 * of_nat (length vs)" "mstore m1 = push_mem (mstore m) a vs"
    "m_rflags m1 = (m_rflags m AND NOT (push_bit 9 1)) AND NOT (push_bit 10 1)" by simp_all
  show "gpr m1 RDI = gpr m1 RSP" by (rule f(1))
  have "frame_words (push_mem (mstore m) a vs) (a - 8 * of_nat (length vs)) (length vs) = rev vs"
    by (rule frame_words_pushed) (simp add: len)
  then show "saved_regs_at (mstore m1) (gpr m1 RDI) = context_of m vec ?e"
    unfolding f saved_regs_at_def len [symmetric] by (simp add: vs_def gprs_def context_of_def)
  show "\<not> bit (m_rflags m1) 9" unfolding f(4) by (simp add: bit_and_iff bit_not_iff bit_push_bit_iff)
qed

lemma frame_word:
  "saved_regs_at m p = regs_of_words (List.map (\<lambda>k. ld64 m (p + k))
     [0, 8, 16, 24, 32, 40, 48, 56, 64, 72, 80, 88, 96, 104, 112, 120, 128, 136, 144, 152, 160, 168])"
  unfolding saved_regs_at_def frame_words_def by (simp add: upt_rec)

lemma isr_epilogue_loads:
  "\<exists>vec err. context_of (exec call (isr_epilogue i) m) vec err = saved_regs_at (mstore m) (gpr m RAX)"
proof -
  let ?w = "\<lambda>k. ld64 (mstore m) (gpr m RAX + k)"
  have "context_of (exec call (isr_epilogue i) m) (?w 120) (?w 128) = saved_regs_at (mstore m) (gpr m RAX)"
    unfolding frame_word isr_epilogue_eq pop_all_def context_of_def by (simp add: Let_def add.commute)
  then show ?thesis by blast
qed

text \<open>C35. Every interrupt stub calls the dispatcher with interrupts off and a pointer to a \<^verbatim>\<open>SavedRegs\<close> that holds exactly the
  interrupted registers, the vector and the error code (0 where the processor pushes none), and when the dispatcher returns a pointer,
  all registers are loaded from the structure there: the interrupted code goes on unchanged when that is the same one, and another
  thread does when it is another.\<close>

theorem interrupt_saves_and_loads:
  "let m1 = exec call (isr_prologue vec) (deliver vec err entry sp m); m2 = call m1;
       m3 = exec call (isr vec) (deliver vec err entry sp m)
   in saved_regs_at (mstore m1) (gpr m1 RDI) = context_of m vec (if has_error_code vec then err else 0) \<and>
      gpr m1 RDI = gpr m1 RSP \<and> \<not> bit (m_rflags m1) 9 \<and>
      (\<exists>v e. context_of m3 v e = saved_regs_at (mstore m2) (gpr m2 RAX))"
  unfolding Let_def
proof (intro conjI)
  show "\<exists>v e. context_of (exec call (isr vec) (deliver vec err entry sp m)) v e =
      saved_regs_at (mstore (call (exec call (isr_prologue vec) (deliver vec err entry sp m))))
        (gpr (call (exec call (isr_prologue vec) (deliver vec err entry sp m))) RAX)"
    unfolding isr_split exec_simps exec_instr.simps by (rule isr_epilogue_loads)
qed (rule isr_prologue_frame)+

section \<open>System calls\<close>

definition syscall_prologue :: "instr list" where
  "syscall_prologue = takeWhile (\<lambda>k. k \<noteq> CALL) (syscall_entry 0)"

lemma syscall_prologue_eq:
  "syscall_prologue =
     [SWAPGS, STGS 0x40 RSP, LDGS RSP 0x30, PUSHI 0x1B, PUSHGS 0x40, SWAPGS, PUSH R11, PUSHI 0x23, PUSH RCX, PUSHI 0]
     @ push_all @ [MOV RDI RSP, XOR_SELF RBP]"
  unfolding syscall_prologue_def syscall_entry_def push_all_def by simp

lemma syscall_split:
  "syscall_entry star = syscall_prologue @ [CALL] @ pop_all
     @ [ADDI RSP 8, POP RCX, ADDI RSP 8, POP R11, POP RSP, SYSRET star]"
  unfolding syscall_prologue_eq unfolding syscall_entry_def by simp

text \<open>The kernel stack of the processor's record lies apart from its scratch word.\<close>

definition stack_apart :: "mach \<Rightarrow> bool" where
  "stack_apart m \<longleftrightarrow> (let k = ld64 (mstore m) (kernel_gs_base m + 0x30); s = kernel_gs_base m + 0x40
     in 8 \<le> unat (s - (k - 8)) \<and> 8 \<le> unat (k - 8 - s))"

text \<open>The C++ handler returns with the stack pointer and the segment bases as they were and leaves the frame alone.\<close>

definition returns_to :: "(mach \<Rightarrow> mach) \<Rightarrow> mach \<Rightarrow> bool" where
  "returns_to call m \<longleftrightarrow> gpr (call m) RSP = gpr m RSP \<and> gs_base (call m) = gs_base m \<and>
     kernel_gs_base (call m) = kernel_gs_base m \<and>
     frame_words (mstore (call m)) (gpr m RSP) 21 = frame_words (mstore m) (gpr m RSP) 21"

lemma syscall_prologue_frame:
  fixes call m
  defines "m1 \<equiv> exec call syscall_prologue m"
  assumes a: "stack_apart m"
  shows "gpr m1 RDI = gpr m1 RSP"
    "frame_words (mstore m1) (gpr m1 RSP) 21 =
       [gpr m R15, gpr m R14, gpr m R13, gpr m R12, gpr m R11, gpr m R10, gpr m R9, gpr m R8, gpr m RBP, gpr m RDI,
        gpr m RSI, gpr m RDX, gpr m RCX, gpr m RBX, gpr m RAX, 0, gpr m RCX, 0x23, gpr m R11, gpr m RSP, 0x1B]"
    "gs_base m1 = gs_base m" "kernel_gs_base m1 = kernel_gs_base m"
proof -
  define k where "k = ld64 (mstore m) (kernel_gs_base m + 0x30)"
  define s where "s = kernel_gs_base m + 0x40"
  define st where "st = st64 (mstore m) s (gpr m RSP)"
  define vs where "vs = [0x1B, gpr m RSP, gpr m R11, 0x23, gpr m RCX, 0] @ gprs m"
  have len: "length vs = 21" unfolding vs_def gprs_def by simp
  have k1: "ld64 st (kernel_gs_base m + 0x30) = k"
    unfolding st_def k_def by (rule ld64_st64_other) (simp_all add: s_def)
  have s1: "ld64 (st64 st (k - 8) 0x1B) s = gpr m RSP"
    using a unfolding stack_apart_def Let_def k_def [symmetric] s_def [symmetric] st_def
    by (simp add: ld64_st64_other ld64_st64)
  have "gpr m1 RDI = gpr m1 RSP \<and> gpr m1 RSP = k - 8 * of_nat (length vs) \<and> mstore m1 = push_mem st k vs \<and>
      gs_base m1 = gs_base m \<and> kernel_gs_base m1 = kernel_gs_base m"
    unfolding m1_def syscall_prologue_eq push_all_def vs_def gprs_def
    by (simp add: push_def Let_def k1 s1 st_def [symmetric] s_def [symmetric])
  then have f: "gpr m1 RDI = gpr m1 RSP" "gpr m1 RSP = k - 8 * of_nat (length vs)" "mstore m1 = push_mem st k vs"
      "gs_base m1 = gs_base m" "kernel_gs_base m1 = kernel_gs_base m" by simp_all
  show "gpr m1 RDI = gpr m1 RSP" "gs_base m1 = gs_base m" "kernel_gs_base m1 = kernel_gs_base m" by (rule f)+
  have "frame_words (push_mem st k vs) (k - 8 * of_nat (length vs)) (length vs) = rev vs"
    by (rule frame_words_pushed) (simp add: len)
  then show "frame_words (mstore m1) (gpr m1 RSP) 21 =
       [gpr m R15, gpr m R14, gpr m R13, gpr m R12, gpr m R11, gpr m R10, gpr m R9, gpr m R8, gpr m RBP, gpr m RDI,
        gpr m RSI, gpr m RDX, gpr m RCX, gpr m RBX, gpr m RAX, 0, gpr m RCX, 0x23, gpr m R11, gpr m RSP, 0x1B]"
    unfolding f len by (simp add: vs_def gprs_def)
qed

lemma syscall_epilogue_loads:
  assumes w: "frame_words (mstore m) (gpr m RSP) 21 = [a15, a14, a13, a12, a11, a10, a9, a8, abp, adi, asi, adx, acx, abx, aax,
    z, urip, c, ufl, usp, d]"
  shows "\<exists>g. exec call (pop_all @ [ADDI RSP 8, POP RCX, ADDI RSP 8, POP R11, POP RSP, SYSRET star]) m =
    m\<lparr>gpr := g, m_rip := urip, m_rflags := (ufl AND 0x3C7FD7) OR 2, m_cs := ucast (sysret_cs star), m_ss := ucast (sysret_ss star)\<rparr> \<and>
    g R15 = a15 \<and> g R14 = a14 \<and> g R13 = a13 \<and> g R12 = a12 \<and> g R11 = ufl \<and> g R10 = a10 \<and> g R9 = a9 \<and> g R8 = a8 \<and>
    g RBP = abp \<and> g RDI = adi \<and> g RSI = asi \<and> g RDX = adx \<and> g RCX = urip \<and> g RBX = abx \<and> g RAX = aax \<and> g RSP = usp"
proof -
  have "frame_words (mstore m) (gpr m RSP) 21 = List.map (\<lambda>k. ld64 (mstore m) (gpr m RSP + k))
     [0, 8, 16, 24, 32, 40, 48, 56, 64, 72, 80, 88, 96, 104, 112, 120, 128, 136, 144, 152, 160]"
    unfolding frame_words_def by (simp add: upt_rec)
  with w show ?thesis
    unfolding pop_all_def
    by (intro exI [of _ "(gpr m)(R15 := a15, R14 := a14, R13 := a13, R12 := a12, R10 := a10, R9 := a9, R8 := a8, RBP := abp,
      RDI := adi, RSI := asi, RDX := adx, RBX := abx, RAX := aax, RCX := urip, R11 := ufl, RSP := usp)"])
      (simp add: Let_def add.commute)
qed

lemma syscall_frame_regs:
  assumes f: "frame_words st p 21 = [gpr m R15, gpr m R14, gpr m R13, gpr m R12, gpr m R11,
      gpr m R10, gpr m R9, gpr m R8, gpr m RBP, gpr m RDI, gpr m RSI, gpr m RDX, gpr m RCX, gpr m RBX, gpr m RAX, 0,
      gpr m RCX, 0x23, gpr m R11, gpr m RSP, 0x1B]"
  shows "rax (saved_regs_at st p) = gpr m RAX \<and> rbx (saved_regs_at st p) = gpr m RBX \<and>
    error_code (saved_regs_at st p) = gpr m RCX \<and> cs (saved_regs_at st p) = gpr m R11 \<and>
    rflags (saved_regs_at st p) = gpr m RSP"
proof -
  have "frame_words st p 22 = frame_words st p 21 @ [ld64 st (p + 168)]"
    unfolding frame_words_def by (simp add: upt_rec)
  then show ?thesis unfolding saved_regs_at_def f by simp
qed

lemma syscall_epilogue_restores:
  assumes w: "frame_words (mstore m) (gpr m RSP) 21 = [gpr b R15, gpr b R14, gpr b R13, gpr b R12, gpr b R11,
      gpr b R10, gpr b R9, gpr b R8, gpr b RBP, gpr b RDI, gpr b RSI, gpr b RDX, gpr b RCX, gpr b RBX, gpr b RAX, z,
      gpr b RCX, c, gpr b R11, gpr b RSP, d]"
    and e: "m' = exec call (pop_all @ [ADDI RSP 8, POP RCX, ADDI RSP 8, POP R11, POP RSP, SYSRET star]) m"
  shows "(\<forall>q. q \<noteq> RCX \<longrightarrow> q \<noteq> R11 \<longrightarrow> gpr m' q = gpr b q) \<and> m_rip m' = gpr b RCX \<and>
    m_rflags m' = (gpr b R11 AND 0x3C7FD7) OR 2 \<and> gs_base m' = gs_base m \<and> kernel_gs_base m' = kernel_gs_base m"
proof -
  obtain g where g: "m' = m\<lparr>gpr := g, m_rip := gpr b RCX, m_rflags := (gpr b R11 AND 0x3C7FD7) OR 2,
      m_cs := ucast (sysret_cs star), m_ss := ucast (sysret_ss star)\<rparr>"
    and v: "g R15 = gpr b R15" "g R14 = gpr b R14" "g R13 = gpr b R13" "g R12 = gpr b R12" "g R10 = gpr b R10"
      "g R9 = gpr b R9" "g R8 = gpr b R8" "g RBP = gpr b RBP" "g RDI = gpr b RDI" "g RSI = gpr b RSI" "g RDX = gpr b RDX"
      "g RBX = gpr b RBX" "g RAX = gpr b RAX" "g RSP = gpr b RSP"
    using syscall_epilogue_loads [OF w, of call star] unfolding e by blast
  have "g q = gpr b q" if "q \<noteq> RCX" "q \<noteq> R11" for q using that v by (cases q) simp_all
  then show ?thesis unfolding g by simp
qed

text \<open>C36. A system call whose handler returns resumes the user program behind the instruction: with its stack, its flags save
  those \<^verbatim>\<open>sysret\<close> clears, and every register but the two the instruction itself overwrites; \<^verbatim>\<open>rax\<close> too is the one it was called with,
  so no call hands a result back. The structure the handler is given is one word short: from \<^verbatim>\<open>error_code\<close> on every
  field holds what belongs to a later one.\<close>

theorem syscall_roundtrip:
  assumes a: "stack_apart m" and c: "returns_to call (exec call syscall_prologue (syscall_insn r m))"
  shows "let m1 = exec call syscall_prologue (syscall_insn r m); f = saved_regs_at (mstore m1) (gpr m1 RDI);
      m' = exec call (syscall_entry star) (syscall_insn r m) in
    rax f = gpr m RAX \<and> rbx f = gpr m RBX \<and> error_code f = m_rip m \<and> cs f = m_rflags m \<and> rflags f = gpr m RSP \<and>
    (\<forall>q. q \<noteq> RCX \<longrightarrow> q \<noteq> R11 \<longrightarrow> gpr m' q = gpr m q) \<and> m_rip m' = m_rip m \<and>
    m_rflags m' = (m_rflags m AND 0x3C7FD7) OR 2 \<and> gs_base m' = gs_base m \<and> kernel_gs_base m' = kernel_gs_base m"
proof -
  define m0 where "m0 = syscall_insn r m"
  have a0: "stack_apart m0" using a unfolding m0_def syscall_insn_def stack_apart_def by simp
  have g0: "gpr m0 RCX = m_rip m" "gpr m0 R11 = m_rflags m" "gs_base m0 = gs_base m" "kernel_gs_base m0 = kernel_gs_base m"
    and g1: "q \<noteq> RCX \<Longrightarrow> q \<noteq> R11 \<Longrightarrow> gpr m0 q = gpr m q" for q
    unfolding m0_def syscall_insn_def by simp_all
  define m1 where "m1 = exec call syscall_prologue m0"
  note f = syscall_prologue_frame [OF a0, where call = call, folded m1_def]
  have ret: "gpr (call m1) RSP = gpr m1 RSP" "gs_base (call m1) = gs_base m1" "kernel_gs_base (call m1) = kernel_gs_base m1"
      "frame_words (mstore (call m1)) (gpr m1 RSP) 21 = frame_words (mstore m1) (gpr m1 RSP) 21"
    using c unfolding returns_to_def m0_def [symmetric] m1_def [symmetric] by simp_all
  define m' where "m' = exec call (syscall_entry star) m0"
  have m': "m' = exec call (pop_all @ [ADDI RSP 8, POP RCX, ADDI RSP 8, POP R11, POP RSP, SYSRET star]) (call m1)"
    unfolding m'_def m1_def syscall_split exec_simps exec_instr.simps ..
  have w: "frame_words (mstore (call m1)) (gpr (call m1) RSP) 21 = frame_words (mstore m1) (gpr m1 RSP) 21"
    using ret by simp
  show ?thesis
    unfolding Let_def m0_def [symmetric] m1_def [symmetric] m'_def [symmetric]
    using syscall_frame_regs [OF f(2)] syscall_epilogue_restores [OF w [unfolded f(2)] m'] ret f(1,3,4) g0 g1 by simp
qed

definition demo_mach :: mach where
  "demo_mach = \<lparr>gpr = (\<lambda>r. if r = RSP then 0x7000 else 1), m_rip = 0x400000, m_cs = 0x23, m_rflags = 0x202, m_ss = 0x1B,
     gs_base = 0, kernel_gs_base = 0x9000, mstore = st64 (\<lambda>_. 0) 0x9030 0x8000\<rparr>"

theorem syscall_roundtrip_witness:
  "gpr (exec (\<lambda>x. x) (syscall_entry 0) (syscall_insn (\<lambda>_. 0) demo_mach)) RSP = 0x7000"
proof -
  have "stack_apart demo_mach" unfolding stack_apart_def Let_def by (simp add: demo_mach_def ld64_st64)
  moreover have "returns_to (\<lambda>x. x) (exec (\<lambda>x. x) syscall_prologue (syscall_insn (\<lambda>_. 0) demo_mach))"
    unfolding returns_to_def by simp
  ultimately show ?thesis
    using syscall_roundtrip [of demo_mach "\<lambda>x. x" "\<lambda>_. 0" 0] unfolding Let_def by (simp add: demo_mach_def)
qed

end
