(* ===== verification/User.thy ===== *)
theory User
  imports Entry
begin

text \<open>
  The user mode side: the library \<^verbatim>\<open>src/lib\<close> (\<^verbatim>\<open>syscall.h\<close>, \<^verbatim>\<open>printf.c\<close>, \<^verbatim>\<open>crt0.asm\<close>) and the test program
  \<^verbatim>\<open>src/umode/test.c\<close> the kernel loads at boot. The kernel is a function from the registers rax and rbx of a
  system call to the rax it returns and its new state; \<open>kernel_call\<close> is the one with this kernel's handler.
\<close>

section \<open>The library\<close>

type_synonym 'k os = "u64 \<Rightarrow> u64 \<Rightarrow> 'k \<Rightarrow> (u64 \<times> 'k) result"

definition syscall1 :: "'k os \<Rightarrow> u64 \<Rightarrow> u64 \<Rightarrow> 'k \<Rightarrow> (u64 \<times> 'k) result" where
  "syscall1 osc num arg0 k = osc num arg0 k"

text \<open>\<^verbatim>\<open>putc\<close>: the signed character is extended to the argument's width.\<close>

definition user_putc :: "'k os \<Rightarrow> u8 \<Rightarrow> 'k \<Rightarrow> 'k result" where
  "user_putc osc c k = bindE (syscall1 osc 0x1 (scast c) k) (\<lambda>(_, k1). Inr k1)"

text \<open>\<^verbatim>\<open>puts\<close>: the string is the bytes from its address on; running out of them is an access out of bounds.\<close>

fun user_puts :: "'k os \<Rightarrow> u8 list \<Rightarrow> 'k \<Rightarrow> 'k result" where
  "user_puts osc [] k = Inl OutOfBounds"
| "user_puts osc (c # str) k =
     (if c = 0 then Inr k else bindE (user_putc osc c k) (user_puts osc str))"

section \<open>The program\<close>

definition hello :: "u8 list" where
  "hello = c_text (''Hello umode world!'' @ [CHR 0x0A])"

definition user_main :: "'k os \<Rightarrow> 'k \<Rightarrow> (i32 \<times> 'k) result" where
  "user_main osc k = bindE (user_puts osc hello k) (\<lambda>k1. Inr (0, k1))"

text \<open>\<^verbatim>\<open>_start\<close> up to its last loop, which only pauses; \<open>b\<close> is what \<^verbatim>\<open>main\<close> leaves in the register rbx.\<close>

definition user_start :: "'k os \<Rightarrow> u64 \<Rightarrow> 'k \<Rightarrow> 'k result" where
  "user_start osc b k =
     bindE (user_main osc k) (\<lambda>(_, k1). bindE (osc 0 b k1) (\<lambda>(_, k2). Inr k2))"

section \<open>This kernel\<close>

text \<open>
  The entry saves the registers into the frame the handler reads and restores rax from it, as
  \<^verbatim>\<open>Entry.syscall_roundtrip\<close> shows, so a call returns its own number.
\<close>

definition kernel_call :: "u64 \<Rightarrow> (sched \<times> console) os" where
  "kernel_call cur num arg k = bindE (SyscallHandler cur (zero_regs\<lparr>rax := num, rbx := arg\<rparr>) k) (\<lambda>k1. Inr (num, k1))"

section \<open>Printing\<close>

lemma u8_up_down: "(ucast (scast (ch :: u8) :: u64) :: u8) = ch"
  by (rule bit_word_eqI) (simp add: bit_unsigned_iff bit_signed_iff)

text \<open>A print call of a character below 128 writes it with the lock taken and given back.\<close>

lemma kernel_putc:
  assumes ch: "unat ch < 128" and l: "screen_lock c = 0"
  shows "user_putc (kernel_call cur) ch (s, c) =
    bindE (Console_putc ch (c\<lparr>screen_lock := 1\<rparr>)) (\<lambda>c1. Inr (s, c1\<lparr>screen_lock := 0\<rparr>))"
  unfolding user_putc_def syscall1_def kernel_call_def
  using print_call [of "zero_regs\<lparr>rax := 1, rbx := scast ch\<rparr>" c cur s] l not_sint_neg [OF ch]
  by (simp add: u8_up_down bindE_assoc)

lemma kernel_putc_printable:
  assumes ch: "unat ch < 128" "ch \<noteq> 9" "ch \<noteq> 10" and l: "screen_lock c = 0" and X: "cursor_x c = of_nat X" "cursor_y c = of_nat Y"
    and on: "on_screen (chosen_fb c) (8 * X + 7) (8 * Y + 7)" "Suc X < unat (fb_width (chosen_fb c))"
  shows "\<exists>px. user_putc (kernel_call cur) ch (s, c) =
    Inr (s, c\<lparr>ports := ports c @ [(PORT_COM0, ch)], pixels := px, cursor_x := of_nat (Suc X)\<rparr>)"
proof -
  let ?c = "c\<lparr>screen_lock := 1\<rparr>"
  have "cursor_x ?c = of_nat X" "cursor_y ?c = of_nat Y" "on_screen (chosen_fb ?c) (8 * X + 7) (8 * Y + 7)" using X on by simp_all
  from putc_on_screen [OF ch this] on(2) obtain px where "Console_putc ch ?c = Inr (?c\<lparr>ports := ports ?c @ [(PORT_COM0, ch)],
      pixels := px, cursor_x := of_nat (Suc X), cursor_y := of_nat Y\<rparr>)" by auto
  then have "user_putc (kernel_call cur) ch (s, c) = Inr (s, ?c\<lparr>ports := ports ?c @ [(PORT_COM0, ch)],
      pixels := px, cursor_x := of_nat (Suc X), cursor_y := of_nat Y, screen_lock := 0\<rparr>)"
    unfolding kernel_putc [OF ch(1) l] by simp
  moreover have "?c\<lparr>ports := ports ?c @ [(PORT_COM0, ch)], pixels := px, cursor_x := of_nat (Suc X), cursor_y := of_nat Y, screen_lock := 0\<rparr>
      = c\<lparr>ports := ports c @ [(PORT_COM0, ch)], pixels := px, cursor_x := of_nat (Suc X)\<rparr>"
    using l X(2) by (cases c) simp
  ultimately show ?thesis by auto
qed

lemma user_puts_printable:
  assumes "\<forall>ch \<in> set str. unat ch < 128 \<and> ch \<noteq> 0 \<and> ch \<noteq> 9 \<and> ch \<noteq> 10" and "screen_lock c = 0"
    and "cursor_x c = of_nat X" "cursor_y c = of_nat Y"
    and "on_screen (chosen_fb c) (8 * (X + length str)) (8 * Y + 7)" "X + length str < unat (fb_width (chosen_fb c))"
  shows "\<exists>px. user_puts (kernel_call cur) (str @ rest) (s, c) = user_puts (kernel_call cur) rest
    (s, c\<lparr>ports := ports c @ List.map (Pair PORT_COM0) str, pixels := px, cursor_x := of_nat (X + length str)\<rparr>)"
  using assms
proof (induction str arbitrary: c X)
  case Nil
  then have "c = c\<lparr>ports := ports c @ List.map (Pair PORT_COM0) [], pixels := pixels c, cursor_x := of_nat (X + length [])\<rparr>"
    by (cases c) simp
  then show ?case by (metis append_Nil)
next
  case (Cons ch str)
  have ch: "unat ch < 128" "ch \<noteq> 9" "ch \<noteq> 10" "ch \<noteq> 0" using Cons.prems(1) by simp_all
  have on: "on_screen (chosen_fb c) (8 * X + 7) (8 * Y + 7)" using Cons.prems(5) unfolding on_screen_def by simp
  have w: "Suc X < unat (fb_width (chosen_fb c))" using Cons.prems(6) by simp
  obtain px where px: "user_putc (kernel_call cur) ch (s, c) =
    Inr (s, c\<lparr>ports := ports c @ [(PORT_COM0, ch)], pixels := px, cursor_x := of_nat (Suc X)\<rparr>)"
    using kernel_putc_printable [OF ch(1,2,3) Cons.prems(2,3,4) on w] by blast
  let ?c = "c\<lparr>ports := ports c @ [(PORT_COM0, ch)], pixels := px, cursor_x := of_nat (Suc X)\<rparr>"
  have "\<forall>ch \<in> set str. unat ch < 128 \<and> ch \<noteq> 0 \<and> ch \<noteq> 9 \<and> ch \<noteq> 10" "screen_lock ?c = 0" "cursor_x ?c = of_nat (Suc X)"
    "cursor_y ?c = of_nat Y" "on_screen (chosen_fb ?c) (8 * (Suc X + length str)) (8 * Y + 7)"
    "Suc X + length str < unat (fb_width (chosen_fb ?c))"
    using Cons.prems by simp_all
  from Cons.IH [OF this] obtain px' where "user_puts (kernel_call cur) (str @ rest) (s, ?c) = user_puts (kernel_call cur) rest
    (s, ?c\<lparr>ports := ports ?c @ List.map (Pair PORT_COM0) str, pixels := px', cursor_x := of_nat (Suc X + length str)\<rparr>)" by blast
  then show ?case using px ch(4) by (intro exI [of _ px']) simp
qed

lemma kernel_exit:
  assumes "q_ok s cur ts" "processor_id (cpus s cur) = cur" "k < length ts" "qcurrent (queue (cpus s cur)) = ts ! k"
  shows "kernel_call cur 0 b (s, c) = Inr (0, stopped s (ts ! k), c)"
  unfolding kernel_call_def SyscallHandler_def using DeleteCurThread_eq [OF assms] by simp

lemma hello_eq:
  "hello = [72, 101, 108, 108, 111, 32, 117, 109, 111, 100, 101, 32, 119, 111, 114, 108, 100, 33] @ [10, 0]"
  unfolding hello_def c_text_def by code_simp

definition hello_line :: "u8 list" where
  "hello_line = [72, 101, 108, 108, 111, 32, 117, 109, 111, 100, 101, 32, 119, 111, 114, 108, 100, 33]"

lemma hello_text: "hello = hello_line @ [10, 0]" "length hello_line = 18" "butlast hello = hello_line @ [10]"
  "\<forall>ch \<in> set hello_line. unat ch < 128 \<and> ch \<noteq> 0 \<and> ch \<noteq> 9 \<and> ch \<noteq> 10"
  unfolding hello_eq hello_line_def by (simp_all add: butlast_append)

section \<open>Properties\<close>


definition wide_console :: console where
  "wide_console = \<lparr>ports = [], cursor_x = 0, cursor_y = 0, pixels = \<lambda>_. 0,
     chosen_fb = \<lparr>fb_width = 640, fb_height = 480, fb_pitch = 2560, red_mask_shift = 16,
       green_mask_shift = 8, blue_mask_shift = 0\<rparr>, screen_lock = 0\<rparr>"


end
