(* ===== verification/Acpi.thy ===== *)
theory Acpi
  imports Memory CString
begin

text \<open>
  The firmware tables, \<^verbatim>\<open>src/src/dev/acpi.cpp\<close> with \<^verbatim>\<open>src/src/include/dev/acpi.h\<close>: finding a table by its
  signature and reading the interrupt source overrides out of the MADT. Tables lie in memory; \<open>hhdm\<close>
  is the offset of the direct map. \<^verbatim>\<open>gsis\<close> is the array of 256 entries, filled from the front.
\<close>

section \<open>Data\<close>

record GSIRedirect =
  irq_source :: u8
  gsi_source :: u32

record acpi =
  rsdt :: u64
  lapic_addr :: u32
  gsis :: "GSIRedirect list"
  numGSIs :: u64

text \<open>The offsets of the header's fields, of the pointers behind it, and the header's size.\<close>

definition bytes_of :: "mem \<Rightarrow> u64 \<Rightarrow> nat \<Rightarrow> u8 list" where
  "bytes_of m a n = map (\<lambda>k. m (a + of_nat k)) [0..<n]"

definition SDTHdr_len :: "mem \<Rightarrow> u64 \<Rightarrow> u32" where
  "SDTHdr_len m hdr = ld32 m (hdr + 4)"

definition sizeof_SDTHdr :: u64 where "sizeof_SDTHdr = 36"

section \<open>Finding a table\<close>

function find_table_loop :: "mem \<Rightarrow> u64 \<Rightarrow> u64 \<Rightarrow> u8 list \<Rightarrow> u64 \<Rightarrow> u64 \<Rightarrow> u64 result" where
  "find_table_loop m hhdm r sig i n =
     (if i < n
      then let hdr = ucast (ld32 m (r + sizeof_SDTHdr + 4 * i)) + hhdm
           in bindE (strncmp (bytes_of m hdr 4) sig 4) (\<lambda>d.
              if d = 0 then Inr hdr else find_table_loop m hhdm r sig (i + 1) n)
      else Inr 0)"
  by pat_completeness auto
termination
  by (relation "measure (\<lambda>(m, hhdm, r, sig, i, n). unat n - unat i)")
    (auto simp: unat_plus1 word_less_nat_alt)

declare find_table_loop.simps [simp del]

definition FindTable :: "mem \<Rightarrow> u64 \<Rightarrow> u64 \<Rightarrow> u8 list \<Rightarrow> u64 result" where
  "FindTable m hhdm r sig =
     find_table_loop m hhdm r sig 0 ((ucast (SDTHdr_len m r) - sizeof_SDTHdr) div 4)"

section \<open>Reading the MADT\<close>

definition add_gsi :: "GSIRedirect \<Rightarrow> acpi \<Rightarrow> acpi result" where
  "add_gsi g s = (if numGSIs s < 256
     then Inr (s\<lparr>gsis := (gsis s)[unat (numGSIs s) := g], numGSIs := numGSIs s + 1\<rparr>)
     else Inl OutOfBounds)"

text \<open>
  One entry of the MADT. Entries of types 0 and 1 are read into variables that are not used.
\<close>

definition parse_entry :: "mem \<Rightarrow> u64 \<Rightarrow> u64 \<Rightarrow> acpi \<Rightarrow> acpi result" where
  "parse_entry m addr pos s =
     (let entryType = m (addr + pos)
      in if entryType = 2
         then let irq = m (addr + pos + 3); gsi = ld32 m (addr + pos + 4)
              in add_gsi \<lparr>irq_source = irq, gsi_source = gsi\<rparr> s
         else Inr s)"

text \<open>
  The loop. An entry of length 0 leaves \<open>pos\<close> where it is: unless the entry is an override, which
  fills the array until it overflows, nothing changes and the loop never ends.
\<close>

function parse_loop :: "mem \<Rightarrow> u64 \<Rightarrow> u64 \<Rightarrow> acpi \<Rightarrow> acpi result" where
  "parse_loop m addr pos s =
     (if pos < ucast (SDTHdr_len m addr)
      then let recordLen = m (addr + pos + 1)
           in bindE (parse_entry m addr pos s) (\<lambda>s1.
              if recordLen = 0 \<and> m (addr + pos) \<noteq> 2 then Inl Diverges
              else parse_loop m addr (pos + ucast recordLen) s1)
      else Inr s)"
  by pat_completeness auto
termination
proof (relation "measures [\<lambda>(m, addr, pos, s). unat (SDTHdr_len m addr) - unat pos,
    \<lambda>(m, addr, pos, s). 256 - unat (numGSIs s)]")
  fix m addr pos s l s1
  assume a: "pos < ucast (SDTHdr_len m addr)" "l = m (addr + pos + 1)" "parse_entry m addr pos s = Inr s1"
    "\<not> (l = 0 \<and> m (addr + pos) \<noteq> 2)"
  have u: "unat (ucast (SDTHdr_len m addr) :: u64) = unat (SDTHdr_len m addr)" by (rule unat_ucast_up)
  have lt: "unat pos < unat (SDTHdr_len m addr)" using a(1) u by (simp add: word_less_nat_alt)
  show "((m, addr, pos + ucast l, s1), m, addr, pos, s) \<in> measures
     [\<lambda>(m, addr, pos, s). unat (SDTHdr_len m addr) - unat pos,
      \<lambda>(m, addr, pos, s). 256 - unat (numGSIs s)]"
  proof (cases "l = 0")
    case True
    then have "numGSIs s < 256" "numGSIs s1 = numGSIs s + 1"
      using a(3,4) by (auto simp: parse_entry_def add_gsi_def split: if_splits)
    moreover from this(1) have "unat (numGSIs s) < 256" "unat (numGSIs s + 1) = Suc (unat (numGSIs s))"
      by (simp_all add: word_less_nat_alt unat_plus1 [of _ 256])
    ultimately show ?thesis using True by simp
  next
    case False
    then have "0 < unat l" by (simp add: unat_gt_0)
    moreover have "unat (ucast l :: u64) = unat l" "unat l < 256" by (rule unat_ucast8) (rule unat_less_u8)
    moreover have "unat (pos + ucast l) = unat pos + unat l"
      using calculation lt unat_less_u32 [of "SDTHdr_len m addr"] by (simp add: unat_add_nowrap)
    ultimately have "unat (SDTHdr_len m addr) - unat (pos + ucast l) < unat (SDTHdr_len m addr) - unat pos"
      using lt by linarith
    then show ?thesis by simp
  qed
qed auto

declare parse_loop.simps [simp del]

definition ParseAPIC :: "mem \<Rightarrow> u64 \<Rightarrow> acpi \<Rightarrow> acpi result" where
  "ParseAPIC m hhdm s =
     bindE (FindTable m hhdm (rsdt s) (map of_char ''APIC'' @ [0])) (\<lambda>addr.
     if addr = 0 then Inr s
     else parse_loop m addr 0x2C (s\<lparr>lapic_addr := ld32 m (addr + 0x24)\<rparr>))"

definition ParseTables :: "mem \<Rightarrow> u64 \<Rightarrow> u64 \<Rightarrow> acpi \<Rightarrow> acpi result" where
  "ParseTables m hhdm rsdp_ptr s =
     bindE (strncmp (bytes_of m rsdp_ptr 8) (map of_char ''RSD PTR '' @ [0]) 8) (\<lambda>d.
     if d \<noteq> 0 then Inl Halted
     else ParseAPIC m hhdm (s\<lparr>rsdt := ucast (ld32 m (rsdp_ptr + 16)) + hhdm\<rparr>))"

section \<open>The tables searched\<close>

lemma strncmp_long: "n \<le> length s1 \<Longrightarrow> n \<le> length s2 \<Longrightarrow> \<exists>d. strncmp s1 s2 n = Inr d"
proof (induction n arbitrary: s1 s2)
  case (Suc n)
  then show ?case by (cases s1; cases s2) auto
qed simp

definition table_at :: "mem \<Rightarrow> u64 \<Rightarrow> u64 \<Rightarrow> nat \<Rightarrow> u64" where
  "table_at m hhdm r k = ucast (ld32 m (r + sizeof_SDTHdr + 4 * of_nat k)) + hhdm"

definition sig_matches :: "mem \<Rightarrow> u8 list \<Rightarrow> u64 \<Rightarrow> bool" where
  "sig_matches m sig a \<longleftrightarrow> strncmp (bytes_of m a 4) sig 4 = Inr 0"

lemma find_table_loop_eq:
  assumes "4 \<le> length sig"
  shows "find_table_loop m hhdm r sig i n = Inr (case List.find (sig_matches m sig) (map (table_at m hhdm r) [unat i..<unat n])
    of None \<Rightarrow> 0 | Some a \<Rightarrow> a)"
proof (induction "unat n - unat i" arbitrary: i)
  case 0
  then have "\<not> i < n" by (simp add: word_less_nat_alt)
  then show ?case using 0 by (subst find_table_loop.simps) simp
next
  case (Suc k)
  then have lt: "i < n" "unat i < unat n" by (simp_all add: word_less_nat_alt)
  then have s: "unat (i + 1) = Suc (unat i)" by (simp add: unat_plus1)
  have l: "4 \<le> length (bytes_of m a 4)" for a by (simp add: bytes_of_def)
  obtain d where d: "strncmp (bytes_of m (table_at m hhdm r (unat i)) 4) sig 4 = Inr d"
    using strncmp_long [OF l assms] by blast
  have up: "[unat i..<unat n] = unat i # [unat (i + 1)..<unat n]" using lt(2) s by (simp add: upt_conv_Cons)
  have h: "ucast (ld32 m (r + sizeof_SDTHdr + 4 * i)) + hhdm = table_at m hhdm r (unat i)" by (simp add: table_at_def)
  have IH: "find_table_loop m hhdm r sig (i + 1) n = Inr (case List.find (sig_matches m sig)
      (map (table_at m hhdm r) [unat (i + 1)..<unat n]) of None \<Rightarrow> 0 | Some a \<Rightarrow> a)"
    using Suc s by simp
  show ?case
    unfolding up by (subst find_table_loop.simps) (simp add: lt h d IH Let_def sig_matches_def)
qed

section \<open>The entries of a MADT\<close>

type_synonym madt_entry = "u8 \<times> u8 list"

definition enc_entry :: "madt_entry \<Rightarrow> u8 list" where
  "enc_entry r = fst r # of_nat (2 + length (snd r)) # snd r"

definition wf_entry :: "madt_entry \<Rightarrow> bool" where
  "wf_entry r \<longleftrightarrow> 2 + length (snd r) < 256 \<and> (fst r = 2 \<longrightarrow> 6 \<le> length (snd r))"

definition override_of :: "u8 list \<Rightarrow> GSIRedirect" where
  "override_of b = \<lparr>irq_source = b ! 1, gsi_source = ucast (b ! 2) OR push_bit 8 (ucast (b ! 3))
     OR push_bit 16 (ucast (b ! 4)) OR push_bit 24 (ucast (b ! 5))\<rparr>"

definition overrides :: "madt_entry list \<Rightarrow> GSIRedirect list" where
  "overrides rs = map (override_of \<circ> snd) (filter (\<lambda>r. fst r = 2) rs)"

fun add_all :: "GSIRedirect list \<Rightarrow> acpi \<Rightarrow> acpi result" where
  "add_all [] s = Inr s"
| "add_all (g # gs) s = bindE (add_gsi g s) (\<lambda>s1. add_all gs s1)"

lemma bytes_of_nth: "bytes_of m a (length bs) = bs \<Longrightarrow> k < length bs \<Longrightarrow> m (a + of_nat k) = bs ! k"
proof -
  assume e: "bytes_of m a (length bs) = bs" and k: "k < length bs"
  have "bytes_of m a (length bs) ! k = m (a + of_nat k)" using k by (simp add: bytes_of_def)
  then show ?thesis unfolding e by simp
qed

lemma length_bytes_of [simp]: "length (bytes_of m a n) = n"
  by (simp add: bytes_of_def)

lemma bytes_of_append: "bytes_of m a (n + k) = bytes_of m a n @ bytes_of m (a + of_nat n) k"
proof -
  have "map (\<lambda>i. m (a + of_nat i)) [n..<n + k] = map (\<lambda>i. m (a + of_nat n + of_nat i)) [0..<k]"
    by (rule nth_equalityI) (simp_all add: add.assoc)
  then show ?thesis by (simp add: bytes_of_def upt_add_eq_append [of 0 n k])
qed

lemma bytes_of_split:
  assumes "bytes_of m a (length (xs @ ys)) = xs @ ys"
  shows "bytes_of m a (length xs) = xs" "bytes_of m (a + of_nat (length xs)) (length ys) = ys"
  using assms bytes_of_append [of m a "length xs" "length ys"] by simp_all

lemma parse_entry_enc:
  assumes "bytes_of m (addr + pos) (length (enc_entry r)) = enc_entry r" "wf_entry r"
  shows "parse_entry m addr pos s = (if fst r = 2 then add_gsi (override_of (snd r)) s else Inr s)"
    "m (addr + pos) = fst r" "m (addr + pos + 1) = of_nat (2 + length (snd r))"
proof -
  note n = bytes_of_nth [OF assms(1)]
  show t: "m (addr + pos) = fst r" "m (addr + pos + 1) = of_nat (2 + length (snd r))"
    using n [of 0] n [of 1] by (simp_all add: enc_entry_def)
  have "m (addr + pos + of_nat (Suc (Suc k))) = snd r ! k" if "k < length (snd r)" for k
    using n [of "Suc (Suc k)"] that by (simp add: enc_entry_def)
  from this [of 1] this [of 2] this [of 3] this [of 4] this [of 5]
  have "m (addr + pos + 3) = snd r ! 1" "m (addr + pos + 4) = snd r ! 2" "m (addr + pos + 4 + 1) = snd r ! 3"
    "m (addr + pos + 4 + 2) = snd r ! 4" "m (addr + pos + 4 + 3) = snd r ! 5" if "6 \<le> length (snd r)"
    using that by (simp_all add: add.assoc)
  then show "parse_entry m addr pos s = (if fst r = 2 then add_gsi (override_of (snd r)) s else Inr s)"
    using assms(2) t by (simp add: parse_entry_def Let_def override_of_def ld32_def wf_entry_def)
qed

lemma parse_loop_entries:
  assumes "\<forall>r \<in> set rs. wf_entry r"
    and "bytes_of m (addr + pos) (length (concat (map enc_entry rs))) = concat (map enc_entry rs)"
    and "unat (SDTHdr_len m addr) = unat pos + length (concat (map enc_entry rs))"
  shows "parse_loop m addr pos s = add_all (overrides rs) s"
  using assms
proof (induction rs arbitrary: pos s)
  case Nil
  then have "\<not> pos < ucast (SDTHdr_len m addr)" by (simp add: word_less_nat_alt unat_ucast_up)
  then show ?case by (subst parse_loop.simps) (simp add: overrides_def)
next
  case (Cons r rs)
  let ?n = "2 + length (snd r)" and ?rest = "concat (map enc_entry rs)"
  have len: "length (enc_entry r) = ?n" by (simp add: enc_entry_def)
  have wf: "wf_entry r" "?n < 256" using Cons.prems(1) by (simp_all add: wf_entry_def)
  have "bytes_of m (addr + pos) (length (enc_entry r @ ?rest)) = enc_entry r @ ?rest" using Cons.prems(2) by simp
  note split = bytes_of_split [OF this, unfolded len]
  note e = parse_entry_enc [of m addr pos r, unfolded len, OF split(1) wf(1)]
  have u: "unat (of_nat ?n :: u8) = ?n" "unat (of_nat ?n :: u64) = ?n" using wf(2) by (simp_all only: unat_of_nat) simp_all
  have l: "(of_nat ?n :: u8) \<noteq> 0"
  proof
    assume "(of_nat ?n :: u8) = 0"
    then have "unat (of_nat ?n :: u8) = 0" by (simp only: unat_0)
    then show False unfolding u by simp
  qed
  have c: "(ucast (of_nat ?n :: u8) :: u64) = of_nat ?n"
    unfolding word_unat_eq_iff unat_ucast8 u ..
  have big: "unat pos + ?n + length ?rest < 4294967296"
    using Cons.prems(3) unat_less_u32 [of "SDTHdr_len m addr"] len by simp
  have pos: "unat (pos + of_nat ?n) = unat pos + ?n"
    using big unat_add_nowrap [of pos "of_nat ?n", unfolded u] by simp
  have lt: "pos < ucast (SDTHdr_len m addr)"
    using Cons.prems(3) by (simp add: word_less_nat_alt unat_ucast_up enc_entry_def)
  have IH: "parse_loop m addr (pos + of_nat ?n) s1 = add_all (overrides rs) s1" for s1
    using Cons.prems(1,3) len split(2) pos by (intro Cons.IH) (simp_all add: add.assoc)
  have o: "overrides (r # rs) = (if fst r = 2 then override_of (snd r) # overrides rs else overrides rs)"
    by (simp add: overrides_def)
  show ?case
    unfolding o using lt l e c IH by (subst parse_loop.simps) (simp add: Let_def del: of_nat_add)
qed

lemma add_all_eq:
  assumes "length (gsis s) = 256" "unat (numGSIs s) \<le> 256"
  shows "add_all gs s =
    (if unat (numGSIs s) + length gs \<le> 256
     then Inr (s\<lparr>gsis := take (unat (numGSIs s)) (gsis s) @ gs @ drop (unat (numGSIs s) + length gs) (gsis s),
                 numGSIs := numGSIs s + of_nat (length gs)\<rparr>)
     else Inl OutOfBounds)"
  using assms
proof (induction gs arbitrary: s)
  case Nil
  then show ?case by simp
next
  case (Cons g gs)
  show ?case
  proof (cases "numGSIs s < 256")
    case True
    let ?n = "unat (numGSIs s)"
    let ?s1 = "s\<lparr>gsis := (gsis s)[?n := g], numGSIs := numGSIs s + 1\<rparr>"
    have lt: "?n < 256" and n: "unat (numGSIs s + 1) = Suc ?n"
      using True by (simp_all add: word_less_nat_alt unat_plus1 [of _ 256])
    have "add_all gs ?s1 = (if Suc ?n + length gs \<le> 256
      then Inr (?s1\<lparr>gsis := take (Suc ?n) ((gsis s)[?n := g]) @ gs @ drop (Suc ?n + length gs) ((gsis s)[?n := g]),
         numGSIs := numGSIs s + 1 + of_nat (length gs)\<rparr>) else Inl OutOfBounds)"
      using Cons.IH [of ?s1] Cons.prems lt n by simp
    moreover have "take (Suc ?n) ((gsis s)[?n := g]) = take ?n (gsis s) @ [g]"
      using lt Cons.prems(1) by (simp add: take_Suc_conv_app_nth)
    ultimately show ?thesis using True by (simp add: add_gsi_def add.assoc)
  next
    case False
    then have "\<not> unat (numGSIs s) < 256" by (simp add: word_less_nat_alt)
    then show ?thesis using False Cons.prems by (simp add: add_gsi_def)
  qed
qed

section \<open>Properties\<close>

text \<open>\<^verbatim>\<open>FindTable\<close> returns, for a signature of at least four bytes, the address of the first table behind the
  root table whose signature \<^verbatim>\<open>strncmp\<close> does not tell apart from it, and 0 when there is none.\<close>

theorem find_table_first:
  assumes "4 \<le> length sig"
  shows "FindTable m hhdm r sig =
    Inr (case List.find (sig_matches m sig)
           (map (table_at m hhdm r) [0..<unat ((ucast (SDTHdr_len m r) - sizeof_SDTHdr) div 4)])
         of None \<Rightarrow> 0 | Some a \<Rightarrow> a)"
  using find_table_loop_eq [OF assms] by (simp add: FindTable_def)

definition demo_rsdt :: "u8 list" where
  "demo_rsdt = [82, 83, 68, 84, 44, 0, 0, 0] @ replicate 28 0 @ [0, 48, 0, 0] @ [0, 32, 0, 0]"

definition demo_madt :: "u8 list" where
  "demo_madt = [65, 80, 73, 67, 62, 0, 0, 0] @ replicate 28 0 @ [0, 0, 224, 254] @ [1, 0, 0, 0] @
     [0, 8, 0, 0, 1, 0, 0, 0] @ [2, 10, 0, 0, 2, 0, 0, 0, 0, 0]"

text \<open>A root table at 0x1000 with pointers to an unrelated table at 0x3000 and to a MADT at 0x2000.\<close>

definition demo_tables :: mem where
  "demo_tables a = (if a - 0x1000 < 44 then demo_rsdt ! unat (a - 0x1000)
     else if a - 0x2000 < 62 then demo_madt ! unat (a - 0x2000) else if a - 0x3000 < 4 then 88 else 0)"

definition APIC_sig :: "u8 list" where "APIC_sig = [65, 80, 73, 67, 0]"

lemma demo_found: "List.find (sig_matches demo_tables APIC_sig)
    (map (table_at demo_tables 0 0x1000) [0..<unat ((ucast (SDTHdr_len demo_tables 0x1000) - sizeof_SDTHdr) div 4)]) = Some 0x2000"
  by code_simp

theorem find_table_first_witness: "FindTable demo_tables 0 0x1000 APIC_sig = Inr 0x2000"
  using find_table_first [of APIC_sig demo_tables 0 "0x1000"] demo_found by (simp add: APIC_sig_def)

lemma ParseAPIC_entries:
  assumes "FindTable m hhdm (rsdt s) APIC_sig = Inr a" "a \<noteq> 0"
    and "\<forall>r \<in> set rs. wf_entry r"
    and "bytes_of m (a + 0x2C) (length (concat (map enc_entry rs))) = concat (map enc_entry rs)"
    and "unat (SDTHdr_len m a) = 0x2C + length (concat (map enc_entry rs))"
    and "length (gsis s) = 256" "unat (numGSIs s) \<le> 256"
  shows "ParseAPIC m hhdm s =
    (if unat (numGSIs s) + length (overrides rs) \<le> 256
     then Inr (s\<lparr>lapic_addr := ld32 m (a + 0x24),
        gsis := take (unat (numGSIs s)) (gsis s) @ overrides rs @ drop (unat (numGSIs s) + length (overrides rs)) (gsis s),
        numGSIs := numGSIs s + of_nat (length (overrides rs))\<rparr>)
     else Inl OutOfBounds)"
proof -
  have sig: "map of_char ''APIC'' @ [0] = APIC_sig" by (simp add: APIC_sig_def)
  have p: "unat (SDTHdr_len m a) = unat (0x2C :: u64) + length (concat (map enc_entry rs))" using assms(5) by simp
  show ?thesis
    unfolding ParseAPIC_def sig assms(1) using assms(2,6,7) parse_loop_entries [OF assms(3,4) p]
    by (simp add: add_all_eq)
qed

text \<open>C31. From a well formed MADT with at most 256 interrupt source overrides in all the parser returns, with the
  local controller's address and the overrides in the order of the table behind those it had; one
  override more and it writes past its array.\<close>

theorem madt_parsed:
  assumes "FindTable m hhdm (rsdt s) APIC_sig = Inr a" "a \<noteq> 0"
    and "\<forall>r \<in> set rs. wf_entry r"
    and "bytes_of m (a + 0x2C) (length (concat (map enc_entry rs))) = concat (map enc_entry rs)"
    and "unat (SDTHdr_len m a) = 0x2C + length (concat (map enc_entry rs))"
    and "length (gsis s) = 256" "unat (numGSIs s) \<le> 256"
  shows "ParseAPIC m hhdm s =
    (if unat (numGSIs s) + length (overrides rs) \<le> 256
     then Inr (s\<lparr>lapic_addr := ld32 m (a + 0x24),
        gsis := take (unat (numGSIs s)) (gsis s) @ overrides rs @ drop (unat (numGSIs s) + length (overrides rs)) (gsis s),
        numGSIs := numGSIs s + of_nat (length (overrides rs))\<rparr>)
     else Inl OutOfBounds)"
  by (rule ParseAPIC_entries [OF assms])

definition demo_acpi :: acpi where
  "demo_acpi = \<lparr>rsdt = 0x1000, lapic_addr = 0, gsis = replicate 256 \<lparr>irq_source = 0, gsi_source = 0\<rparr>, numGSIs = 0\<rparr>"

theorem madt_parsed_witness:
  "ParseAPIC demo_tables 0 demo_acpi =
    Inr (demo_acpi\<lparr>lapic_addr := 0xfee00000, gsis := \<lparr>irq_source = 0, gsi_source = 2\<rparr> # replicate 255 \<lparr>irq_source = 0, gsi_source = 0\<rparr>,
      numGSIs := 1\<rparr>)"
proof -
  let ?rs = "[(0, [0, 0, 1, 0, 0, 0]), (2, [0, 0, 2, 0, 0, 0, 0, 0])] :: madt_entry list"
  have "FindTable demo_tables 0 0x1000 APIC_sig = Inr 0x2000"
    using find_table_loop_eq [of APIC_sig demo_tables 0 "0x1000" 0] demo_found by (simp add: APIC_sig_def FindTable_def)
  then have f: "FindTable demo_tables 0 (rsdt demo_acpi) APIC_sig = Inr 0x2000" by (simp add: demo_acpi_def)
  have w: "\<forall>r \<in> set ?rs. wf_entry r" by (simp add: wf_entry_def)
  have b: "bytes_of demo_tables (0x2000 + 0x2C) (length (concat (map enc_entry ?rs))) = concat (map enc_entry ?rs)"
    by code_simp
  have l: "unat (SDTHdr_len demo_tables 0x2000) = 0x2C + length (concat (map enc_entry ?rs))" by code_simp
  have g: "length (gsis demo_acpi) = 256" "unat (numGSIs demo_acpi) \<le> 256" by (simp_all add: demo_acpi_def)
  have o: "overrides ?rs = [\<lparr>irq_source = 0, gsi_source = 2\<rparr>]" by (simp add: overrides_def override_of_def)
  have a: "ld32 demo_tables (0x2000 + 0x24) = 0xfee00000" by code_simp
  have n: "(0x2000 :: u64) \<noteq> 0" by simp
  have z: "unat (numGSIs demo_acpi) = 0" "numGSIs demo_acpi = 0" "drop (Suc 0) (gsis demo_acpi) = replicate 255 \<lparr>irq_source = 0, gsi_source = 0\<rparr>"
    by (simp_all add: demo_acpi_def)
  show ?thesis
    using madt_parsed [OF f n w b l g] unfolding o a z by (simp add: z)
qed

text \<open>
  A MADT entry of length 0 that is no override, for example in the padding behind the last entry, stops
  the boot: the loop does not move on.
\<close>

theorem madt_zero_length_diverges:
  assumes "pos < ucast (SDTHdr_len m a)" "m (a + pos + 1) = 0" "m (a + pos) \<noteq> 2"
  shows "parse_loop m a pos s = Inl Diverges"
  using assms by (subst parse_loop.simps) (simp add: parse_entry_def Let_def)

end
