(* ===== verification/Apic.thy ===== *)
theory Apic
  imports Acpi Syscall
begin

text \<open>
  The interrupt controllers and the timer that calibrates them: \<^verbatim>\<open>src/src/dev/apic.cpp\<close>,
  \<^verbatim>\<open>src/src/drivers/hpet.cpp\<close> and \<^verbatim>\<open>src/src/cpu/pic.cpp\<close>. The devices are a state \<open>'d\<close> with the functions that
  read and write their memory-mapped registers as arguments; what a property needs of a device is
  a named hypothesis. Addresses are virtual, with the direct map's offset as an argument.
\<close>

type_synonym 'd mmio_read = "u64 \<Rightarrow> 'd \<Rightarrow> u32 \<times> 'd"
type_synonym 'd mmio_write = "u64 \<Rightarrow> u32 \<Rightarrow> 'd \<Rightarrow> 'd"
type_synonym 'd mmio_read64 = "u64 \<Rightarrow> 'd \<Rightarrow> u64 \<times> 'd"
type_synonym 'd mmio_write64 = "u64 \<Rightarrow> u64 \<Rightarrow> 'd \<Rightarrow> 'd"

section \<open>The legacy controllers\<close>

definition PIC_RemapAndDisable :: "console \<Rightarrow> console" where
  "PIC_RemapAndDisable c = fold (\<lambda>(port, v). outb port v)
     [(0x20, 0x11), (0xA0, 0x11), (0x21, 0x20), (0xA1, 0x28), (0x21, 4), (0xA1, 2),
      (0x21, 0x01), (0xA1, 0x01), (0x21, 0xff), (0xA1, 0xff)] c"

section \<open>The high precision timer\<close>

text \<open>
  \<^verbatim>\<open>SetupHPET\<close>: the offsets in the packed structures are 44 for \<^verbatim>\<open>address\<close>, 0xF0 for \<^verbatim>\<open>counter_value\<close> and
  0x10 for \<^verbatim>\<open>general_config\<close>. The result is \<^verbatim>\<open>hpetRegs\<close>, the memory and the device.
\<close>

definition SetupHPET :: "'d mmio_write64 \<Rightarrow> u64 \<Rightarrow> u64 \<Rightarrow> mem \<Rightarrow> 'd \<Rightarrow> (u64 \<times> mem \<times> 'd) result" where
  "SetupHPET wr64 hhdm r m d =
     bindE (FindTable m hhdm r (map of_char ''HPET'' @ [0])) (\<lambda>t.
     if t = 0 then Inl NullPointer
     else let m1 = st64 m (t + 44) (ld64 m (t + 44) + hhdm);
              hpetRegs = ld64 m1 (t + 44)
          in Inr (hpetRegs, m1, wr64 (hpetRegs + 0x10) 1 (wr64 (hpetRegs + 0xF0) 0 d)))"

text \<open>The polling loop; \<open>None\<close> is a loop that never ends.\<close>

partial_function (option) wait_loop :: "(u64 \<Rightarrow> 'd \<Rightarrow> u64 \<times> 'd) \<Rightarrow> u64 \<Rightarrow> u64 \<Rightarrow> 'd \<Rightarrow> 'd option" where
  "wait_loop rd64 a ticks d =
     (case rd64 a d of (v, d1) \<Rightarrow> if v < ticks then wait_loop rd64 a ticks d1 else Some d1)"

definition msleep :: "'d mmio_read64 \<Rightarrow> u64 \<Rightarrow> u64 \<Rightarrow> 'd \<Rightarrow> 'd result option" where
  "msleep rd64 hpetRegs ms d =
     (let (capabilities, d1) = rd64 hpetRegs d;
          period = ucast (drop_bit 32 capabilities) :: u32;
          (counter, d2) = rd64 (hpetRegs + 0xF0) d1
      in if period = 0 then Some (Inl DivideError)
         else let ticks = counter + ms * (1000000000000 div ucast period)
              in map_option Inr (wait_loop rd64 (hpetRegs + 0xF0) ticks d2))"

section \<open>The local controller\<close>

text \<open>
  \<^verbatim>\<open>apic.cpp\<close> declares \<^verbatim>\<open>lapic_addr\<close> with 64 bits, \<^verbatim>\<open>acpi.cpp\<close> defines it with 32: the upper half is whatever
  four bytes follow it, the argument \<open>after\<close>.
\<close>

definition lapic_base :: "acpi \<Rightarrow> u32 \<Rightarrow> u64 \<Rightarrow> u64" where
  "lapic_base s after hhdm = (ucast (lapic_addr s) OR push_bit 32 (ucast after)) + hhdm"

definition LAPIC_WriteReg :: "'d mmio_write \<Rightarrow> u64 \<Rightarrow> u32 \<Rightarrow> u32 \<Rightarrow> 'd \<Rightarrow> 'd" where
  "LAPIC_WriteReg wr base index val d = wr (base + ucast index) val d"

definition LAPIC_ReadReg :: "'d mmio_read \<Rightarrow> u64 \<Rightarrow> u32 \<Rightarrow> 'd \<Rightarrow> u32 \<times> 'd" where
  "LAPIC_ReadReg rd base index d = rd (base + ucast index) d"

definition LAPIC_EOI :: "'d mmio_write \<Rightarrow> u64 \<Rightarrow> 'd \<Rightarrow> 'd" where
  "LAPIC_EOI wr base d = LAPIC_WriteReg wr base 0xB0 0 d"

definition LAPIC_Initialize :: "'d mmio_write \<Rightarrow> u64 \<Rightarrow> msrs \<times> 'd \<Rightarrow> msrs \<times> 'd" where
  "LAPIC_Initialize wr base = (\<lambda>(m, d).
     (wrmsr 0x1B (rdmsr 0x1B m OR 0x800) m, LAPIC_WriteReg wr base 0xF0 0x1FF d))"

text \<open>The timer interrupt; \<^verbatim>\<open>Schedule\<close> acknowledges it itself before it switches.\<close>

definition HandleTick ::
  "'d mmio_write \<Rightarrow> u64 \<Rightarrow> u64 \<Rightarrow> sched \<Rightarrow> u64 \<Rightarrow> SavedRegs \<Rightarrow> 'd
     \<Rightarrow> ((SavedRegs \<times> u64) option \<times> u64 \<times> sched \<times> 'd) result option" where
  "HandleTick wr base cur s pml4 r d =
     (case Schedule cur s pml4 r of
        None \<Rightarrow> None
      | Some (Inl e) \<Rightarrow> Some (Inl e)
      | Some (Inr (Some switch, p, s1)) \<Rightarrow> Some (Inr (Some switch, p, s1, LAPIC_EOI wr base d))
      | Some (Inr (None, p, s1)) \<Rightarrow> Some (Inr (None, p, s1, LAPIC_EOI wr base d)))"

definition LAPIC_InitTimer ::
  "'d mmio_read \<Rightarrow> 'd mmio_write \<Rightarrow> 'd mmio_read64 \<Rightarrow> u64 \<Rightarrow> u64 \<Rightarrow> u64 \<Rightarrow> bool \<Rightarrow> handlers \<Rightarrow> 'd
     \<Rightarrow> (handlers \<times> 'd) result option" where
  "LAPIC_InitTimer rd wr rd64 base hpetRegs tick_at is_bsp hs d =
     (let d2 = LAPIC_WriteReg wr base 0x380 0xFFFFFFFF (LAPIC_WriteReg wr base 0x3E0 0x3 d)
      in case msleep rd64 hpetRegs 10 d2 of
        None \<Rightarrow> None
      | Some (Inl e) \<Rightarrow> Some (Inl e)
      | Some (Inr d3) \<Rightarrow>
          let d4 = LAPIC_WriteReg wr base 0x320 0x10000 d3;
              (v, d5) = LAPIC_ReadReg rd base 0x390 d4;
              ticksIn10ms = 0xFFFFFFFF - v;
              d8 = LAPIC_WriteReg wr base 0x380 ticksIn10ms
                     (LAPIC_WriteReg wr base 0x3E0 0x3 (LAPIC_WriteReg wr base 0x320 0x20020 d5))
          in Some (if is_bsp then bindE (AddHandler 32 tick_at hs) (\<lambda>hs1. Inr (hs1, d8)) else Inr (hs, d8)))"

section \<open>The I/O controller\<close>

definition IOAPIC_ReadReg :: "'d mmio_read \<Rightarrow> 'd mmio_write \<Rightarrow> u64 \<Rightarrow> u32 \<Rightarrow> 'd \<Rightarrow> u32 \<times> 'd" where
  "IOAPIC_ReadReg rd wr hhdm index d = rd (0xfec00010 + hhdm) (wr (0xfec00000 + hhdm) index d)"

definition IOAPIC_WriteReg :: "'d mmio_write \<Rightarrow> u64 \<Rightarrow> u32 \<Rightarrow> u32 \<Rightarrow> 'd \<Rightarrow> 'd" where
  "IOAPIC_WriteReg wr hhdm index v d = wr (0xfec00010 + hhdm) v (wr (0xfec00000 + hhdm) index d)"

definition RedirectGSI :: "'d mmio_read \<Rightarrow> 'd mmio_write \<Rightarrow> u64 \<Rightarrow> u32 \<Rightarrow> u8 \<Rightarrow> 'd \<Rightarrow> 'd" where
  "RedirectGSI rd wr hhdm gsi irq d =
     (let low_index = 0x10 + gsi * 2;
          high_index = low_index + 1;
          (high, d1) = IOAPIC_ReadReg rd wr hhdm high_index d;
          high = high AND NOT 0xFF000000;
          (id, d2) = IOAPIC_ReadReg rd wr hhdm 0 d1;
          high = high OR push_bit 24 id;
          d3 = IOAPIC_WriteReg wr hhdm high_index high d2;
          (low, d4) = IOAPIC_ReadReg rd wr hhdm low_index d3;
          low = low AND NOT (push_bit 16 1);
          low = low AND NOT (push_bit 11 1);
          low = low AND NOT 0x700;
          low = low AND NOT 0xFF;
          low = low OR ucast irq
      in IOAPIC_WriteReg wr hhdm low_index low d4)"

definition IOAPIC_Initialize :: "'d mmio_read \<Rightarrow> 'd mmio_write \<Rightarrow> u64 \<Rightarrow> acpi \<Rightarrow> 'd \<Rightarrow> 'd result" where
  "IOAPIC_Initialize rd wr hhdm s d =
     (if unat (numGSIs s) \<le> length (gsis s)
      then Inr (fold (\<lambda>g. RedirectGSI rd wr hhdm (gsi_source g) (irq_source g)) (take (unat (numGSIs s)) (gsis s)) d)
      else Inl OutOfBounds)"

section \<open>Redirection entries\<close>

text \<open>
  What the architecture documents of the I/O controller: the register at \<open>a\<close> selects (8 bits), the
  window at \<open>w\<close> reads and writes the register selected.
\<close>

definition register_window ::
  "'d mmio_read \<Rightarrow> 'd mmio_write \<Rightarrow> u64 \<Rightarrow> u64 \<Rightarrow> ('d \<Rightarrow> u32 \<Rightarrow> u32) \<Rightarrow> ('d \<Rightarrow> u32) \<Rightarrow> bool" where
  "register_window rd wr a w regs sel \<longleftrightarrow>
     (\<forall>i d. sel (wr a i d) = i AND 0xFF \<and> regs (wr a i d) = regs d) \<and>
     (\<forall>d. rd w d = (regs d (sel d), d)) \<and>
     (\<forall>v d. regs (wr w v d) = (regs d)(sel d := v))"

definition entry_low :: "u32 \<Rightarrow> u8 \<Rightarrow> u32" where
  "entry_low old irq = ((((old AND NOT (push_bit 16 1)) AND NOT (push_bit 11 1)) AND NOT 0x700) AND NOT 0xFF) OR ucast irq"

definition entry_high :: "u32 \<Rightarrow> u32 \<Rightarrow> u32" where
  "entry_high old dest = (old AND NOT 0xFF000000) OR push_bit 24 dest"

lemma entry_low_bit:
  "bit (entry_low old irq) n = (if n < 8 then bit irq n else n \<notin> {8, 9, 10, 11, 16} \<and> bit old n)"
proof (cases "n < 32")
  case True
  have m: "(0x700 :: u32) = push_bit 8 (mask 3)" "(0xFF :: u32) = mask 8"
    by (simp_all add: mask_eq_exp_minus_1 push_bit_eq_mult)
  have "8 \<le> n \<Longrightarrow> n < 11 \<Longrightarrow> n = 8 \<or> n = 9 \<or> n = 10" by arith
  then show ?thesis
    using True unfolding entry_low_def m bit_or_iff bit_and_iff bit_not_iff bit_push_bit_iff bit_mask_iff bit_unsigned_iff bit_1_iff
    by (auto dest: high_bits)
next
  case False
  then show ?thesis using high_bits [of "entry_low old irq" n] high_bits [of old n] by auto
qed

lemma entry_high_bit:
  "bit (entry_high old dest) n = (if n < 24 then bit old n else n < 32 \<and> bit dest (n - 24))"
proof (cases "n < 32")
  case True
  have m: "(0xFF000000 :: u32) = push_bit 24 (mask 8)" by (simp add: mask_eq_exp_minus_1 push_bit_eq_mult)
  show ?thesis
    using True unfolding entry_high_def m
    by (auto simp: bit_or_iff bit_and_iff bit_not_iff bit_push_bit_iff bit_mask_iff)
next
  case False
  then show ?thesis using high_bits [of "entry_high old dest" n] by auto
qed

lemma small_index: "unat i < 256 \<Longrightarrow> (i :: u32) AND 0xFF = i"
proof -
  assume a: "unat i < 256"
  have m: "(0xFF :: u32) = mask 8" by (simp add: mask_eq_exp_minus_1)
  have "unat (take_bit 8 i) = unat i" using a by (simp add: unsigned_take_bit_eq take_bit_nat_eq_self)
  then show ?thesis unfolding m by (simp only: take_bit_eq_mask [symmetric] word_unat_eq_iff)
qed

lemma gsi_indices:
  assumes "unat (g :: u32) < 120"
  shows "unat (0x10 + g * 2) = 16 + 2 * unat g" "unat (0x10 + g * 2 + 1) = 17 + 2 * unat g"
  using assms by (simp_all add: unat_word_ariths)

lemma RedirectGSI_regs:
  assumes w: "register_window rd wr (0xfec00000 + hhdm) (0xfec00010 + hhdm) regs sel" and g: "unat g < 120"
  shows "regs (RedirectGSI rd wr hhdm g irq d) = (regs d)
    (0x10 + g * 2 + 1 := entry_high (regs d (0x10 + g * 2 + 1)) (regs d 0),
     0x10 + g * 2 := entry_low (regs d (0x10 + g * 2)) irq)"
proof -
  let ?lo = "0x10 + g * 2" and ?hi = "0x10 + g * 2 + 1"
  have i: "?lo AND 0xFF = ?lo" "?hi AND 0xFF = ?hi" "(0 :: u32) AND 0xFF = 0"
    using gsi_indices [OF g] g by (simp_all add: small_index)
  have ne: "?lo \<noteq> ?hi" by simp
  have s: "sel (wr (0xfec00000 + hhdm) i d) = i AND 0xFF" "regs (wr (0xfec00000 + hhdm) i d) = regs d" for i d
    using w by (simp_all add: register_window_def)
  have r: "rd (0xfec00010 + hhdm) d = (regs d (sel d), d)" for d using w by (simp add: register_window_def)
  have p: "regs (wr (0xfec00010 + hhdm) v d) = (regs d)(sel d := v)" for v d using w by (simp add: register_window_def)
  show ?thesis
    unfolding RedirectGSI_def Let_def IOAPIC_ReadReg_def IOAPIC_WriteReg_def r prod.case p s i
      entry_low_def [symmetric] entry_high_def [symmetric]
    using ne by simp
qed

definition low_of :: "GSIRedirect \<Rightarrow> u32" where "low_of g = 0x10 + gsi_source g * 2"
definition high_of :: "GSIRedirect \<Rightarrow> u32" where "high_of g = 0x10 + gsi_source g * 2 + 1"

definition redirect :: "'d mmio_read \<Rightarrow> 'd mmio_write \<Rightarrow> u64 \<Rightarrow> GSIRedirect \<Rightarrow> 'd \<Rightarrow> 'd" where
  "redirect rd wr hhdm g = RedirectGSI rd wr hhdm (gsi_source g) (irq_source g)"

lemma entry_indices:
  assumes "unat (gsi_source g) < 120"
  shows "unat (low_of g) = 16 + 2 * unat (gsi_source g)" "unat (high_of g) = 17 + 2 * unat (gsi_source g)"
  unfolding low_of_def high_of_def by (rule gsi_indices [OF assms])+

lemma entry_apart:
  assumes "unat (gsi_source g) < 120" "unat (gsi_source h) < 120"
  shows "low_of g \<noteq> high_of h" "gsi_source g \<noteq> gsi_source h \<Longrightarrow> low_of g \<noteq> low_of h \<and> high_of g \<noteq> high_of h"
    "low_of g \<noteq> 0" "high_of g \<noteq> 0"
proof -
  note u = entry_indices [OF assms(1)] entry_indices [OF assms(2)]
  have "unat (low_of g) \<noteq> unat (high_of h)" unfolding u by presburger
  then show "low_of g \<noteq> high_of h" by metis
  show "low_of g \<noteq> low_of h \<and> high_of g \<noteq> high_of h" if "gsi_source g \<noteq> gsi_source h"
  proof -
    have "unat (gsi_source g) \<noteq> unat (gsi_source h)" using that by (simp add: word_unat_eq_iff)
    then have "unat (low_of g) \<noteq> unat (low_of h)" "unat (high_of g) \<noteq> unat (high_of h)" unfolding u by simp_all
    then show ?thesis by metis
  qed
  have "unat (low_of g) \<noteq> 0" "unat (high_of g) \<noteq> 0" unfolding u by simp_all
  then show "low_of g \<noteq> 0" "high_of g \<noteq> 0" by (metis unat_0)+
qed

lemma redirect_all_regs:
  assumes w: "register_window rd wr (0xfec00000 + hhdm) (0xfec00010 + hhdm) regs sel"
    and "\<forall>g \<in> set gs. unat (gsi_source g) < 120" "distinct (map gsi_source gs)"
  shows "(\<forall>g \<in> set gs. regs (fold (redirect rd wr hhdm) gs d) (low_of g)
        = entry_low (regs d (low_of g)) (irq_source g) \<and>
      regs (fold (redirect rd wr hhdm) gs d) (high_of g)
        = entry_high (regs d (high_of g)) (regs d 0)) \<and>
    (\<forall>i. (\<forall>g \<in> set gs. i \<noteq> low_of g \<and> i \<noteq> high_of g) \<longrightarrow>
      regs (fold (redirect rd wr hhdm) gs d) i = regs d i)"
  using assms(2,3)
proof (induction gs arbitrary: d)
  case Nil
  then show ?case by simp
next
  case (Cons g gs)
  let ?d1 = "redirect rd wr hhdm g d"
  have g: "unat (gsi_source g) < 120" and gs: "\<forall>h \<in> set gs. unat (gsi_source h) < 120" and nd: "distinct (map gsi_source gs)"
    using Cons.prems by simp_all
  have r: "regs ?d1 = (regs d)(high_of g := entry_high (regs d (high_of g)) (regs d 0),
      low_of g := entry_low (regs d (low_of g)) (irq_source g))"
    unfolding redirect_def low_of_def high_of_def by (rule RedirectGSI_regs [OF w g])
  have other: "regs ?d1 (low_of h) = regs d (low_of h)" "regs ?d1 (high_of h) = regs d (high_of h)"
    "low_of g \<noteq> low_of h" "low_of g \<noteq> high_of h" "high_of g \<noteq> low_of h" "high_of g \<noteq> high_of h"
    if "h \<in> set gs" for h
  proof -
    have h: "unat (gsi_source h) < 120" "gsi_source g \<noteq> gsi_source h" using gs that Cons.prems(2) by auto
    note ap = entry_apart [OF g h(1)] and pa = entry_apart [OF h(1) g]
    show ne: "low_of g \<noteq> low_of h" "low_of g \<noteq> high_of h" "high_of g \<noteq> low_of h" "high_of g \<noteq> high_of h"
      using ap(1) pa(1) ap(2) [OF h(2)] by simp_all
    show "regs ?d1 (low_of h) = regs d (low_of h)" "regs ?d1 (high_of h) = regs d (high_of h)"
      unfolding r using ne by simp_all
  qed
  have z: "regs ?d1 0 = regs d 0" unfolding r using entry_apart(3,4) [OF g g] by simp
  note IH = Cons.IH [OF gs nd, of ?d1]
  have fixed: "regs (fold (redirect rd wr hhdm) gs ?d1) i = regs ?d1 i"
    if "\<And>h. h \<in> set gs \<Longrightarrow> i \<noteq> low_of h \<and> i \<noteq> high_of h" for i
    using IH that by blast
  have "regs ?d1 (low_of g) = entry_low (regs d (low_of g)) (irq_source g)"
    "regs ?d1 (high_of g) = entry_high (regs d (high_of g)) (regs d 0)"
    unfolding r using entry_apart(1) [OF g g] by simp_all
  then have own: "regs (fold (redirect rd wr hhdm) gs ?d1) (low_of g)
      = entry_low (regs d (low_of g)) (irq_source g)"
    "regs (fold (redirect rd wr hhdm) gs ?d1) (high_of g)
      = entry_high (regs d (high_of g)) (regs d 0)"
    using fixed [of "low_of g"] fixed [of "high_of g"] other(3-6) by metis+
  have "regs ?d1 i = regs d i" if "i \<noteq> low_of g \<and> i \<noteq> high_of g" for i unfolding r using that by simp
  then have out: "regs (fold (redirect rd wr hhdm) gs ?d1) i = regs d i"
    if "\<forall>h \<in> set (g # gs). i \<noteq> low_of h \<and> i \<noteq> high_of h" for i
    using fixed [of i] that by simp
  have rest: "regs (fold (redirect rd wr hhdm) gs ?d1) (low_of h) = entry_low (regs d (low_of h)) (irq_source h) \<and>
      regs (fold (redirect rd wr hhdm) gs ?d1) (high_of h) = entry_high (regs d (high_of h)) (regs d 0)" if "h \<in> set gs" for h
    using IH that other(1,2) [OF that] z by simp
  show ?case using own rest out by simp
qed

lemma entry_low_fields:
  "take_bit 8 (entry_low old irq) = ucast irq" "\<not> bit (entry_low old irq) 16" "\<not> bit (entry_low old irq) 11"
  "take_bit 3 (drop_bit 8 (entry_low old irq)) = 0"
proof -
  show "\<not> bit (entry_low old irq) 16" "\<not> bit (entry_low old irq) 11" by (simp_all add: entry_low_bit)
  show "take_bit 8 (entry_low old irq) = ucast irq"
    by (rule bit_word_eqI) (auto simp: bit_take_bit_iff entry_low_bit bit_unsigned_iff dest: high_bits)
  show "take_bit 3 (drop_bit 8 (entry_low old irq)) = 0"
  proof (rule bit_word_eqI)
    fix n :: nat
    have "n < 3 \<Longrightarrow> n + 8 = 8 \<or> n + 8 = 9 \<or> n + 8 = 10" by arith
    then show "bit (take_bit 3 (drop_bit 8 (entry_low old irq))) n = bit (0 :: u32) n"
      by (auto simp: bit_take_bit_iff bit_drop_bit_eq entry_low_bit add.commute)
  qed
qed

section \<open>Polling the timer\<close>

text \<open>A device whose counter at \<open>a\<close> reads \<open>cnt\<close> and moves on between two reads until the end of its range.\<close>

definition running_counter :: "'d mmio_read64 \<Rightarrow> u64 \<Rightarrow> ('d \<Rightarrow> u64) \<Rightarrow> bool" where
  "running_counter rd64 a cnt \<longleftrightarrow>
     (\<forall>d. fst (rd64 a d) = cnt d \<and> (cnt d < - 1 \<longrightarrow> cnt d < cnt (snd (rd64 a d))))"

lemma wait_loop_returns:
  assumes "running_counter rd64 a cnt"
  shows "\<exists>d' k. wait_loop rd64 a ticks d = Some (snd (rd64 a d')) \<and> ticks \<le> cnt d' \<and> d' = ((\<lambda>d. snd (rd64 a d)) ^^ k) d"
proof (induction "unat (- 1 :: u64) - unat (cnt d)" arbitrary: d rule: less_induct)
  case less
  have c: "fst (rd64 a d) = cnt d" using assms by (simp add: running_counter_def)
  show ?case
  proof (cases "cnt d < ticks")
    case True
    then have "cnt d < - 1" by (meson order_less_le_trans word_order.extremum)
    then have "cnt d < cnt (snd (rd64 a d))" using assms by (simp add: running_counter_def)
    then have "unat (- 1 :: u64) - unat (cnt (snd (rd64 a d))) < unat (- 1 :: u64) - unat (cnt d)"
      using \<open>cnt d < - 1\<close> by (simp only: word_less_nat_alt)
    from less [OF this] obtain d' k where "wait_loop rd64 a ticks (snd (rd64 a d)) = Some (snd (rd64 a d'))"
      "ticks \<le> cnt d'" "d' = ((\<lambda>d. snd (rd64 a d)) ^^ k) (snd (rd64 a d))" by blast
    then show ?thesis using True c
      by (intro exI [of _ d'] exI [of _ "Suc k"])
        (simp add: wait_loop.simps [of rd64 a ticks d] case_prod_beta funpow_Suc_right del: funpow.simps)
  next
    case False
    then show ?thesis using c
      by (intro exI [of _ d] exI [of _ 0]) (simp add: wait_loop.simps [of rd64 a ticks d] case_prod_beta)
  qed
qed

lemma unat_ucast8_32: "unat (ucast (w :: u8) :: u32) = unat w"
proof -
  have "unat w < 2 ^ 32" using unat_less_u8 [of w] by simp
  then show ?thesis by (simp add: unsigned_ucast_eq take_bit_nat_eq_self_iff)
qed

section \<open>Properties\<close>


text \<open>A controller with nothing but its register file, and a counter that runs by itself.\<close>

definition demo_read :: "(u32 \<times> (u32 \<Rightarrow> u32)) mmio_read" where
  "demo_read a d = (snd d (fst d), d)"

definition demo_write :: "(u32 \<times> (u32 \<Rightarrow> u32)) mmio_write" where
  "demo_write a v d = (if a = 0xfec00000 then (v AND 0xFF, snd d) else (fst d, (snd d)(fst d := v)))"

definition demo_overrides :: acpi where
  "demo_overrides = demo_acpi\<lparr>gsis := [\<lparr>irq_source = 0, gsi_source = 2\<rparr>, \<lparr>irq_source = 9, gsi_source = 9\<rparr>], numGSIs := 2\<rparr>"


text \<open>C33. \<^verbatim>\<open>msleep\<close> returns whenever the timer runs and its target does not overflow, after the counter has reached
  the target; what it waits falls short of the milliseconds asked by less than one timer period per
  millisecond. A timer that reports the period 0 makes it divide by zero.\<close>

theorem msleep_returns:
  assumes "running_counter rd64 (hpetRegs + 0xF0) cnt" "rd64 hpetRegs d = (capabilities, d1)"
    and "period = (ucast (drop_bit 32 capabilities) :: u32)"
    and "unat (cnt d1) + unat ms * (1000000000000 div unat period) < 2 ^ 64"
  shows "if period = 0 then msleep rd64 hpetRegs ms d = Some (Inl DivideError)
    else \<exists>d'. msleep rd64 hpetRegs ms d = Some (Inr (snd (rd64 (hpetRegs + 0xF0) d'))) \<and>
      unat (cnt d1) + unat ms * (1000000000000 div unat period) \<le> unat (cnt d') \<and>
      unat ms * 1000000000000 \<le> (unat (cnt d') - unat (cnt d1)) * unat period + unat ms * unat period"
proof (cases "period = 0")
  case True
  then show ?thesis using assms(2,3) by (simp add: msleep_def Let_def case_prod_beta)
next
  case False
  let ?q = "1000000000000 div unat period" and ?t = "cnt d1 + ms * (1000000000000 div ucast period)"
  have c: "fst (rd64 (hpetRegs + 0xF0) d1) = cnt d1" using assms(1) by (simp add: running_counter_def)
  have q: "unat (1000000000000 div ucast period :: u64) = ?q" by (simp add: unat_div unat_ucast_up)
  have m: "unat (ms * (1000000000000 div ucast period)) = unat ms * ?q"
    using assms(4) unfolding q [symmetric] by (simp add: unat_word_ariths)
  have t: "unat ?t = unat (cnt d1) + unat ms * ?q"
    using assms(4) unat_add_nowrap [of "cnt d1" "ms * (1000000000000 div ucast period)"] unfolding m by simp
  obtain d' where d': "wait_loop rd64 (hpetRegs + 0xF0) ?t (snd (rd64 (hpetRegs + 0xF0) d1)) = Some (snd (rd64 (hpetRegs + 0xF0) d'))"
    "?t \<le> cnt d'"
    using wait_loop_returns [OF assms(1), of ?t "snd (rd64 (hpetRegs + 0xF0) d1)"] by blast
  have r: "msleep rd64 hpetRegs ms d = Some (Inr (snd (rd64 (hpetRegs + 0xF0) d')))"
    using False assms(2,3) c d'(1) by (simp add: msleep_def Let_def case_prod_beta)
  have le: "unat (cnt d1) + unat ms * ?q \<le> unat (cnt d')" using d'(2) t by (simp add: word_le_nat_alt)
  have "0 < unat period" using False by (simp add: unat_gt_0)
  then have "1000000000000 \<le> ?q * unat period + unat period"
    using div_mult_mod_eq [of 1000000000000 "unat period"] mod_less_divisor [of "unat period" 1000000000000] by linarith
  then have "unat ms * 1000000000000 \<le> unat ms * (?q * unat period + unat period)" by (rule mult_le_mono2)
  also have "\<dots> = unat ms * ?q * unat period + unat ms * unat period" by (simp add: distrib_left)
  also have "\<dots> \<le> (unat (cnt d') - unat (cnt d1)) * unat period + unat ms * unat period"
    using le by (intro add_mono mult_le_mono1) simp_all
  finally show ?thesis using False r le by (simp only: if_False) blast
qed

definition demo_timer :: "u64 mmio_read64" where
  "demo_timer a d = (if a = 0xF0 then (d, if d = - 1 then d else d + 1) else (0x989680 * 2 ^ 32, d))"

theorem msleep_returns_witness:
  "\<exists>d'. msleep demo_timer 0 10 0 = Some (Inr (snd (demo_timer 0xF0 d'))) \<and> 1000000 \<le> unat d'"
proof -
  have run: "running_counter demo_timer (0 + 0xF0) (\<lambda>d. d)"
    by (simp add: running_counter_def demo_timer_def word_less_nat_alt unat_plus1 [of _ "- 1"])
  have cap: "demo_timer 0 0 = (0x989680 * 2 ^ 32, 0)" by (simp add: demo_timer_def)
  have p: "0x989680 = (ucast (drop_bit 32 (0x989680 * 2 ^ 32 :: u64)) :: u32)" by (simp add: drop_bit_eq_div)
  have o: "unat (0 :: u64) + unat (10 :: u64) * (1000000000000 div unat (0x989680 :: u32)) < 2 ^ 64" by simp
  show ?thesis using msleep_returns [OF run cap p o] by auto
qed

end
