(* ===== verification/Features.thy ===== *)
theory Features
  imports Prelude
begin

text \<open>
  Processor features, \<^verbatim>\<open>src/src/cpu/features.cpp\<close>, with the control register accessors of
  \<^verbatim>\<open>src/src/include/util.h\<close>, which pass 32 bits only, and \<^verbatim>\<open>EnableAvx\<close> of \<^verbatim>\<open>src/src/include/misc.asm\<close>. The \<^verbatim>\<open>cpuid\<close> instruction is an argument: the
  registers eax, ebx, ecx and edx for a leaf and a subleaf.
\<close>

type_synonym cpuid = "u32 \<Rightarrow> u32 \<Rightarrow> u32 \<times> u32 \<times> u32 \<times> u32"

record control_regs =
  cr0 :: u64
  cr4 :: u64
  xcr0 :: u64
  fpu_control :: u16
  fpu_status :: u16
  fpu_tag :: u16

definition ReadCr0 :: "control_regs \<Rightarrow> u32" where "ReadCr0 r = ucast (cr0 r)"
definition WriteCr0 :: "u32 \<Rightarrow> control_regs \<Rightarrow> control_regs" where "WriteCr0 v r = r\<lparr>cr0 := ucast v\<rparr>"
definition ReadCr4 :: "control_regs \<Rightarrow> u32" where "ReadCr4 r = ucast (cr4 r)"
definition WriteCr4 :: "u32 \<Rightarrow> control_regs \<Rightarrow> control_regs" where "WriteCr4 v r = r\<lparr>cr4 := ucast v\<rparr>"

text \<open>The instruction \<^verbatim>\<open>fninit\<close> puts the coprocessor into its initial state.\<close>

definition fninit :: "control_regs \<Rightarrow> control_regs" where
  "fninit r = r\<lparr>fpu_control := 0x37F, fpu_status := 0, fpu_tag := 0xFFFF\<rparr>"

text \<open>The assembly routine \<^verbatim>\<open>EnableAvx\<close>: the halves of the extended control register go through eax and edx.\<close>

definition EnableAvx :: "control_regs \<Rightarrow> control_regs" where
  "EnableAvx r =
     (let eax = ucast (xcr0 r) :: u32; edx = ucast (drop_bit 32 (xcr0 r)) :: u32; eax = eax OR 7
      in r\<lparr>xcr0 := push_bit 32 (ucast edx) OR ucast eax\<rparr>)"

definition DetectAndInit :: "cpuid \<Rightarrow> control_regs \<Rightarrow> control_regs result" where
  "DetectAndInit cpuid r =
     (let (eax, ebx, ecx, edx) = cpuid 1 0
      in if edx AND push_bit 25 1 = 0 then Inl Halted
         else if edx AND push_bit 26 1 = 0 then Inl Halted
         else if ecx AND push_bit 0 1 = 0 then Inl Halted
         else let v0 = (ReadCr0 r AND 0xFFFFFFFB) OR 0x2;
                  r1 = WriteCr0 v0 r;
                  v4 = ReadCr4 r1 OR (push_bit 9 3 OR push_bit 18 1)
              in Inr (fninit (WriteCr4 v4 r1)))"

lemma and_bit_zero: "(w :: 'a::len word) AND push_bit k 1 = 0 \<longleftrightarrow> \<not> bit w k"
proof
  assume z: "w AND push_bit k 1 = 0"
  show "\<not> bit w k"
  proof
    assume b: "bit w k"
    then have "k < LENGTH('a)" by (rule bit_imp_le_length)
    then have "bit (w AND push_bit k 1) k" using b unfolding bit_and_iff bit_push_bit_iff bit_1_iff by simp
    then show False unfolding z by simp
  qed
next
  assume b: "\<not> bit w k"
  show "w AND push_bit k 1 = 0"
  proof (rule bit_word_eqI)
    fix n
    show "bit (w AND push_bit k 1) n = bit (0 :: 'a word) n"
      using b unfolding bit_and_iff bit_push_bit_iff bit_1_iff by (cases "n = k") auto
  qed
qed

text \<open>
  The kernel goes on exactly on a processor with SSE, SSE2 and SSE3; then the coprocessor is monitored and
  not emulated, and the SSE and extended-state bits of the second register are set.
\<close>

lemma DetectAndInit_iff:
  assumes "cpuid 1 0 = (eax, ebx, ecx, edx)"
  shows "(\<exists>r'. DetectAndInit cpuid r = Inr r') \<longleftrightarrow> bit edx 25 \<and> bit edx 26 \<and> bit ecx 0"
  unfolding DetectAndInit_def assms Let_def prod.case and_bit_zero by simp

lemma DetectAndInit_bits:
  assumes "DetectAndInit cpuid r = Inr r'"
  shows "\<not> bit (cr0 r') 2" "bit (cr0 r') 1" "bit (cr4 r') 9" "bit (cr4 r') 10" "bit (cr4 r') 18"
proof -
  obtain eax ebx ecx edx where c: "cpuid 1 0 = (eax, ebx, ecx, edx)" by (metis prod.exhaust)
  have r: "r' = fninit (WriteCr4 (ReadCr4 (WriteCr0 ((ReadCr0 r AND 0xFFFFFFFB) OR 0x2) r) OR (push_bit 9 3 OR push_bit 18 1))
      (WriteCr0 ((ReadCr0 r AND 0xFFFFFFFB) OR 0x2) r))"
    using assms unfolding DetectAndInit_def c Let_def prod.case by (simp split: if_splits)
  show "\<not> bit (cr0 r') 2" "bit (cr0 r') 1" "bit (cr4 r') 9" "bit (cr4 r') 10" "bit (cr4 r') 18"
    unfolding r by (simp_all add: fninit_def WriteCr4_def WriteCr0_def bit_unsigned_iff bit_or_iff bit_and_iff)
qed

text \<open>Enabling AVX sets the x87, SSE and AVX components and keeps the others.\<close>

lemma EnableAvx_bits: "bit (xcr0 (EnableAvx r)) n = (n < 3 \<or> bit (xcr0 r) n)"
proof -
  have seven: "(7 :: u32) = mask 3" by (simp add: mask_eq_exp_minus_1)
  consider "n < 32" | "32 \<le> n" "n < 64" | "64 \<le> n" by linarith
  then show ?thesis
    unfolding EnableAvx_def Let_def seven
    by cases (auto simp: bit_or_iff bit_push_bit_iff bit_unsigned_iff bit_drop_bit_eq bit_mask_iff comp_def dest: bit_imp_le_length)
qed

end
