(* ===== verification/Ports.thy ===== *)
theory Ports
  imports Memory
begin

text \<open>
  The port accessors of \<^verbatim>\<open>src/src/include/util.h\<close> that the drivers use. A device is a state \<open>'d\<close> and a
  record of the functions by which port reads and writes act on it; a driver that uses only byte and
  16-bit reads takes the smaller record.
\<close>

record 'd port_io =
  io_inb :: "u16 \<Rightarrow> 'd \<Rightarrow> u8 \<times> 'd"
  io_inw :: "u16 \<Rightarrow> 'd \<Rightarrow> u16 \<times> 'd"
  io_outb :: "u16 \<Rightarrow> u8 \<Rightarrow> 'd \<Rightarrow> 'd"

record 'd wide_io = "'d port_io" +
  io_outw :: "u16 \<Rightarrow> u16 \<Rightarrow> 'd \<Rightarrow> 'd"
  io_ind :: "u16 \<Rightarrow> 'd \<Rightarrow> u32 \<times> 'd"
  io_outd :: "u16 \<Rightarrow> u32 \<Rightarrow> 'd \<Rightarrow> 'd"

section \<open>Polling\<close>

text \<open>
  A loop that reads a device until a condition is over; \<open>again\<close> is one round. \<open>None\<close> is a loop that never
  ends, and \<open>rounds\<close> is the device after a number of rounds.
\<close>

partial_function (option) poll :: "('d \<Rightarrow> bool \<times> 'd) \<Rightarrow> 'd \<Rightarrow> 'd option" where
  "poll again d = (case again d of (b, d1) \<Rightarrow> if b then poll again d1 else Some d1)"

primrec rounds :: "('d \<Rightarrow> bool \<times> 'd) \<Rightarrow> nat \<Rightarrow> 'd \<Rightarrow> 'd" where
  "rounds again 0 d = d"
| "rounds again (Suc n) d = rounds again n (snd (again d))"

lemma rounds_Suc_end: "rounds again (Suc n) d = snd (again (rounds again n d))"
  by (induction n arbitrary: d) simp_all

lemma poll_unfold: "poll again d = (if fst (again d) then poll again (snd (again d)) else Some (snd (again d)))"
  by (subst poll.simps) (simp split: prod.split)

lemma poll_stops:
  "\<not> fst (again (rounds again n d)) \<Longrightarrow> \<exists>k \<le> n. poll again d = Some (rounds again (Suc k) d)"
proof (induction n arbitrary: d)
  case 0
  then show ?case by (simp add: poll_unfold [of again d])
next
  case (Suc n)
  show ?case
  proof (cases "fst (again d)")
    case True
    obtain k where "k \<le> n" "poll again (snd (again d)) = Some (rounds again (Suc k) (snd (again d)))"
      using Suc.IH [of "snd (again d)"] Suc.prems by auto
    then show ?thesis using True by (intro exI [of _ "Suc k"]) (simp add: poll_unfold [of again d])
  next
    case False
    then show ?thesis by (intro exI [of _ 0]) (simp add: poll_unfold [of again d])
  qed
qed

lemma poll_returned:
  assumes "poll again d = Some d'"
  shows "\<exists>n. \<not> fst (again (rounds again n d)) \<and> d' = rounds again (Suc n) d"
proof (rule poll.raw_induct [OF _ assms, of "\<lambda>again d d'. \<exists>n. \<not> fst (again (rounds again n d)) \<and> d' = rounds again (Suc n) d"])
  fix pl :: "('d \<Rightarrow> bool \<times> 'd) \<Rightarrow> 'd \<Rightarrow> 'd option" and again d r
  assume IH: "\<And>again d r. pl again d = Some r \<Longrightarrow> \<exists>n. \<not> fst (again (rounds again n d)) \<and> r = rounds again (Suc n) d"
    and r: "(case again d of (b, d1) \<Rightarrow> if b then pl again d1 else Some d1) = Some r"
  obtain b d1 where a: "again d = (b, d1)" by (metis prod.exhaust)
  show "\<exists>n. \<not> fst (again (rounds again n d)) \<and> r = rounds again (Suc n) d"
  proof (cases b)
    case True
    then have "pl again d1 = Some r" using r a by simp
    from IH [OF this] obtain n where "\<not> fst (again (rounds again n d1))" "r = rounds again (Suc n) d1" by blast
    then show ?thesis using a by (intro exI [of _ "Suc n"]) simp
  next
    case False
    then show ?thesis using r a by (intro exI [of _ 0]) simp
  qed
qed

text \<open>The loop ends exactly when some round finds the condition over.\<close>

lemma poll_iff: "(\<exists>d'. poll again d = Some d') \<longleftrightarrow> (\<exists>n. \<not> fst (again (rounds again n d)))"
  by (meson poll_returned poll_stops)

end
