(* ===== verification/Pata.thy ===== *)
theory Pata
  imports Ports
begin

text \<open>
  The disk driver, \<^verbatim>\<open>src/src/include/drivers/pata.cpp\<close>. The disk is a state \<open>'d\<close> with the three port
  accesses the driver makes as a record of functions; delays only pass time and are left out of the
  operations, as are the diagnostics. A device is handled together with the base port of its controller.
\<close>

section \<open>Data\<close>

record IDEDevice =
  present :: bool
  position :: u8
  atapi :: bool
  cylinders :: u32
  heads :: u32
  sectors :: u32
  capacity :: u32

record IDEController =
  base :: u16
  devices :: "IDEDevice list"

definition ATA_TIMEOUT :: u64 where "ATA_TIMEOUT = 30000000"
definition ATA_DATA :: u16 where "ATA_DATA = 0"
definition ATA_NSECTOR :: u16 where "ATA_NSECTOR = 2"
definition ATA_SECTOR :: u16 where "ATA_SECTOR = 3"
definition ATA_LCYL :: u16 where "ATA_LCYL = 4"
definition ATA_HCYL :: u16 where "ATA_HCYL = 5"
definition ATA_DRIVE_HEAD :: u16 where "ATA_DRIVE_HEAD = 6"
definition ATA_COMMAND :: u16 where "ATA_COMMAND = 7"
definition ATA_STATUS :: u16 where "ATA_STATUS = 7"
definition ATA_STATUS_ERR :: u8 where "ATA_STATUS_ERR = 0x01"
definition ATA_STATUS_DRQ :: u8 where "ATA_STATUS_DRQ = 0x08"
definition ATA_STATUS_BUSY :: u8 where "ATA_STATUS_BUSY = 0x80"
definition ATA_DEV_CTL :: u16 where "ATA_DEV_CTL = 0x206"
definition ATA_CTL_SRST :: u8 where "ATA_CTL_SRST = 0x04"

section \<open>Delays\<close>

text \<open>
  The delays as the number of times the counting instruction of \<^verbatim>\<open>udelay\<close> is run. It counts the lower half of the register down to
  zero; \<^verbatim>\<open>mdelay\<close> decrements before it tests.
\<close>

definition udelay :: "u64 \<Rightarrow> nat" where
  "udelay n = (if n = 0 then 0 else let e = unat (ucast (n * 1000) :: u32) in if e = 0 then 2 ^ 32 else e)"

function mdelay :: "u64 \<Rightarrow> nat" where
  "mdelay n = (if n - 1 \<noteq> 0 then udelay 1000 + mdelay (n - 1) else 0)"
  by pat_completeness auto
termination
proof (relation "measure (\<lambda>n. unat (n - 1))")
  fix n :: u64
  assume "n - 1 \<noteq> 0"
  then have "unat (n - 1 - 1) < unat (n - 1)" using unat_minus_1_nonzero [of "n - 1"] by simp
  then show "(n - 1, n) \<in> measure (\<lambda>n. unat (n - 1))" unfolding in_measure .
qed simp

declare mdelay.simps [simp del]

text \<open>
  One millisecond too few: \<open>mdelay 2\<close>, the wait between setting and clearing the reset bit, waits one, and \<open>mdelay 0\<close>
  waits \<open>2^64 - 1\<close>.
\<close>

lemma mdelay_counts: "mdelay n = 1000000 * unat (n - 1)"
proof (induction n rule: mdelay.induct)
  case (1 n)
  show ?case
  proof (cases "n - 1 = 0")
    case False
    have "udelay 1000 = 1000000" by (simp add: udelay_def)
    then show ?thesis
      using 1 False unat_minus_1_nonzero [OF False] by (simp add: mdelay.simps [of n])
  next
    case True
    then have "n = 1" by simp
    then show ?thesis by (simp add: mdelay.simps [of 1])
  qed
qed

section \<open>Waiting, resetting, selecting\<close>

function WaitForDevice :: "'d port_io \<Rightarrow> u16 \<Rightarrow> u8 \<Rightarrow> u8 \<Rightarrow> u64 \<Rightarrow> 'd \<Rightarrow> bool \<times> 'd" where
  "WaitForDevice io iobase msk val timeout d =
     (let (status, d1) = io_inb io (iobase + ATA_STATUS) d
      in if status AND msk \<noteq> val
         then (if timeout - 1 \<noteq> 0 then WaitForDevice io iobase msk val (timeout - 1) d1 else (False, d1))
         else (timeout \<noteq> 0, d1))"
  by pat_completeness auto
termination
proof (relation "measure (\<lambda>(io, iobase, msk, val, timeout, d). unat (timeout - 1))")
  fix io iobase msk val timeout d p x y
  assume "timeout - 1 \<noteq> (0 :: u64)"
  then have "unat (timeout - 1 - 1) < unat (timeout - 1)" using unat_minus_1_nonzero [of "timeout - 1"] by simp
  then show "((io, iobase, msk, val, timeout - 1, y), io, iobase, msk, val, timeout, d)
      \<in> measure (\<lambda>(io, iobase, msk, val, timeout, d). unat (timeout - 1))"
    unfolding in_measure prod.case .
qed simp

declare WaitForDevice.simps [simp del]

text \<open>
  The value \<^verbatim>\<open>ResetController\<close> answers; when both waits succeed it ends without a \<^verbatim>\<open>return\<close>, so the value is
  whatever the argument \<open>garbage\<close> is. Its caller does not look at it.
\<close>

definition ResetController :: "bool \<Rightarrow> 'd port_io \<Rightarrow> u16 \<Rightarrow> 'd \<Rightarrow> bool \<times> 'd" where
  "ResetController garbage io iobase d =
     (let d1 = io_outb io (iobase + ATA_DEV_CTL) ATA_CTL_SRST d;
          (ok1, d2) = WaitForDevice io iobase ATA_STATUS_BUSY ATA_STATUS_BUSY 1 d1
      in if \<not> ok1 then (False, d2)
         else let d3 = io_outb io (iobase + ATA_DEV_CTL) 0 d2;
                  (ok2, d4) = WaitForDevice io iobase ATA_STATUS_BUSY 0 ATA_TIMEOUT d3
              in if \<not> ok2 then (False, d4) else (garbage, d4))"

definition SelectDevice :: "'d port_io \<Rightarrow> u16 \<Rightarrow> IDEDevice \<Rightarrow> 'd \<Rightarrow> bool \<times> 'd" where
  "SelectDevice io iobase dev d =
     (let (s1, d1) = io_inb io (iobase + ATA_STATUS) d
      in if s1 AND (ATA_STATUS_BUSY OR ATA_STATUS_DRQ) \<noteq> 0 then (False, d1)
         else let d2 = io_outb io (iobase + ATA_DRIVE_HEAD) (0xa0 OR push_bit 4 (position dev)) d1;
                  (s2, d3) = io_inb io (iobase + ATA_STATUS) d2
              in if s2 AND (ATA_STATUS_BUSY OR ATA_STATUS_DRQ) \<noteq> 0 then (False, d3) else (True, d3))"

section \<open>Identifying\<close>

fun read_words :: "'d port_io \<Rightarrow> u16 \<Rightarrow> nat \<Rightarrow> 'd \<Rightarrow> u16 list \<times> 'd" where
  "read_words io port 0 d = ([], d)"
| "read_words io port (Suc n) d =
     (let (w, d1) = io_inw io port d; (ws, d2) = read_words io port n d1 in (w # ws, d2))"

text \<open>The signature left in the task file: present, and whether it is a packet device. The second read is made only when the first one matches.\<close>

definition read_signature :: "'d port_io \<Rightarrow> u16 \<Rightarrow> IDEDevice \<Rightarrow> 'd \<Rightarrow> IDEDevice \<times> 'd" where
  "read_signature io iobase dev d =
     (let (n, d1) = io_inb io (iobase + ATA_NSECTOR) d
      in if n \<noteq> 0x01 then (dev, d1)
         else let (s, d2) = io_inb io (iobase + ATA_SECTOR) d1
              in if s \<noteq> 0x01 then (dev, d2)
                 else let (cl, d3) = io_inb io (iobase + ATA_LCYL) d2;
                          (ch, d4) = io_inb io (iobase + ATA_HCYL) d3;
                          (status, d5) = io_inb io (iobase + ATA_STATUS) d4
                      in if cl = 0x14 \<and> ch = 0xeb then (dev\<lparr>atapi := True, present := True\<rparr>, d5)
                         else if cl = 0 \<and> ch = 0 \<and> status \<noteq> 0 then (dev\<lparr>present := True\<rparr>, d5)
                         else (dev, d5))"

definition set_geometry :: "u16 list \<Rightarrow> IDEDevice \<Rightarrow> IDEDevice" where
  "set_geometry info dev =
     (let dev = dev\<lparr>cylinders := ucast (info ! 1), heads := ucast (info ! 3), sectors := ucast (info ! 6)\<rparr>
      in if drop_bit 9 (info ! 49) AND 1 \<noteq> 0 then dev\<lparr>capacity := ucast (info ! 60)\<rparr>
         else dev\<lparr>capacity := heads dev * sectors dev * cylinders dev\<rparr>)"

definition IdentifyAtaDevice :: "'d port_io \<Rightarrow> u16 \<Rightarrow> IDEDevice \<Rightarrow> 'd \<Rightarrow> IDEDevice \<times> 'd" where
  "IdentifyAtaDevice io iobase dev d =
     (let dev = dev\<lparr>present := False\<rparr>;
          (n, d1) = io_inb io (iobase + ATA_NSECTOR) (io_outb io (iobase + ATA_NSECTOR) 0xab d)
      in if n \<noteq> 0xab then (dev, d1)
         else let (_, d2) = ResetController False io iobase d1;
                  (selected, d3) = SelectDevice io iobase dev d2
              in if \<not> selected then (dev, d3)
                 else let (dev, d4) = read_signature io iobase dev d3
                      in if \<not> present dev then (dev, d4)
                         else let d5 = io_outb io (iobase + ATA_COMMAND) (if atapi dev then 0xA1 else 0xEC) d4;
                                  (ready, d6) = WaitForDevice io iobase
                                    (ATA_STATUS_BUSY OR ATA_STATUS_DRQ OR ATA_STATUS_ERR) ATA_STATUS_DRQ ATA_TIMEOUT d5
                              in if \<not> ready then (dev\<lparr>present := False\<rparr>, d6)
                                 else let (info, d7) = read_words io (iobase + ATA_DATA) 256 d6
                                      in (set_geometry info dev, d7))"

fun identify_all :: "'d port_io \<Rightarrow> u16 \<Rightarrow> IDEDevice list \<Rightarrow> 'd \<Rightarrow> IDEDevice list \<times> 'd" where
  "identify_all io iobase [] d = ([], d)"
| "identify_all io iobase (dev # devs) d =
     (let (dev, d1) = IdentifyAtaDevice io iobase dev d; (devs, d2) = identify_all io iobase devs d1
      in (dev # devs, d2))"

text \<open>The constructor, on the zero-initialised controllers.\<close>

definition new_device :: "u8 \<Rightarrow> IDEDevice" where
  "new_device pos = \<lparr>present = False, position = pos, atapi = False, cylinders = 0, heads = 0, sectors = 0, capacity = 0\<rparr>"

definition PATA_ctor :: "'d port_io \<Rightarrow> 'd \<Rightarrow> IDEController list \<times> 'd" where
  "PATA_ctor io d =
     (let (devs0, d1) = identify_all io 0x1F0 [new_device 0, new_device 1] d;
          (devs1, d2) = identify_all io 0x170 [new_device 0, new_device 1] d1
      in ([\<lparr>base = 0x1F0, devices = devs0\<rparr>, \<lparr>base = 0x170, devices = devs1\<rparr>], d2))"

section \<open>Reading\<close>

text \<open>The words stored one after the other from \<open>buf\<close> on.\<close>

fun store_words :: "mem \<Rightarrow> u64 \<Rightarrow> u16 list \<Rightarrow> mem" where
  "store_words m buf [] = m"
| "store_words m buf (w # ws) = store_words (m(buf := ucast w, buf + 1 := ucast (drop_bit 8 w))) (buf + 2) ws"

text \<open>The part of \<^verbatim>\<open>Read\<close> behind its checks.\<close>

definition read_sectors ::
  "'d port_io \<Rightarrow> u16 \<Rightarrow> IDEDevice \<Rightarrow> u64 \<Rightarrow> u32 \<Rightarrow> u64 \<Rightarrow> mem \<Rightarrow> 'd \<Rightarrow> u32 \<times> mem \<times> 'd" where
  "read_sectors io iobase device block nblocks buffer m d =
     (let (selected, d1) = SelectDevice io iobase device d
      in if \<not> selected then (0, m, d1)
         else let sc = ucast (block AND 0xff);
                  cl = ucast (drop_bit 8 block AND 0xff);
                  ch = ucast (drop_bit 16 block AND 0xff);
                  hd = ucast (drop_bit 24 block AND 0xf);
                  d2 = io_outb io (iobase + ATA_NSECTOR) (ucast nblocks) d1;
                  d3 = io_outb io (iobase + ATA_SECTOR) sc d2;
                  d4 = io_outb io (iobase + ATA_LCYL) cl d3;
                  d5 = io_outb io (iobase + ATA_HCYL) ch d4;
                  d6 = io_outb io (iobase + ATA_DRIVE_HEAD) (0x40 OR push_bit 4 (position device) OR hd) d5;
                  d7 = io_outb io (iobase + ATA_COMMAND) 0x20 d6;
                  (ready, d8) = WaitForDevice io iobase ATA_STATUS_BUSY 0 ATA_TIMEOUT d7
              in if \<not> ready then (0, m, d8)
                 else let (status, d9) = io_inb io (iobase + ATA_STATUS) d8
                      in if status AND ATA_STATUS_ERR \<noteq> 0 then (0, m, d9)
                         else let (ws, d10) = read_words io (iobase + ATA_DATA) (256 * unat nblocks) d9
                              in (nblocks, store_words m buffer ws, d10))"

definition PATA_Read ::
  "'d port_io \<Rightarrow> IDEController \<Rightarrow> u64 \<Rightarrow> u32 \<Rightarrow> u64 \<Rightarrow> mem \<Rightarrow> 'd \<Rightarrow> u32 \<times> mem \<times> 'd" where
  "PATA_Read io controller block nblocks0 buffer m d =
     (let device = devices controller ! 0
      in if nblocks0 = 0 then (0, m, d)
         else let nblocks = (if nblocks0 \<ge> 256 then 256 else nblocks0)
              in if block + ucast nblocks > ucast (capacity device) then (0, m, d)
                 else read_sectors io (base controller) device block nblocks buffer m d)"

section \<open>The words in memory\<close>

definition word_bytes :: "u16 \<Rightarrow> u8 list" where
  "word_bytes w = [ucast w, ucast (drop_bit 8 w)]"

lemma store_words_bytes: "store_words m a ws = store_bytes m a (concat (map word_bytes ws))"
  by (induction ws arbitrary: m a) (simp_all add: word_bytes_def add.assoc)

lemma word_bytes_length: "length (concat (map word_bytes ws)) = 2 * length ws"
  by (induction ws) (simp_all add: word_bytes_def)

lemma word_bytes_nth:
  "k < length ws \<Longrightarrow> concat (map word_bytes ws) ! (2 * k) = ucast (ws ! k) \<and>
     concat (map word_bytes ws) ! Suc (2 * k) = ucast (drop_bit 8 (ws ! k))"
proof (induction ws arbitrary: k)
  case (Cons w ws)
  then show ?case by (cases k) (simp_all add: word_bytes_def)
qed simp

lemma join16: "(ucast (ucast w :: u8) OR push_bit 8 (ucast (ucast (drop_bit 8 w) :: u8)) :: u16) = w"
proof (rule bit_word_eqI)
  fix n assume "n < LENGTH(16)"
  then show "bit (ucast (ucast w :: u8) OR push_bit 8 (ucast (ucast (drop_bit 8 w) :: u8)) :: u16) n = bit w n"
    by (cases "n < 8") (auto simp: bit_or_iff bit_push_bit_iff bit_unsigned_iff bit_drop_bit_eq dest: bit_imp_le_length)
qed

lemma store_words_frame:
  assumes "length ws \<le> 65536" "2 * length ws \<le> unat (x - a)"
  shows "store_words m a ws x = m x"
  unfolding store_words_bytes using assms by (simp add: store_bytes_apply word_bytes_length)

lemma store_words_read:
  assumes "length ws \<le> 65536" "k < length ws"
  shows "ld16 (store_words m a ws) (a + 2 * of_nat k) = ws ! k"
proof -
  have u: "unat (of_nat (2 * k) :: u64) = 2 * k" "unat (of_nat (Suc (2 * k)) :: u64) = Suc (2 * k)"
    using assms by (simp_all only: unat_of_nat) simp_all
  have d: "a + 2 * of_nat k - a = of_nat (2 * k)" "a + 2 * of_nat k + 1 - a = of_nat (Suc (2 * k))" by simp_all
  have len: "length (concat (map word_bytes ws)) \<le> 2 ^ 64" using assms(1) by (simp add: word_bytes_length)
  have i: "2 * k < 2 * length ws" "Suc (2 * k) < 2 * length ws" using assms(2) by simp_all
  show ?thesis
    unfolding ld16_def store_words_bytes store_bytes_apply [OF len] d u word_bytes_length
    using i word_bytes_nth [OF assms(2)] by (simp add: join16)
qed

lemma read_words_length: "length (fst (read_words io port n d)) = n"
  by (induction n arbitrary: d) (simp_all add: Let_def case_prod_beta)

lemma read_sectors_cases:
  fixes io :: "'d port_io"
  shows "(\<exists>d'. read_sectors io iobase dev block n buffer m d = (0, m, d')) \<or>
   (\<exists>d0. read_sectors io iobase dev block n buffer m d =
      (n, store_words m buffer (fst (read_words io (iobase + ATA_DATA) (256 * unat n) d0)),
       snd (read_words io (iobase + ATA_DATA) (256 * unat n) d0)))"
proof -
  have *: "(\<exists>d'. (let (ready, d8) = w in if \<not> ready then (0, m, d8)
      else let (status, d9) = g d8
           in if status AND ATA_STATUS_ERR \<noteq> 0 then (0, m, d9)
              else let (ws, d10) = read_words io (iobase + ATA_DATA) (256 * unat n) d9
                   in (n, store_words m buffer ws, d10)) = (0, m, d')) \<or>
    (\<exists>d0. (let (ready, d8) = w in if \<not> ready then (0, m, d8)
      else let (status, d9) = g d8
           in if status AND ATA_STATUS_ERR \<noteq> 0 then (0, m, d9)
              else let (ws, d10) = read_words io (iobase + ATA_DATA) (256 * unat n) d9
                   in (n, store_words m buffer ws, d10)) =
      (n, store_words m buffer (fst (read_words io (iobase + ATA_DATA) (256 * unat n) d0)),
       snd (read_words io (iobase + ATA_DATA) (256 * unat n) d0)))" for w and g :: "'d \<Rightarrow> u8 \<times> 'd"
    by (cases w) (auto simp: Let_def case_prod_beta)
  obtain sel d1 where s: "SelectDevice io iobase dev d = (sel, d1)" by fastforce
  show ?thesis
  proof (cases sel)
    case True
    then show ?thesis
      unfolding read_sectors_def s Let_def [of "(sel, d1)"] prod.case Let_def [of "ucast _"] Let_def [of "io_outb _ _ _ _"]
      using * by simp
  next
    case False
    then show ?thesis by (simp add: read_sectors_def s)
  qed
qed

section \<open>Properties\<close>


text \<open>A disk that is never busy, has no error and delivers the numbers 0, 1, 2, \<open>\<dots>\<close>.\<close>

definition demo_disk :: "nat port_io" where
  "demo_disk = \<lparr>io_inb = \<lambda>p d. (0x50, d), io_inw = \<lambda>p d. (of_nat d, Suc d), io_outb = \<lambda>p v d. d\<rparr>"

definition demo_controller :: "u32 \<Rightarrow> IDEController" where
  "demo_controller cap = \<lparr>base = 0x1F0, devices = [(new_device 0)\<lparr>present := True, capacity := cap\<rparr>, new_device 1]\<rparr>"

lemma demo_disk_steps:
  "SelectDevice demo_disk iobase dev d = (True, d)"
  "WaitForDevice demo_disk iobase ATA_STATUS_BUSY 0 ATA_TIMEOUT d = (True, d)"
  "io_inb demo_disk p d = (0x50, d)" "io_outb demo_disk p v d = d"
proof -
  show "WaitForDevice demo_disk iobase ATA_STATUS_BUSY 0 ATA_TIMEOUT d = (True, d)"
    by (subst WaitForDevice.simps) (simp add: demo_disk_def ATA_STATUS_BUSY_def ATA_TIMEOUT_def)
qed (simp_all add: SelectDevice_def demo_disk_def ATA_STATUS_BUSY_def ATA_STATUS_DRQ_def)

lemma demo_disk_reads:
  assumes "nblocks \<noteq> 0" "nblocks < 256" "block + ucast nblocks \<le> ucast cap"
  shows "fst (PATA_Read demo_disk (demo_controller cap) block nblocks buffer m d) = nblocks"
proof -
  have "fst (read_sectors demo_disk iobase dev block nblocks buffer m d) = nblocks" for iobase dev
    by (simp add: read_sectors_def demo_disk_steps Let_def case_prod_beta ATA_STATUS_ERR_def)
  moreover have "\<not> 256 \<le> nblocks" using assms(2) by simp
  ultimately show ?thesis using assms(1,3) by (simp add: PATA_Read_def demo_controller_def Let_def)
qed


text \<open>
  The range check wraps: a request for the last \<open>n\<close> block numbers of 64 bits passes on a disk of any capacity, even
  an empty one, and reads low sectors of the disk instead.
\<close>

theorem range_check_wraps:
  assumes "nblocks \<noteq> 0" "nblocks < 256"
  shows "fst (PATA_Read demo_disk (demo_controller 0) (- ucast nblocks) nblocks buffer m d) = nblocks"
  by (rule demo_disk_reads [OF assms]) simp

text \<open>The capacity of a disk with logical block addressing is the lower half only of the number it reports.\<close>

lemma capacity_truncated:
  assumes "bit (info ! 49) 9"
  shows "unat (capacity (set_geometry info dev)) = unat (info ! 60)"
proof -
  have "drop_bit 9 (info ! 49) AND 1 \<noteq> 0" using assms by (simp add: and_one_eq bit_iff_odd_drop_bit odd_iff_mod_2_eq_one)
  moreover have "unat (ucast (info ! 60) :: u32) = unat (info ! 60)"
    using unat_less_2p [of "info ! 60"] by (simp add: unsigned_ucast_eq take_bit_nat_eq_self_iff)
  ultimately show ?thesis by (simp add: set_geometry_def Let_def)
qed

end
