(* ===== verification/Pci.thy ===== *)
theory Pci
  imports Ports
begin

text \<open>
  Access to the configuration registers of PCI devices and the decoding of base address registers, the
  first part of \<^verbatim>\<open>src/src/include/drivers/igpu.cpp\<close>. What the properties need of the bus is the
  predicate \<open>config_device\<close>: the address port selects a register, the data port reads and writes it,
  and a write changes the writable bits only.
\<close>

section \<open>Configuration registers\<close>

definition config_address :: "i32 \<Rightarrow> i32 \<Rightarrow> i32 \<Rightarrow> u8 \<Rightarrow> u32" where
  "config_address bus device func offs =
     0x80000000 OR push_bit 16 bus OR push_bit 11 device OR push_bit 8 func OR ucast offs"

definition ReadPciRegister16 :: "('d, 'z) wide_io_scheme \<Rightarrow> i32 \<Rightarrow> i32 \<Rightarrow> i32 \<Rightarrow> u8 \<Rightarrow> 'd \<Rightarrow> u16 \<times> 'd" where
  "ReadPciRegister16 io bus device func offs d =
     io_inw io 0xCFC (io_outd io 0xCF8 (config_address bus device func offs) d)"

definition ReadPciRegister32 :: "('d, 'z) wide_io_scheme \<Rightarrow> i32 \<Rightarrow> i32 \<Rightarrow> i32 \<Rightarrow> u8 \<Rightarrow> 'd \<Rightarrow> u32 \<times> 'd" where
  "ReadPciRegister32 io bus device func offs d =
     io_ind io 0xCFC (io_outd io 0xCF8 (config_address bus device func offs) d)"

definition ReadPciRegister64 :: "('d, 'z) wide_io_scheme \<Rightarrow> i32 \<Rightarrow> i32 \<Rightarrow> i32 \<Rightarrow> u8 \<Rightarrow> 'd \<Rightarrow> u64 \<times> 'd" where
  "ReadPciRegister64 io bus device func offs d =
     (let (high, d1) = ReadPciRegister32 io bus device func (offs + 4) d;
          (low, d2) = ReadPciRegister32 io bus device func offs d1
      in (push_bit 32 (ucast high) OR ucast low, d2))"

definition WritePciRegister16 :: "('d, 'z) wide_io_scheme \<Rightarrow> i32 \<Rightarrow> i32 \<Rightarrow> i32 \<Rightarrow> u8 \<Rightarrow> u16 \<Rightarrow> 'd \<Rightarrow> 'd" where
  "WritePciRegister16 io bus device func offs v d =
     io_outw io 0xCFC v (io_outd io 0xCF8 (config_address bus device func offs) d)"

definition WritePciRegister32 :: "('d, 'z) wide_io_scheme \<Rightarrow> i32 \<Rightarrow> i32 \<Rightarrow> i32 \<Rightarrow> u8 \<Rightarrow> u32 \<Rightarrow> 'd \<Rightarrow> 'd" where
  "WritePciRegister32 io bus device func offs v d =
     io_outd io 0xCFC v (io_outd io 0xCF8 (config_address bus device func offs) d)"

section \<open>Base address registers\<close>

text \<open>The register's offset is computed in 64 bits and passed as a byte.\<close>

definition bar_offset :: "i32 \<Rightarrow> u8" where
  "bar_offset ix = ucast (ucast (0x10 + scast ix * 4 :: u64) :: u32)"

definition PciReadBar :: "('d, 'z) wide_io_scheme \<Rightarrow> i32 \<Rightarrow> i32 \<Rightarrow> i32 \<Rightarrow> i32 \<Rightarrow> 'd \<Rightarrow> (u32 \<times> u32) \<times> 'd" where
  "PciReadBar io bus device func ix d =
     (let reg = bar_offset ix;
          (address, d1) = ReadPciRegister32 io bus device func reg d;
          d2 = WritePciRegister32 io bus device func reg 0xffffffff d1;
          (msk, d3) = ReadPciRegister32 io bus device func reg d2
      in ((address, msk), WritePciRegister32 io bus device func reg address d3))"

record PciBar =
  bar_base :: u64
  bar_size :: u64
  is_io :: bool

definition PciGetBar :: "('d, 'z) wide_io_scheme \<Rightarrow> i32 \<Rightarrow> i32 \<Rightarrow> i32 \<Rightarrow> i32 \<Rightarrow> 'd \<Rightarrow> PciBar \<times> 'd" where
  "PciGetBar io bus dev func ix d =
     (let ((addressLow, maskLow), d1) = PciReadBar io bus dev func ix d
      in if addressLow AND 0x04 \<noteq> 0
         then let ((addressHigh, maskHigh), d2) = PciReadBar io bus dev func (ix + 1) d1
              in (\<lparr>bar_base = push_bit 32 (ucast addressHigh) OR ucast (addressLow AND NOT 0xf),
                   bar_size = NOT (push_bit 32 (ucast maskHigh) OR ucast (maskLow AND NOT 0xf)) + 1,
                   is_io = False\<rparr>, d2)
         else if addressLow AND 1 \<noteq> 0
         then (\<lparr>bar_base = ucast (ucast (addressLow AND NOT 3) :: u16),
                bar_size = ucast (ucast (NOT (maskLow AND NOT 0x3) + 1) :: u16), is_io = True\<rparr>, d1)
         else (\<lparr>bar_base = ucast (addressLow AND NOT 0xf),
                bar_size = ucast (NOT (maskLow AND NOT 0xf) + 1), is_io = False\<rparr>, d1))"

section \<open>What the bus does\<close>

text \<open>
  The configuration mechanism the driver relies on: writing the address port selects the register,
  the data port reads the selected register, and writing the data port replaces its writable bits.
\<close>

definition config_device :: "('d, 'z) wide_io_scheme \<Rightarrow> ('d \<Rightarrow> u32) \<Rightarrow> ('d \<Rightarrow> u32 \<Rightarrow> u32) \<Rightarrow> (u32 \<Rightarrow> u32) \<Rightarrow> bool" where
  "config_device io sel regs wm \<longleftrightarrow>
     (\<forall>a d. sel (io_outd io 0xCF8 a d) = a \<and> regs (io_outd io 0xCF8 a d) = regs d) \<and>
     (\<forall>d. io_ind io 0xCFC d = (regs d (sel d), d)) \<and>
     (\<forall>v d. regs (io_outd io 0xCFC v d) =
        (regs d)(sel d := (v AND wm (sel d)) OR (regs d (sel d) AND NOT (wm (sel d)))))"

definition probed :: "u32 \<Rightarrow> u32 \<Rightarrow> u32" where
  "probed w old = w OR (old AND NOT w)"

lemma config_device_simps:
  assumes "config_device io sel regs wm"
  shows "sel (io_outd io 0xCF8 a d) = a" "regs (io_outd io 0xCF8 a d) = regs d"
    "io_ind io 0xCFC d = (regs d (sel d), d)"
    "regs (io_outd io 0xCFC v d) =
        (regs d)(sel d := (v AND wm (sel d)) OR (regs d (sel d) AND NOT (wm (sel d))))"
  using assms unfolding config_device_def by simp_all

text \<open>Reading a base address register gives its value and its probed size mask, and puts it back.\<close>

lemma PciReadBar_probes:
  assumes c: "config_device io sel regs wm" and a: "a = config_address bus device func (bar_offset ix)"
  obtains d' where "PciReadBar io bus device func ix d = ((regs d a, probed (wm a) (regs d a)), d')" "regs d' = regs d"
proof -
  note simps = config_device_simps [OF c]
  have m: "(0xffffffff :: u32) = - 1" by simp
  have w: "(0xffffffff AND wm a) OR (regs d a AND NOT (wm a)) = probed (wm a) (regs d a)"
    unfolding m probed_def by simp
  have restored: "(v AND x) OR ((0xffffffff AND x OR (v AND NOT x)) AND NOT x) = (v :: u32)" for v x
    unfolding m by (rule bit_word_eqI) (auto simp: bit_simps)
  define d3 where "d3 = snd (PciReadBar io bus device func ix d)"
  have "PciReadBar io bus device func ix d = ((regs d a, probed (wm a) (regs d a)), d3) \<and> regs d3 = regs d"
    unfolding d3_def PciReadBar_def ReadPciRegister32_def WritePciRegister32_def Let_def a [symmetric] simps prod.case
      fun_upd_same fun_upd_upd w
    by (simp add: simps probed_def restored)
  then show thesis by (blast intro: that)
qed

section \<open>Memory ranges\<close>

text \<open>
  A device decodes the \<open>2 ^ k\<close> bytes from \<open>b\<close>: the bits of the address below \<open>k\<close> cannot be written and read
  as zero, save the type bits; bit 2 tells whether the next register holds the upper half.
\<close>

definition memory_bar :: "(u32 \<Rightarrow> u32) \<Rightarrow> (u32 \<Rightarrow> u32) \<Rightarrow> u32 \<Rightarrow> u32 \<Rightarrow> u64 \<Rightarrow> nat \<Rightarrow> bool" where
  "memory_bar r wm lo hi b k \<longleftrightarrow> 4 \<le> k \<and> b AND mask k = 0 \<and> r lo AND NOT 0xf = ucast b \<and>
     (if r lo AND 0x04 \<noteq> 0
      then k < 64 \<and> r hi = ucast (drop_bit 32 b) \<and> wm lo = ucast (NOT (mask k) :: u64) \<and>
        wm hi = ucast (drop_bit 32 (NOT (mask k) :: u64))
      else k < 32 \<and> r lo AND 1 = 0 \<and> drop_bit 32 b = 0 \<and> wm lo = NOT (mask k))"

lemma not_mask_plus_1: "NOT (NOT (mask k)) + 1 = (2 ^ k :: 'a::len word)"
  by (simp add: mask_eq_exp_minus_1)

lemma nibble: "(0xf :: u32) = mask 4"
  by (simp add: mask_eq_exp_minus_1)

lemma and_mask_bit: "(b :: 'a::len word) AND mask k = 0 \<Longrightarrow> n < k \<Longrightarrow> \<not> bit b n"
proof
  assume z: "b AND mask k = 0" and n: "n < k" and b: "bit b n"
  have "n < LENGTH('a)" using b by (rule bit_imp_le_length)
  then have "bit (b AND mask k) n" using b n unfolding bit_and_iff bit_mask_iff by simp
  then show False unfolding z by simp
qed

lemma low_bits_of:
  assumes "(r :: u32) AND NOT (mask j) = ucast (b :: u64)" "j \<le> n" "n < 32"
  shows "bit r n = bit b n"
proof -
  have "bit (r AND NOT (mask j)) n = bit (ucast b :: u32) n" using assms(1) by (rule arg_cong)
  then show ?thesis
    using assms(2,3) unfolding bit_and_iff bit_not_iff bit_mask_iff bit_unsigned_iff by simp
qed

lemma probed_type:
  assumes "j \<le> k" "b AND mask k = 0" "r AND NOT (mask j) = ucast (b :: u64)"
  shows "probed (NOT (mask k)) r AND NOT (mask j) = NOT (mask k :: u32)"
proof (rule bit_word_eqI)
  fix n assume n: "n < LENGTH(32)"
  then have n: "n < 32" by simp
  show "bit (probed (NOT (mask k)) r AND NOT (mask j)) n = bit (NOT (mask k) :: u32) n"
    using n assms(1) low_bits_of [OF assms(3), of n] and_mask_bit [OF assms(2)]
    unfolding probed_def bit_and_iff bit_or_iff bit_not_iff bit_mask_iff by auto
qed

lemmas probed_low = probed_type [of 4, folded nibble]

lemma ucast_not_mask: "(ucast (NOT (mask k) :: u64) :: u32) = NOT (mask k)"
proof (rule bit_word_eqI)
  fix n assume "n < LENGTH(32)"
  then show "bit (ucast (NOT (mask k) :: u64) :: u32) n = bit (NOT (mask k) :: u32) n"
    unfolding bit_unsigned_iff bit_not_iff bit_mask_iff by auto
qed

lemma probed_wide:
  assumes k: "4 \<le> k" "b AND mask k = 0" "lo AND NOT 0xf = ucast (b :: u64)" and hi: "hi = (ucast (drop_bit 32 b) :: u32)"
  shows "push_bit 32 (ucast (probed (ucast (drop_bit 32 (NOT (mask k) :: u64))) hi))
     OR ucast (probed (ucast (NOT (mask k) :: u64)) lo AND NOT 0xf) = NOT (mask k :: u64)"
  unfolding ucast_not_mask probed_low [OF k]
proof (rule bit_word_eqI)
  fix n assume "n < LENGTH(64)"
  then have n: "n < 64" by simp
  show "bit (push_bit 32 (ucast (probed (ucast (drop_bit 32 (NOT (mask k) :: u64))) hi)) OR ucast (NOT (mask k) :: u32) :: u64) n
    = bit (NOT (mask k) :: u64) n"
    using n and_mask_bit [OF k(2), of n]
    unfolding hi probed_def bit_or_iff bit_and_iff bit_not_iff bit_push_bit_iff bit_unsigned_iff bit_drop_bit_eq bit_mask_iff comp_def
    by auto
qed

lemma join_halves:
  assumes "(lo :: u32) AND NOT 0xf = ucast b" "hi = (ucast (drop_bit 32 b) :: u32)"
  shows "push_bit 32 (ucast hi) OR ucast (lo AND NOT 0xf) = (b :: u64)"
  unfolding assms
proof (rule bit_word_eqI)
  fix n assume n: "n < LENGTH(64)"
  show "bit (push_bit 32 (ucast (ucast (drop_bit 32 b) :: u32)) OR ucast (ucast b :: u32) :: u64) n = bit b n"
    using n unfolding bit_or_iff bit_push_bit_iff bit_unsigned_iff bit_drop_bit_eq comp_def by auto
qed

section \<open>Decoding\<close>

lemma PciGetBar_wide:
  assumes "PciReadBar io bus dev func ix d = ((lo, mlo), d1)" "PciReadBar io bus dev func (ix + 1) d1 = ((hi, mhi), d2)"
    "lo AND 0x04 \<noteq> 0"
  shows "PciGetBar io bus dev func ix d =
    (\<lparr>bar_base = push_bit 32 (ucast hi) OR ucast (lo AND NOT 0xf),
      bar_size = NOT (push_bit 32 (ucast mhi) OR ucast (mlo AND NOT 0xf)) + 1, is_io = False\<rparr>, d2)"
  unfolding PciGetBar_def assms(1,2) Let_def prod.case if_P [OF assms(3)] ..

lemma PciGetBar_narrow:
  assumes "PciReadBar io bus dev func ix d = ((lo, mlo), d1)" "lo AND 0x04 = 0" "lo AND 1 = 0"
  shows "PciGetBar io bus dev func ix d =
    (\<lparr>bar_base = ucast (lo AND NOT 0xf), bar_size = ucast (NOT (mlo AND NOT 0xf) + 1), is_io = False\<rparr>, d1)"
  unfolding PciGetBar_def assms Let_def prod.case by simp

lemma PciGetBar_ports:
  assumes "PciReadBar io bus dev func ix d = ((lo, mlo), d1)" "lo AND 0x04 = 0" "lo AND 1 \<noteq> 0"
  shows "PciGetBar io bus dev func ix d =
    (\<lparr>bar_base = ucast (ucast (lo AND NOT 3) :: u16),
      bar_size = ucast (ucast (NOT (mlo AND NOT 0x3) + 1) :: u16), is_io = True\<rparr>, d1)"
  unfolding PciGetBar_def assms(1) Let_def prod.case using assms(2,3) by simp

lemma ucast_pow2: "k < 32 \<Longrightarrow> ucast (2 ^ k :: u32) = (2 ^ k :: u64)"
  by (rule bit_word_eqI) (auto simp: bit_unsigned_iff bit_exp_iff)

text \<open>C37. A memory base address register is decoded: whether the device decodes 32 or 64 address bits, \<^verbatim>\<open>PciGetBar\<close> returns the
  base and the size of its range, says that it is memory, and leaves every configuration register as it was.\<close>

theorem pci_memory_bar:
  assumes c: "config_device io sel regs wm"
    and m: "memory_bar (regs d) wm (config_address bus dev func (bar_offset ix))
      (config_address bus dev func (bar_offset (ix + 1))) b k"
  shows "\<exists>d'. PciGetBar io bus dev func ix d = (\<lparr>bar_base = b, bar_size = 2 ^ k, is_io = False\<rparr>, d') \<and>
    regs d' = regs d"
proof -
  let ?lo = "config_address bus dev func (bar_offset ix)"
  let ?hi = "config_address bus dev func (bar_offset (ix + 1))"
  obtain d1 where r1: "PciReadBar io bus dev func ix d = ((regs d ?lo, probed (wm ?lo) (regs d ?lo)), d1)"
    and d1: "regs d1 = regs d" by (rule PciReadBar_probes [OF c refl])
  obtain d2 where r2: "PciReadBar io bus dev func (ix + 1) d1 = ((regs d ?hi, probed (wm ?hi) (regs d ?hi)), d2)"
    and d2: "regs d2 = regs d" by (rule PciReadBar_probes [OF c refl, of bus dev func "ix + 1" d1, unfolded d1])
  have k: "4 \<le> k" "b AND mask k = 0" "regs d ?lo AND NOT 0xf = ucast b"
    using m unfolding memory_bar_def by simp_all
  show ?thesis
  proof (cases "regs d ?lo AND 0x04 = 0")
    case False
    then have w: "regs d ?hi = ucast (drop_bit 32 b)" "wm ?lo = ucast (NOT (mask k) :: u64)"
        "wm ?hi = ucast (drop_bit 32 (NOT (mask k) :: u64))"
      using m unfolding memory_bar_def by simp_all
    show ?thesis
      using PciGetBar_wide [OF r1 r2 False] d2
      unfolding w(2,3) join_halves [OF k(3) w(1)] probed_wide [OF k w(1)] not_mask_plus_1 by blast
  next
    case True
    then have w: "k < 32" "regs d ?lo AND 1 = 0" "drop_bit 32 b = 0" "wm ?lo = NOT (mask k)"
      using m unfolding memory_bar_def by simp_all
    have "b = take_bit 32 b" using w(3) by (metis bits_ident add_cancel_right_left push_bit_of_0)
    then have b: "ucast (ucast b :: u32) = b" by (simp add: unsigned_ucast_eq)
    show ?thesis
      using PciGetBar_narrow [OF r1 True w(2)] d1
      unfolding w(4) probed_low [OF k] k(3) not_mask_plus_1 ucast_pow2 [OF w(1)] b by blast
  qed
qed

definition demo_bus :: "((u32 \<Rightarrow> u32) \<times> u32) wide_io" where
  "demo_bus = \<lparr>io_inb = (\<lambda>p d. (0, d)), io_inw = (\<lambda>p d. (0, d)), io_outb = (\<lambda>p v d. d), io_outw = (\<lambda>p v d. d),
     io_ind = (\<lambda>p (r, s). (r s, (r, s))),
     io_outd = (\<lambda>p v (r, s). if p = 0xCF8 then (r, v)
       else (r(s := (v AND NOT (mask 28)) OR (r s AND NOT (NOT (mask 28)))), s))\<rparr>"

definition demo_bars :: "u32 \<Rightarrow> u32" where
  "demo_bars = (\<lambda>a. if a = 0x80001018 then 0xE0000008 else 0)"

lemma demo_bus_config: "config_device demo_bus snd fst (\<lambda>_. NOT (mask 28))"
  unfolding config_device_def demo_bus_def by (simp split: prod.split)

theorem pci_memory_bar_witness:
  "\<exists>d'. PciGetBar demo_bus 0 2 0 2 (demo_bars, 0) = (\<lparr>bar_base = 0xE0000000, bar_size = 2 ^ 28, is_io = False\<rparr>, d') \<and>
    fst d' = demo_bars"
proof -
  have "(mask 28 :: u64) = 0xFFFFFFF" "(mask 28 :: u32) = 0xFFFFFFF" by (simp_all add: mask_eq_exp_minus_1)
  then have "memory_bar (fst (demo_bars, 0 :: u32)) (\<lambda>_. NOT (mask 28)) (config_address 0 2 0 (bar_offset 2))
      (config_address 0 2 0 (bar_offset (2 + 1))) 0xE0000000 28"
    unfolding memory_bar_def by (simp add: config_address_def bar_offset_def demo_bars_def)
  from pci_memory_bar [OF demo_bus_config this] show ?thesis by simp
qed

text \<open>Port ranges: decoded when bit 2 of the address is clear; with it set the register is taken for 64-bit memory.\<close>

lemma pci_port_bar:
  assumes c: "config_device io sel regs wm" and a: "a = config_address bus dev func (bar_offset ix)"
    and t: "regs d a AND 0x04 = 0" "regs d a AND 1 \<noteq> 0"
    and k: "2 \<le> k" "b AND mask k = 0" "regs d a AND NOT 3 = ucast (b :: u64)" "wm a = NOT (mask k)"
  shows "\<exists>d'. PciGetBar io bus dev func ix d = (\<lparr>bar_base = ucast (ucast b :: u16),
    bar_size = ucast (2 ^ k :: u16), is_io = True\<rparr>, d') \<and> regs d' = regs d"
proof -
  obtain d1 where r1: "PciReadBar io bus dev func ix d = ((regs d a, probed (wm a) (regs d a)), d1)"
    and d1: "regs d1 = regs d" by (rule PciReadBar_probes [OF c a])
  have m: "(3 :: u32) = mask 2" "(0x3 :: u32) = mask 2" by (simp_all add: mask_eq_exp_minus_1)
  have s: "(ucast (2 ^ k :: u32) :: u16) = 2 ^ k" "(ucast (ucast b :: u32) :: u16) = ucast b"
    by (rule bit_word_eqI, auto simp: bit_unsigned_iff bit_exp_iff)+
  show ?thesis
    using PciGetBar_ports [OF r1 t] d1 unfolding k(4) m probed_type [OF k(1,2) k(3) [unfolded m]]
      k(3) [unfolded m] not_mask_plus_1 s by blast
qed

lemma pci_port_bar_misread:
  assumes c: "config_device io sel regs wm" and a: "a = config_address bus dev func (bar_offset ix)"
    and t: "regs d a AND 0x04 \<noteq> 0" "regs d a AND 1 \<noteq> 0"
  shows "\<not> is_io (fst (PciGetBar io bus dev func ix d))"
proof -
  obtain d1 where r1: "PciReadBar io bus dev func ix d = ((regs d a, probed (wm a) (regs d a)), d1)"
    by (rule PciReadBar_probes [OF c a])
  obtain hi mhi d2 where r2: "PciReadBar io bus dev func (ix + 1) d1 = ((hi, mhi), d2)" by (metis prod.exhaust)
  show ?thesis unfolding PciGetBar_wide [OF r1 r2 t(1)] by simp
qed

end
