(* ===== verification/Igpu.thy ===== *)
theory Igpu
  imports Pci Vmm
begin

text \<open>
  The Intel graphics driver, the second part of \<^verbatim>\<open>src/src/include/drivers/igpu.cpp\<close> with
  \<^verbatim>\<open>igpu_regs.h\<close>: it maps the register window, turns the panel on, sizes the graphics memory, and sets up
  a command ring. The device is a state \<open>'d\<close> with the port accesses and the accesses to the mapped
  window as a record of functions; the aperture, which the driver clears and writes through the
  direct map, is part of physical memory. Printed diagnostics are left out, but the register reads
  inside their arguments are not. The kernel does not start this driver.
\<close>

section \<open>Registers\<close>

record 'd gpu_io = "'d wide_io" +
  mm_rd32 :: "u64 \<Rightarrow> 'd \<Rightarrow> u32 \<times> 'd"
  mm_wr32 :: "u64 \<Rightarrow> u32 \<Rightarrow> 'd \<Rightarrow> 'd"
  mm_wr64 :: "u64 \<Rightarrow> u64 \<Rightarrow> 'd \<Rightarrow> 'd"

definition IGFX_IO_VADDR :: u64 where "IGFX_IO_VADDR = 0xffffc00000000000"

definition RCS_HWS_PGA :: u32 where "RCS_HWS_PGA = 0x04080"
definition RCS_RINGBUF_BUFFER_TAIL :: u32 where "RCS_RINGBUF_BUFFER_TAIL = 0x2030"
definition RCS_RINGBUF_BUFFER_HEAD :: u32 where "RCS_RINGBUF_BUFFER_HEAD = 0x2034"
definition RCS_RINGBUF_BUFFER_START :: u32 where "RCS_RINGBUF_BUFFER_START = 0x2038"
definition RCS_RINGBUF_BUFFER_CTRL :: u32 where "RCS_RINGBUF_BUFFER_CTRL = 0x203C"
definition NOPID :: u32 where "NOPID = 0x2094"
definition BLC_PWM_CTL :: u32 where "BLC_PWM_CTL = 0x48250"
definition BLC_PWM_DATA :: u32 where "BLC_PWM_DATA = 0x48254"
definition PP_CONTROL :: u32 where "PP_CONTROL = 0xC7204"
definition SBLC_PWM_CTL2 :: u32 where "SBLC_PWM_CTL2 = 0xC8254"
definition LVDS_CTL :: u32 where "LVDS_CTL = 0xE1180"

definition HWS_PGA :: "u32 \<Rightarrow> u32" where "HWS_PGA r = RCS_HWS_PGA + push_bit 8 r"
definition RING_BUFFER_TAIL :: "u32 \<Rightarrow> u32" where "RING_BUFFER_TAIL r = RCS_RINGBUF_BUFFER_TAIL + push_bit 8 r"
definition RING_BUFFER_HEAD :: "u32 \<Rightarrow> u32" where "RING_BUFFER_HEAD r = RCS_RINGBUF_BUFFER_HEAD + push_bit 8 r"
definition RING_BUFFER_START :: "u32 \<Rightarrow> u32" where "RING_BUFFER_START r = RCS_RINGBUF_BUFFER_START + push_bit 8 r"
definition RING_BUFFER_CTL :: "u32 \<Rightarrow> u32" where "RING_BUFFER_CTL r = RCS_RINGBUF_BUFFER_CTRL + push_bit 8 r"
definition MI_INSTR :: "u32 \<Rightarrow> u32 \<Rightarrow> u32" where "MI_INSTR opcode flags = push_bit 23 opcode OR flags"

text \<open>The window is an array of 32-bit registers, indexed by \<^verbatim>\<open>reg / 4\<close>; \<open>iobase\<close> is its address.\<close>

definition register_at :: "u64 \<Rightarrow> u32 \<Rightarrow> u64" where
  "register_at iobase reg = iobase + 4 * ucast (reg div 4)"

definition WriteIgpu32 :: "('d, 'z) gpu_io_scheme \<Rightarrow> u64 \<Rightarrow> u32 \<Rightarrow> u32 \<Rightarrow> 'd \<Rightarrow> 'd" where
  "WriteIgpu32 io iobase reg v d = mm_wr32 io (register_at iobase reg) v d"

definition WriteIgpu64 :: "('d, 'z) gpu_io_scheme \<Rightarrow> u64 \<Rightarrow> u32 \<Rightarrow> u64 \<Rightarrow> 'd \<Rightarrow> 'd" where
  "WriteIgpu64 io iobase reg v d = mm_wr64 io (register_at iobase reg) v d"

definition ReadIgpu32 :: "('d, 'z) gpu_io_scheme \<Rightarrow> u64 \<Rightarrow> u32 \<Rightarrow> 'd \<Rightarrow> u32 \<times> 'd" where
  "ReadIgpu32 io iobase reg d = mm_rd32 io (register_at iobase reg) d"

section \<open>State\<close>

datatype DisplayType = DisplayType_Unknown | DisplayType_LVDS | DisplayType_Analog | DisplayType_HDMI
  | DisplayType_DisplayPort

record DisplayInfo =
  display_type :: DisplayType
  isPresent :: bool
  backlightEnabled :: bool
  pipe_assignment :: u32
  max_backlight_val :: u32

record GfxObject =
  cpuAddr :: u64
  gfxAddr :: u64

record GfxMemRange =
  r_base :: u64
  r_top :: u64
  r_current :: u64

record GfxMemManager =
  vram :: GfxMemRange
  shared :: GfxMemRange
  private_range :: GfxMemRange
  gfxMemBase :: u64
  gfxMemNext :: u64

datatype GfxRingId = RING_RCS | RING_VCS | RING_BCS | RING_COUNT

fun ring_number :: "GfxRingId \<Rightarrow> u32" where
  "ring_number RING_RCS = 0"
| "ring_number RING_VCS = 1"
| "ring_number RING_BCS = 2"
| "ring_number RING_COUNT = 3"

record GfxRing =
  ring_id :: GfxRingId
  cmdStream :: GfxObject
  statusPage :: GfxObject
  ring_tail :: u64

definition GMS_TO_SIZE :: "u32 list" where
  "GMS_TO_SIZE = List.map (\<lambda>n. n * 1024 * 1024)
     [0, 32, 64, 96, 128, 32, 48, 64, 128, 256, 96, 160, 224, 352, 448, 480, 512]"

record igpu =
  iobase :: u64
  gttAddr :: u64
  stolenMemSize :: u32
  stolenMemBase :: u32
  gttMemSize :: u32
  gttEntryCount :: u32
  gttMappableEntries :: u32
  arpertureBar :: u64
  mem_manager :: GfxMemManager
  csRing :: GfxRing
  surface :: GfxObject
  cursor :: GfxObject
  renderContext :: GfxObject

section \<open>Graphics memory\<close>

text \<open>\<^verbatim>\<open>GfxInitMemManager\<close>; the shifts of the 32-bit entry count are 32 bits wide, the last one 64.\<close>

definition GfxInitMemManager :: "('d, 'z) gpu_io_scheme \<Rightarrow> u64 \<Rightarrow> igpu \<Rightarrow> 'd \<Rightarrow> igpu \<times> 'd" where
  "GfxInitMemManager io hhdm g d =
     (let mm = \<lparr>vram = \<lparr>r_base = 0, r_top = ucast (stolenMemSize g), r_current = 0\<rparr>,
                shared = \<lparr>r_base = ucast (stolenMemSize g), r_top = ucast (push_bit 12 (gttMappableEntries g)),
                          r_current = ucast (stolenMemSize g)\<rparr>,
                private_range = \<lparr>r_base = ucast (push_bit 12 (gttMappableEntries g)),
                                 r_top = push_bit 12 (ucast (gttMappableEntries g)),
                                 r_current = ucast (push_bit 12 (gttMappableEntries g))\<rparr>,
                gfxMemBase = arpertureBar g + 0x400800 + hhdm,
                gfxMemNext = (arpertureBar g + 0x400800 + hhdm) + 4 * (push_bit 12 1)\<rparr>;
          d1 = fold (\<lambda>fenceNum. WriteIgpu64 io (iobase g) (0x100000 + of_nat fenceNum * 8) 0) [0..<16] d
      in (g\<lparr>mem_manager := mm\<rparr>, d1))"

definition GfxAlloc :: "GfxMemManager \<Rightarrow> u32 \<Rightarrow> u32 \<Rightarrow> GfxObject \<times> GfxMemManager" where
  "GfxAlloc mm bytes align =
     (let addr = gfxMemNext mm;
          offset = addr AND ucast (align - 1);
          addr = (if offset \<noteq> 0 then addr + (ucast align - offset) else addr)
      in (\<lparr>cpuAddr = addr, gfxAddr = addr - gfxMemBase mm\<rparr>, mm\<lparr>gfxMemNext := addr + ucast bytes\<rparr>))"

section \<open>Forcing the device awake\<close>

text \<open>The first loop gives up after ten reads in all; the second has no limit.\<close>

function wait_ack_clear :: "('d, 'z) gpu_io_scheme \<Rightarrow> u64 \<Rightarrow> int \<Rightarrow> 'd \<Rightarrow> 'd" where
  "wait_ack_clear io b trys d =
     (let trys = trys + 1;
          (v, d1) = ReadIgpu32 io b 0x130040 d
      in if v AND 1 \<noteq> 0 \<and> trys < 10 then wait_ack_clear io b trys d1 else d1)"
  by pat_completeness auto
termination
  by (relation "measure (\<lambda>(io, b, trys, d). nat (10 - trys))") auto

declare wait_ack_clear.simps [simp del]

definition ack_missing :: "('d, 'z) gpu_io_scheme \<Rightarrow> u64 \<Rightarrow> 'd \<Rightarrow> bool \<times> 'd" where
  "ack_missing io b d = (case ReadIgpu32 io b 0x130040 d of (v, d1) \<Rightarrow> (v AND 1 = 0, d1))"

definition EnterForceWake :: "('d, 'z) gpu_io_scheme \<Rightarrow> u64 \<Rightarrow> 'd \<Rightarrow> 'd option" where
  "EnterForceWake io b d =
     (let d1 = wait_ack_clear io b 0 d;
          d2 = WriteIgpu32 io b 0xA188 (push_bit 16 1 OR 1) d1;
          (_, d3) = ReadIgpu32 io b 0xA180 d2
      in poll (ack_missing io b) d3)"

definition ExitForceWake :: "('d, 'z) gpu_io_scheme \<Rightarrow> u64 \<Rightarrow> 'd \<Rightarrow> 'd" where
  "ExitForceWake io b d = snd (ReadIgpu32 io b 0xA180 (WriteIgpu32 io b 0xA188 (push_bit 16 1) d))"

section \<open>Initialize\<close>

text \<open>Bus mastering and the mapping of the 4 MB register window.\<close>

definition igpu_attach :: "('d, 'z) gpu_io_scheme \<Rightarrow> u64 \<Rightarrow> phys \<Rightarrow> 'd \<Rightarrow> (phys \<times> 'd) result" where
  "igpu_attach io dir s d =
     (let (_, d1) = ReadPciRegister16 io 0 2 0 0x04 d;
          (v, d2) = ReadPciRegister16 io 0 2 0 0x04 d1;
          d3 = WritePciRegister16 io 0 2 0 0x04 (v OR push_bit 2 1) d2;
          (_, d4) = ReadPciRegister16 io 0 2 0 0x04 d3;
          (bar, d5) = ReadPciRegister64 io 0 2 0 0x10 d4;
          io_base = bar AND NOT 7
      in bindE (map_range s dir IGFX_IO_VADDR io_base 0x400000 (PF_present OR PF_readwrite) 0)
           (\<lambda>s1. Inr (s1, snd (ReadPciRegister64 io 0 2 0 0x10 d5))))"

definition igpu_panel :: "('d, 'z) gpu_io_scheme \<Rightarrow> u64 \<Rightarrow> 'd \<Rightarrow> DisplayInfo \<times> 'd" where
  "igpu_panel io b d =
     (let (v, d1) = ReadIgpu32 io b PP_CONTROL d;
          d2 = WriteIgpu32 io b PP_CONTROL (v OR push_bit 2 1) d1;
          (v, d3) = ReadIgpu32 io b BLC_PWM_CTL d2;
          v = v OR push_bit 31 1;
          d4 = WriteIgpu32 io b BLC_PWM_CTL v d3;
          (pwm_mod_freq, d5) = ReadIgpu32 io b SBLC_PWM_CTL2 d4;
          level = drop_bit 16 pwm_mod_freq
      in (\<lparr>display_type = DisplayType_LVDS, isPresent = True, backlightEnabled = True,
            pipe_assignment = drop_bit 29 v AND 1, max_backlight_val = level\<rparr>,
          WriteIgpu32 io b BLC_PWM_DATA (level div 2) d5))"

definition gtt_size :: "u32 \<Rightarrow> u32" where
  "gtt_size ggms = (if ggms = 0 then 0 else if ggms = 1 then 1 * 1024 * 1024
     else if ggms = 2 then 2 * 1024 * 1024 else - 1)"

definition igpu_memory :: "('d, 'z) gpu_io_scheme \<Rightarrow> u64 \<Rightarrow> igpu \<Rightarrow> 'd \<Rightarrow> (igpu \<times> 'd) result" where
  "igpu_memory io hhdm g d =
     (let (ggc, d1) = ReadPciRegister16 io 0 2 0 0x50 d;
          (bdsm, d2) = ReadPciRegister32 io 0 2 0 0x5C d1;
          gms = drop_bit 3 (ucast ggc) AND 0x1F :: u32
      in if length GMS_TO_SIZE \<le> unat gms then Inl OutOfBounds
         else let stolen = GMS_TO_SIZE ! unat gms;
                  gtt = gtt_size (drop_bit 8 (ucast ggc) AND 0x3);
                  (aperture, d3) = PciGetBar io 0 2 0 2 d2;
                  g1 = g\<lparr>stolenMemSize := stolen, gttMemSize := gtt, arpertureBar := bar_base aperture,
                         stolenMemBase := bdsm AND 0xFFF00000, gttEntryCount := gtt div 4,
                         gttMappableEntries := ucast (drop_bit 12 (bar_size aperture))\<rparr>
              in Inr (GfxInitMemManager io hhdm g1 d3))"

definition disable_vga :: "('d, 'z) gpu_io_scheme \<Rightarrow> u64 \<Rightarrow> 'd \<Rightarrow> 'd" where
  "disable_vga io b d =
     (let d1 = io_outb io 0x3c4 0x01 d;
          (v, d2) = io_inb io 0x3c5 d1
      in WriteIgpu32 io b 0x41000 (push_bit 31 1) (io_outb io 0x3c5 (v OR push_bit 5 1) d2))"

text \<open>The objects: the surface, the cursor, and the ring's command and status pages and context, with the two that are cleared.\<close>

definition igpu_objects :: "u64 \<Rightarrow> igpu \<Rightarrow> phys \<Rightarrow> igpu \<times> phys" where
  "igpu_objects hhdm g s =
     (let (sf, mm1) = GfxAlloc (mem_manager g) (16 * 1024 * 1024) 0x40000;
          s1 = s\<lparr>ram := memset (ram s) (cpuAddr sf - hhdm) 0x77 (720 * 400 * 4)\<rparr>;
          (cu, mm2) = GfxAlloc mm1 (64 * 64 * 4 + 8 * 1024) (64 * 1024);
          (cs, mm3) = GfxAlloc mm2 (4 * 1024) (4 * 1024);
          (st, mm4) = GfxAlloc mm3 (4 * 1024) (4 * 1024);
          s2 = s1\<lparr>ram := memset (ram s1) (cpuAddr st - hhdm) 0 (4 * 1024)\<rparr>;
          (rc, mm5) = GfxAlloc mm4 (4 * 1024) (4 * 1024)
      in (g\<lparr>surface := sf, cursor := cu, renderContext := rc, mem_manager := mm5,
            csRing := \<lparr>ring_id = RING_RCS, cmdStream = cs, statusPage = st, ring_tail = cpuAddr cs\<rparr>\<rparr>, s2))"

definition ring_registers :: "('d, 'z) gpu_io_scheme \<Rightarrow> u64 \<Rightarrow> GfxRing \<Rightarrow> 'd \<Rightarrow> 'd" where
  "ring_registers io b r d =
     (let n = ring_number (ring_id r);
          d1 = WriteIgpu32 io b (HWS_PGA n) (ucast (gfxAddr (statusPage r))) d;
          d2 = WriteIgpu32 io b (RING_BUFFER_TAIL n) 0 d1;
          d3 = WriteIgpu32 io b (RING_BUFFER_HEAD n) 0 d2;
          d4 = WriteIgpu32 io b (RING_BUFFER_START n) (ucast (gfxAddr (cmdStream r))) d3
      in WriteIgpu32 io b (RING_BUFFER_CTL n) (push_bit 12 0 OR 1) d4)"

text \<open>Under forced wake; when the device never answers, the driver hangs.\<close>

definition while_awake :: "('d, 'z) gpu_io_scheme \<Rightarrow> u64 \<Rightarrow> ('d \<Rightarrow> 'd) \<Rightarrow> 'd \<Rightarrow> 'd result" where
  "while_awake io b f d =
     (case EnterForceWake io b d of None \<Rightarrow> Inl Diverges | Some d1 \<Rightarrow> Inr (ExitForceWake io b (f d1)))"

text \<open>One no-operation command is written to the stream and the tail moved behind it.\<close>

definition igpu_ring :: "('d, 'z) gpu_io_scheme \<Rightarrow> u64 \<Rightarrow> igpu \<Rightarrow> phys \<Rightarrow> 'd \<Rightarrow> (igpu \<times> phys \<times> 'd) result" where
  "igpu_ring io hhdm g s d =
     bindE (while_awake io (iobase g) (ring_registers io (iobase g) (csRing g)) d) (\<lambda>d1.
     let r = csRing g;
         cmd = MI_INSTR 0 0 OR push_bit 22 1 OR 0xaa55;
         s1 = s\<lparr>ram := store_bytes (ram s) (ring_tail r - hhdm)
                  (List.map (\<lambda>k. ucast (drop_bit (8 * k) cmd)) [0, 1, 2, 3])\<rparr>;
         r1 = r\<lparr>ring_tail := ring_tail r + 4\<rparr>;
         tailIndex = ucast (ring_tail r1 - cpuAddr (cmdStream r1)) :: u32
     in bindE (while_awake io (iobase g)
               (WriteIgpu32 io (iobase g) (RING_BUFFER_TAIL (ring_number (ring_id r1))) tailIndex) d1) (\<lambda>d2.
        Inr (g\<lparr>csRing := r1\<rparr>, s1, snd (ReadIgpu32 io (iobase g) NOPID d2))))"

definition IntelGpu_Initialize ::
  "('d, 'z) gpu_io_scheme \<Rightarrow> u64 \<Rightarrow> u64 \<Rightarrow> igpu \<Rightarrow> phys \<Rightarrow> 'd \<Rightarrow> (igpu \<times> phys \<times> 'd) result" where
  "IntelGpu_Initialize io hhdm dir g s d =
     bindE (igpu_attach io dir s d) (\<lambda>(s1, d1).
     let g1 = g\<lparr>iobase := IGFX_IO_VADDR, gttAddr := IGFX_IO_VADDR + 2 * 1024 * 1024\<rparr>;
         (lvds, d2) = ReadIgpu32 io (iobase g1) LVDS_CTL d1
     in if lvds AND push_bit 1 1 = 0 then Inr (g1, s1, d2)
        else let (_, d3) = igpu_panel io (iobase g1) d2
             in bindE (igpu_memory io hhdm g1 d3) (\<lambda>(g2, d4).
                let d5 = disable_vga io (iobase g2) d4;
                    (g3, s2) = igpu_objects hhdm g2 s1
                in igpu_ring io hhdm g3 s2 d5))"

section \<open>Allocation of graphics memory\<close>

lemma and_pow2_minus_1: "k < 32 \<Longrightarrow> (a :: u64) AND ucast ((2 ^ k :: u32) - 1) = take_bit k a"
proof -
  assume k: "k < 32"
  have "(2 ^ k :: u32) - 1 = mask k" by (simp add: mask_eq_exp_minus_1)
  moreover have "(ucast (mask k :: u32) :: u64) = mask k"
    using k by (intro bit_word_eqI) (auto simp: bit_unsigned_iff bit_mask_iff)
  ultimately show ?thesis by (simp add: take_bit_eq_mask)
qed

lemma GfxAlloc_eq:
  assumes "k < 32"
  shows "GfxAlloc mm bytes (2 ^ k) =
    (let a = (if take_bit k (gfxMemNext mm) = 0 then gfxMemNext mm
              else gfxMemNext mm + (2 ^ k - take_bit k (gfxMemNext mm)))
     in (\<lparr>cpuAddr = a, gfxAddr = a - gfxMemBase mm\<rparr>, mm\<lparr>gfxMemNext := a + ucast bytes\<rparr>))"
proof -
  have p: "(ucast (2 ^ k :: u32) :: u64) = 2 ^ k" using assms by (rule ucast_pow2)
  show ?thesis unfolding GfxAlloc_def Let_def and_pow2_minus_1 [OF assms] p by simp
qed

lemma unat_take_bit: "unat (take_bit k (a :: 'a::len word)) = unat a mod 2 ^ k"
  unfolding unsigned_take_bit_eq take_bit_nat_def ..

lemma unat_pow2: "k < 64 \<Longrightarrow> unat (2 ^ k :: u64) = 2 ^ k"
proof -
  assume k: "k < 64"
  then have "unat (of_nat (2 ^ k) :: u64) = take_bit 64 (2 ^ k)" by (simp only: unsigned_of_nat len_num1 len_bit0 of_nat_id) simp
  then show ?thesis using k by (simp add: take_bit_nat_eq_self)
qed

lemma round_up_bounds:
  fixes n :: u64
  assumes k: "k < 32" and w: "unat n + 2 ^ k < 2 ^ 64"
    and a: "a = (if take_bit k n = 0 then n else n + (2 ^ k - take_bit k n))"
  shows "unat a mod 2 ^ k = 0 \<and> unat n \<le> unat a \<and> unat a < unat n + 2 ^ k"
proof (cases "unat n mod 2 ^ k = 0")
  case True
  then have "take_bit k n = 0" by (simp add: word_unat_eq_iff unat_take_bit)
  then show ?thesis using True by (simp add: a)
next
  case False
  let ?r = "unat n mod 2 ^ k"
  define q where "q = unat n div 2 ^ k * 2 ^ k"
  have n: "unat n = q + ?r" unfolding q_def by (simp only: div_mult_mod_eq)
  have r: "?r < 2 ^ k" "0 < ?r" using False by simp_all
  have "take_bit k n \<noteq> 0" using False by (simp add: word_unat_eq_iff unat_take_bit)
  moreover have d: "unat (2 ^ k - take_bit k n :: u64) = 2 ^ k - ?r"
    using r k by (subst unat_sub_nowrap) (simp_all add: unat_pow2 unat_take_bit)
  moreover have "unat (n + (2 ^ k - take_bit k n)) = unat n + (2 ^ k - ?r)"
    using w by (subst unat_add_nowrap) (simp_all add: d)
  ultimately have u: "unat a = q + 2 ^ k" using n r(1) unfolding a by simp
  have "unat n \<le> q + 2 ^ k" "q + 2 ^ k < unat n + 2 ^ k" using n r by linarith+
  moreover have "(q + 2 ^ k) mod 2 ^ k = 0" by (simp add: q_def)
  ultimately show ?thesis unfolding u by simp
qed

text \<open>C38. \<^verbatim>\<open>GfxAlloc\<close> with a power of two as alignment: unless the end of the address space is reached, the object is
  aligned, begins less than the alignment behind the last one, and the next one begins after it; nothing compares it with the end of
  the graphics memory.\<close>

theorem gfx_alloc_bounds:
  assumes k: "k < 32" and w: "unat (gfxMemNext mm) + 2 ^ k + unat bytes < 2 ^ 64"
    and g: "GfxAlloc mm bytes (2 ^ k) = (obj, mm')"
  shows "unat (cpuAddr obj) mod 2 ^ k = 0 \<and> unat (gfxMemNext mm) \<le> unat (cpuAddr obj) \<and>
    unat (cpuAddr obj) < unat (gfxMemNext mm) + 2 ^ k \<and>
    unat (gfxMemNext mm') = unat (cpuAddr obj) + unat bytes \<and> gfxMemBase mm' = gfxMemBase mm"
proof -
  define a where "a = (if take_bit k (gfxMemNext mm) = 0 then gfxMemNext mm
    else gfxMemNext mm + (2 ^ k - take_bit k (gfxMemNext mm)))"
  have obj: "obj = \<lparr>cpuAddr = a, gfxAddr = a - gfxMemBase mm\<rparr>" "mm' = mm\<lparr>gfxMemNext := a + ucast bytes\<rparr>"
    using g unfolding GfxAlloc_eq [OF k] a_def Let_def by auto
  note b = round_up_bounds [OF k _ a_def]
  have "unat (a + ucast bytes) = unat a + unat bytes"
    using w b by (subst unat_add_nowrap) (simp_all add: unat_ucast_up)
  then show ?thesis using w b unfolding obj by simp
qed

definition demo_manager :: GfxMemManager where
  "demo_manager = \<lparr>vram = \<lparr>r_base = 0, r_top = 0, r_current = 0\<rparr>, shared = \<lparr>r_base = 0, r_top = 0, r_current = 0\<rparr>,
      private_range = \<lparr>r_base = 0, r_top = 0, r_current = 0\<rparr>, gfxMemBase = 0xE0400800, gfxMemNext = 0xE0404800\<rparr>"

theorem gfx_alloc_bounds_witness:
  "\<exists>obj mm'. GfxAlloc demo_manager 0x1000 (2 ^ 12) = (obj, mm') \<and> unat (cpuAddr obj) mod 2 ^ 12 = 0 \<and>
     unat (gfxMemNext mm') = unat (cpuAddr obj) + 4096"
proof -
  obtain obj mm' where g: "GfxAlloc demo_manager 0x1000 (2 ^ 12) = (obj, mm')" by (metis prod.exhaust)
  have k: "(12 :: nat) < 32" by simp
  have n: "unat (gfxMemNext demo_manager) = 0xE0404800" "unat (0x1000 :: u32) = 4096"
    by (simp_all add: demo_manager_def)
  have w: "unat (gfxMemNext demo_manager) + 2 ^ 12 + unat (0x1000 :: u32) < 2 ^ 64" unfolding n by simp
  show ?thesis
    by (intro exI [of _ obj] exI [of _ mm'] conjI) (use gfx_alloc_bounds [OF k w g] g in \<open>simp_all only: n\<close>)
qed

text \<open>Alignment, also when the addresses wrap.\<close>

lemma uint_mod_diff: "k \<le> 64 \<Longrightarrow> uint (a - b :: u64) mod 2 ^ k = (uint a - uint b) mod 2 ^ k"
proof -
  assume "k \<le> 64"
  then have "(2 :: int) ^ k dvd 2 ^ 64" by (rule le_imp_power_dvd)
  then show ?thesis unfolding uint_sub_lem uint_word_ariths len_num1 len_bit0 by (simp add: mod_mod_cancel)
qed

lemma uint_mod_add: "k \<le> 64 \<Longrightarrow> uint (a + b :: u64) mod 2 ^ k = (uint a + uint b) mod 2 ^ k"
proof -
  assume "k \<le> 64"
  then have "(2 :: int) ^ k dvd 2 ^ 64" by (rule le_imp_power_dvd)
  then show ?thesis unfolding uint_word_ariths len_num1 len_bit0 by (simp add: mod_mod_cancel)
qed

lemma GfxAlloc_fields:
  assumes "k < 32" "GfxAlloc mm bytes (2 ^ k) = (obj, mm')"
  shows "uint (cpuAddr obj) mod 2 ^ k = 0" "gfxAddr obj = cpuAddr obj - gfxMemBase mm" "gfxMemBase mm' = gfxMemBase mm"
proof -
  let ?n = "gfxMemNext mm"
  have t: "uint (take_bit k ?n) = uint ?n mod 2 ^ k" by (simp only: unsigned_take_bit_eq take_bit_int_def)
  have "uint (?n + (2 ^ k - take_bit k ?n)) mod 2 ^ k = 0"
  proof -
    have "uint (2 ^ k - take_bit k ?n) mod 2 ^ k = (0 - uint ?n) mod 2 ^ k"
    proof -
      have "uint (2 ^ k :: u64) = int (unat (2 ^ k :: u64))" by (rule uint_nat)
      then have "uint (2 ^ k :: u64) = 2 ^ k" using assms(1) unat_pow2 [of k] by simp
      then show ?thesis using assms(1) by (simp add: uint_mod_diff t mod_simps)
    qed
    then have "(uint ?n + uint (2 ^ k - take_bit k ?n)) mod 2 ^ k = (uint ?n + (0 - uint ?n)) mod 2 ^ k"
      by (rule mod_add_cong [OF refl])
    then show ?thesis using assms(1) by (simp add: uint_mod_add)
  qed
  moreover have "take_bit k ?n = 0 \<Longrightarrow> uint ?n mod 2 ^ k = 0" using t by simp
  ultimately show "uint (cpuAddr obj) mod 2 ^ k = 0" "gfxAddr obj = cpuAddr obj - gfxMemBase mm" "gfxMemBase mm' = gfxMemBase mm"
    using assms(2) unfolding GfxAlloc_eq [OF assms(1)] Let_def by (auto split: if_splits)
qed

text \<open>
  Graphics addresses are counted from \<open>gfxMemBase\<close>, which lies 0x800 behind a page boundary, while the
  alignment is that of the processor's address: the address given to the device for the ring, which has
  to begin a page, never does.
\<close>

lemma ring_start_misaligned:
  assumes "uint (arpertureBar g) mod 4096 = 0" "uint hhdm mod 4096 = 0"
    and i: "GfxInitMemManager io hhdm g d = (g1, d1)" and o: "igpu_objects hhdm g1 s = (g2, s2)"
  shows "uint (gfxAddr (cmdStream (csRing g2))) mod 4096 = 0x800"
proof -
  define mm where "mm = mem_manager g1"
  obtain sf mm1 cu mm2 cs mm3 st mm4 rc mm5 where a:
    "GfxAlloc mm (16 * 1024 * 1024) 0x40000 = (sf, mm1)" "GfxAlloc mm1 (64 * 64 * 4 + 8 * 1024) (64 * 1024) = (cu, mm2)"
    "GfxAlloc mm2 (4 * 1024) (4 * 1024) = (cs, mm3)" "GfxAlloc mm3 (4 * 1024) (4 * 1024) = (st, mm4)"
    "GfxAlloc mm4 (4 * 1024) (4 * 1024) = (rc, mm5)"
    by (metis prod.exhaust)
  have base: "gfxMemBase mm = arpertureBar g + 0x400800 + hhdm"
    using i unfolding GfxInitMemManager_def Let_def mm_def by auto
  have p: "(0x40000 :: u32) = 2 ^ 18" "(64 * 1024 :: u32) = 2 ^ 16" "(4 * 1024 :: u32) = 2 ^ 12" by simp_all
  have b: "gfxMemBase mm2 = gfxMemBase mm"
    using GfxAlloc_fields(3) [OF _ a(1) [unfolded p]] GfxAlloc_fields(3) [OF _ a(2) [unfolded p]] by simp
  have cs: "uint (cpuAddr cs) mod 2 ^ 12 = 0" "gfxAddr cs = cpuAddr cs - gfxMemBase mm"
    using GfxAlloc_fields [OF _ a(3) [unfolded p]] b by simp_all
  have u: "uint (0x400800 :: u64) = 0x400800" by simp
  have "uint (gfxMemBase mm) mod 2 ^ 12 = (uint (arpertureBar g + 0x400800) mod 2 ^ 12 + uint hhdm mod 2 ^ 12) mod 2 ^ 12"
    unfolding base by (subst uint_mod_add, simp) (simp only: mod_add_eq)
  also have "uint (arpertureBar g + 0x400800) mod 2 ^ 12 = (uint (arpertureBar g) mod 2 ^ 12 + 0x400800 mod 2 ^ 12) mod 2 ^ 12"
    by (subst uint_mod_add, simp) (simp only: mod_add_eq u)
  finally have "uint (gfxMemBase mm) mod 2 ^ 12 = 0x800" using assms(1,2) by simp
  then have "uint (gfxAddr cs) mod 2 ^ 12 = (0 - 0x800) mod 2 ^ 12"
    unfolding cs(2) using cs(1) by (subst uint_mod_diff) (simp, metis mod_diff_cong mod_mod_trivial)
  moreover have "csRing g2 = \<lparr>ring_id = RING_RCS, cmdStream = cs, statusPage = st, ring_tail = cpuAddr cs\<rparr>"
    using o unfolding igpu_objects_def mm_def [symmetric] a Let_def prod.case by auto
  ultimately show ?thesis by simp
qed

section \<open>The command ring\<close>

lemma EnterForceWake_iff:
  "(\<exists>d'. EnterForceWake io b d = Some d') \<longleftrightarrow>
    (\<exists>n. \<not> fst (ack_missing io b (rounds (ack_missing io b) n
       (snd (ReadIgpu32 io b 0xA180 (WriteIgpu32 io b 0xA188 (push_bit 16 1 OR 1) (wait_ack_clear io b 0 d)))))))"
  unfolding EnterForceWake_def Let_def by (simp add: poll_iff split: prod.split)

text \<open>
  The register window as the driver relies on it: what \<open>regs\<close> tells of the device changes by writes alone,
  and the acknowledge bit comes some reads after the wake request has been written.
\<close>

definition register_file :: "('d, 'z) gpu_io_scheme \<Rightarrow> u64 \<Rightarrow> ('d \<Rightarrow> u64 \<Rightarrow> u32) \<Rightarrow> bool" where
  "register_file io b regs \<longleftrightarrow>
     (\<forall>a v d. regs (mm_wr32 io a v d) = (regs d)(a := v)) \<and>
     (\<forall>a d. regs (snd (mm_rd32 io a d)) = regs d) \<and>
     (\<forall>d. bit (regs d (register_at b 0xA188)) 0 \<longrightarrow>
       (\<exists>n. \<not> fst (ack_missing io b (rounds (ack_missing io b) n d))))"

lemma ack_missing_snd: "snd (ack_missing io b d) = snd (ReadIgpu32 io b 0x130040 d)"
  unfolding ack_missing_def by (simp split: prod.split)

lemma regs_window:
  assumes "register_file io b regs"
  shows "regs (WriteIgpu32 io b r v d) = (regs d)(register_at b r := v)"
    "regs (snd (ReadIgpu32 io b r d)) = regs d" "regs (snd (ack_missing io b d)) = regs d"
  using assms unfolding register_file_def ack_missing_snd WriteIgpu32_def ReadIgpu32_def by simp_all

lemma regs_rounds:
  assumes "register_file io b regs"
  shows "regs (rounds (ack_missing io b) n d) = regs d"
  by (induction n arbitrary: d) (simp_all add: regs_window [OF assms])

lemma regs_wait_ack_clear:
  assumes "register_file io b regs"
  shows "regs (wait_ack_clear io b trys d) = regs d"
  using assms
proof (induction io b trys d rule: wait_ack_clear.induct)
  case (1 io b trys d)
  obtain v d1 where r: "ReadIgpu32 io b 0x130040 d = (v, d1)" by (metis prod.exhaust)
  have d1: "regs d1 = regs d" using regs_window(2) [OF 1(2)] r by (metis snd_conv)
  show ?case
  proof (cases "v AND 1 \<noteq> 0 \<and> trys + 1 < 10")
    case True
    then have "regs (wait_ack_clear io b (trys + 1) d1) = regs d1" using 1 r by simp
    then show ?thesis using True r d1 by (subst wait_ack_clear.simps) simp
  next
    case False
    then show ?thesis using r d1 by (subst wait_ack_clear.simps) auto
  qed
qed

lemma EnterForceWake_regs:
  assumes "register_file io b regs"
  obtains d' where "EnterForceWake io b d = Some d'" "regs d' = (regs d)(register_at b 0xA188 := 0x10001)"
proof -
  define d2 where "d2 = snd (ReadIgpu32 io b 0xA180 (WriteIgpu32 io b 0xA188 (push_bit 16 1 OR 1) (wait_ack_clear io b 0 d)))"
  have d2: "regs d2 = (regs d)(register_at b 0xA188 := 0x10001)"
    unfolding d2_def regs_window [OF assms] regs_wait_ack_clear [OF assms] by simp
  then have "bit (regs d2 (register_at b 0xA188)) 0" by simp
  then obtain n where "\<not> fst (ack_missing io b (rounds (ack_missing io b) n d2))"
    using assms unfolding register_file_def by blast
  then obtain k where "poll (ack_missing io b) d2 = Some (rounds (ack_missing io b) (Suc k) d2)"
    by (meson poll_stops)
  moreover have "EnterForceWake io b d = poll (ack_missing io b) d2"
    unfolding EnterForceWake_def Let_def d2_def by (simp split: prod.split)
  ultimately show thesis using that regs_rounds [OF assms, of "Suc k" d2] d2 by metis
qed

lemma while_awake_regs:
  assumes r: "register_file io b regs" and f: "\<And>d. regs (f d) = F (regs d)"
  obtains d' where "while_awake io b f d = Inr d'"
    "regs d' = (F ((regs d)(register_at b 0xA188 := 0x10001)))(register_at b 0xA188 := 0x10000)"
proof -
  obtain d1 where d1: "EnterForceWake io b d = Some d1" "regs d1 = (regs d)(register_at b 0xA188 := 0x10001)"
    by (rule EnterForceWake_regs [OF r])
  show thesis
    by (rule that [of "ExitForceWake io b (f d1)"])
      (simp_all add: while_awake_def d1(1), simp add: ExitForceWake_def regs_window [OF r] f d1(2))
qed

lemma ld32_stored: "ld32 (store_bytes m a [w, x, y, z]) a =
    ucast w OR push_bit 8 (ucast x) OR push_bit 16 (ucast y) OR push_bit 24 (ucast z)"
proof -
  have "a + 1 + 1 = a + 2" "a + 2 + 1 = a + 3" by simp_all
  then show ?thesis unfolding ld32_def store_bytes.simps by (simp only: fun_upd_apply) simp
qed

lemma ring_offsets:
  "register_at b 0xA188 = b + 0xA188" "register_at b (HWS_PGA 0) = b + 0x4080"
  "register_at b (RING_BUFFER_TAIL 0) = b + 0x2030" "register_at b (RING_BUFFER_HEAD 0) = b + 0x2034"
  "register_at b (RING_BUFFER_START 0) = b + 0x2038" "register_at b (RING_BUFFER_CTL 0) = b + 0x203C"
  by (simp_all add: register_at_def HWS_PGA_def RING_BUFFER_TAIL_def RING_BUFFER_HEAD_def RING_BUFFER_START_def
    RING_BUFFER_CTL_def RCS_HWS_PGA_def RCS_RINGBUF_BUFFER_TAIL_def RCS_RINGBUF_BUFFER_HEAD_def
    RCS_RINGBUF_BUFFER_START_def RCS_RINGBUF_BUFFER_CTRL_def)

text \<open>When the device acknowledges a wake request, setting up the render ring returns: the device is left with the
  ring's status page and start as its objects say, the head at 0, the ring enabled, the wake request withdrawn, and the tail behind
  the one command, whose bytes are where the tail was.\<close>

theorem gfx_ring_started:
  assumes r: "register_file io (iobase g) regs"
    and g: "ring_id (csRing g) = RING_RCS" "ring_tail (csRing g) = cpuAddr (cmdStream (csRing g))"
  shows "\<exists>g' s' d'. igpu_ring io hhdm g s d = Inr (g', s', d') \<and>
    regs d' (iobase g + 0x4080) = ucast (gfxAddr (statusPage (csRing g))) \<and>
    regs d' (iobase g + 0x2038) = ucast (gfxAddr (cmdStream (csRing g))) \<and>
    regs d' (iobase g + 0x2034) = 0 \<and> regs d' (iobase g + 0x203C) = 1 \<and> regs d' (iobase g + 0xA188) = 0x10000 \<and>
    regs d' (iobase g + 0x2030) = 4 \<and> ring_tail (csRing g') = cpuAddr (cmdStream (csRing g)) + 4 \<and>
    ld32 (ram s') (cpuAddr (cmdStream (csRing g)) - hhdm) = 0x40aa55"
proof -
  let ?b = "iobase g" let ?r = "csRing g"
  obtain d1 where d1: "while_awake io ?b (ring_registers io ?b ?r) d = Inr d1"
    and regs1: "regs d1 = ((regs d)(?b + 0xA188 := 0x10001, ?b + 0x4080 := ucast (gfxAddr (statusPage ?r)),
      ?b + 0x2030 := 0, ?b + 0x2034 := 0, ?b + 0x2038 := ucast (gfxAddr (cmdStream ?r)), ?b + 0x203C := 1))
      (?b + 0xA188 := 0x10000)"
    by (rule while_awake_regs [OF r, of "ring_registers io ?b ?r" "\<lambda>m. m(?b + 0x4080 := ucast (gfxAddr (statusPage ?r)),
      ?b + 0x2030 := 0, ?b + 0x2034 := 0, ?b + 0x2038 := ucast (gfxAddr (cmdStream ?r)), ?b + 0x203C := 1)" d, unfolded ring_offsets])
      (simp add: ring_registers_def g(1) regs_window [OF r] ring_offsets)
  define r1 where "r1 = ?r\<lparr>ring_tail := ring_tail ?r + 4\<rparr>"
  have t: "ucast (ring_tail r1 - cpuAddr (cmdStream r1)) = (4 :: u32)" unfolding r1_def using g(2) by simp
  have id1: "ring_number (ring_id r1) = 0" unfolding r1_def using g(1) by simp
  obtain d2 where d2: "while_awake io ?b (WriteIgpu32 io ?b (RING_BUFFER_TAIL 0) 4) d1 = Inr d2"
    and regs2: "regs d2 = (regs d1)(?b + 0xA188 := 0x10001, ?b + 0x2030 := 4, ?b + 0xA188 := 0x10000)"
    by (rule while_awake_regs [OF r, of "WriteIgpu32 io ?b (RING_BUFFER_TAIL 0) 4" "\<lambda>m. m(?b + 0x2030 := 4)" d1, unfolded ring_offsets])
      (simp add: regs_window [OF r] ring_offsets)
  let ?a = "cpuAddr (cmdStream ?r) - hhdm"
  let ?m = "store_bytes (ram s) ?a (List.map (\<lambda>k. ucast (drop_bit (8 * k) (MI_INSTR 0 0 OR push_bit 22 1 OR 0xaa55))) [0, 1, 2, 3])"
  have c: "List.map (\<lambda>k. ucast (drop_bit (8 * k) (MI_INSTR 0 0 OR push_bit 22 1 OR 0xaa55))) [0, 1, 2, 3] = [0x55, 0xaa, 0x40, 0 :: u8]"
    by (simp add: MI_INSTR_def)
  have "ld32 ?m ?a = 0x40aa55" unfolding c ld32_stored by simp
  moreover obtain g2 s2 d3 where e: "igpu_ring io hhdm g s d = Inr (g2, s2, d3)" "csRing g2 = r1" "ram s2 = ?m" "regs d3 = regs d2"
  proof (rule that)
    show "igpu_ring io hhdm g s d = Inr (g\<lparr>csRing := r1\<rparr>, s\<lparr>ram := ?m\<rparr>, snd (ReadIgpu32 io ?b NOPID d2))"
      unfolding igpu_ring_def d1 bindE_simps Let_def r1_def [symmetric] t id1 d2 by (simp only: g(2))
    show "regs (snd (ReadIgpu32 io ?b NOPID d2)) = regs d2" by (rule regs_window(2) [OF r])
  qed simp_all
  moreover have "ring_tail r1 = cpuAddr (cmdStream ?r) + 4" unfolding r1_def using g(2) by simp
  moreover have "regs d2 (?b + 0x4080) = ucast (gfxAddr (statusPage ?r))" "regs d2 (?b + 0x2038) = ucast (gfxAddr (cmdStream ?r))"
      "regs d2 (?b + 0x2034) = 0" "regs d2 (?b + 0x203C) = 1" "regs d2 (?b + 0xA188) = 0x10000" "regs d2 (?b + 0x2030) = 4"
    unfolding regs2 regs1 by simp_all
  ultimately show ?thesis
    by (intro exI [of _ g2] exI [of _ s2] exI [of _ d3]) (simp only: e simp_thms)
qed

definition demo_gpu_io :: "(u64 \<Rightarrow> u32) gpu_io" where
  "demo_gpu_io = \<lparr>io_inb = (\<lambda>p d. (0, d)), io_inw = (\<lambda>p d. (0, d)), io_outb = (\<lambda>p v d. d), io_outw = (\<lambda>p v d. d),
     io_ind = (\<lambda>p d. (0, d)), io_outd = (\<lambda>p v d. d),
     mm_rd32 = (\<lambda>a d. (if a = 0xffffc00000130040 then d 0xffffc0000000A188 else d a, d)),
     mm_wr32 = (\<lambda>a v d. d(a := v)), mm_wr64 = (\<lambda>a v d. d)\<rparr>"

definition demo_gpu :: igpu where
  "demo_gpu = \<lparr>iobase = IGFX_IO_VADDR, gttAddr = 0, stolenMemSize = 0, stolenMemBase = 0, gttMemSize = 0,
     gttEntryCount = 0, gttMappableEntries = 0, arpertureBar = 0xE0000000, mem_manager = demo_manager,
     csRing = \<lparr>ring_id = RING_RCS, cmdStream = \<lparr>cpuAddr = 0xE1440000, gfxAddr = 0x103F800\<rparr>,
       statusPage = \<lparr>cpuAddr = 0xE1441000, gfxAddr = 0x1040800\<rparr>, ring_tail = 0xE1440000\<rparr>,
     surface = \<lparr>cpuAddr = 0, gfxAddr = 0\<rparr>, cursor = \<lparr>cpuAddr = 0, gfxAddr = 0\<rparr>, renderContext = \<lparr>cpuAddr = 0, gfxAddr = 0\<rparr>\<rparr>"

lemma demo_gpu_registers: "register_file demo_gpu_io (iobase demo_gpu) (\<lambda>d. d)"
proof -
  have ack: "\<not> fst (ack_missing demo_gpu_io IGFX_IO_VADDR (rounds (ack_missing demo_gpu_io IGFX_IO_VADDR) 0 d))"
    if b: "bit (d 0xffffc0000000A188) 0" for d
  proof -
    have "odd (d 0xffffc0000000A188)" using b by (simp add: bit_0)
    then have "d 0xffffc0000000A188 AND 1 = 1" by (simp add: and_one_eq odd_iff_mod_2_eq_one)
    moreover have "register_at IGFX_IO_VADDR 0x130040 = 0xffffc00000130040" by (simp add: register_at_def IGFX_IO_VADDR_def)
    ultimately show ?thesis by (simp only: rounds.simps ack_missing_def ReadIgpu32_def) (simp add: demo_gpu_io_def)
  qed
  have a: "register_at IGFX_IO_VADDR 0xA188 = 0xffffc0000000A188" by (simp add: register_at_def IGFX_IO_VADDR_def)
  have b: "iobase demo_gpu = IGFX_IO_VADDR" by (simp add: demo_gpu_def)
  show ?thesis unfolding register_file_def b a 
  proof (intro conjI allI impI)
    fix d :: "u64 \<Rightarrow> u32" assume "bit (d 0xffffc0000000A188) 0"
    from ack [of d, OF this] show "\<exists>n. \<not> fst (ack_missing demo_gpu_io IGFX_IO_VADDR (rounds (ack_missing demo_gpu_io IGFX_IO_VADDR) n d))" ..
  qed (simp_all add: demo_gpu_io_def)
qed

theorem gfx_ring_started_witness:
  "\<exists>g' s' d'. igpu_ring demo_gpu_io 0 demo_gpu big_pm (\<lambda>_. 0) = Inr (g', s', d') \<and>
    d' (IGFX_IO_VADDR + 0x2038) = 0x103F800 \<and> d' (IGFX_IO_VADDR + 0x2030) = 4 \<and> ld32 (ram s') 0xE1440000 = 0x40aa55"
proof -
  have g: "ring_id (csRing demo_gpu) = RING_RCS" "ring_tail (csRing demo_gpu) = cpuAddr (cmdStream (csRing demo_gpu))"
    "iobase demo_gpu = IGFX_IO_VADDR" "cpuAddr (cmdStream (csRing demo_gpu)) = 0xE1440000"
    "ucast (gfxAddr (cmdStream (csRing demo_gpu))) = (0x103F800 :: u32)"
    by (simp_all add: demo_gpu_def)
  show ?thesis
    using gfx_ring_started [OF demo_gpu_registers g(1,2), of 0 big_pm "\<lambda>_. 0"] unfolding g diff_0_right by blast
qed

end
