(* ===== verification/Nvme.thy ===== *)
theory Nvme
  imports Pci Vmm
begin

text \<open>
  The NVMe driver, \<^verbatim>\<open>src/src/drivers/nvme.cpp\<close>: it allocates the two administration queues, maps the
  controller's registers and the queues, and resets and enables the controller. The device is a state
  \<open>'d\<close> with the port accesses and the accesses to the mapped registers as a record of functions. The
  kernel does not start this driver.
\<close>

section \<open>Data\<close>

record 'd nvme_io = "'d wide_io" +
  nv_rd32 :: "u64 \<Rightarrow> 'd \<Rightarrow> u32 \<times> 'd"
  nv_wr32 :: "u64 \<Rightarrow> u32 \<Rightarrow> 'd \<Rightarrow> 'd"
  nv_wr64 :: "u64 \<Rightarrow> u64 \<Rightarrow> 'd \<Rightarrow> 'd"

record PciDeviceInfo =
  vendId :: u16
  devId :: u16
  bar0 :: u64
  bar1 :: u64
  bar2 :: u64
  bar3 :: u64
  bar4 :: u64

record nvme =
  nvmeRegs :: u64
  acqBase :: u64
  asqBase :: u64

definition NVME_VIRT_ADDR :: u64 where "NVME_VIRT_ADDR = 0xffffc00000480000"

text \<open>The offsets of the fields of the packed structure \<^verbatim>\<open>NvmeRegisters\<close> that are used.\<close>

definition nvme_config :: u64 where "nvme_config = 0x14"
definition nvme_status :: u64 where "nvme_status = 0x1C"
definition adminQAttr :: u64 where "adminQAttr = 0x24"
definition adminSubmissionQ :: u64 where "adminSubmissionQ = 0x28"
definition adminCompletionQ :: u64 where "adminCompletionQ = 0x30"

lemmas nvme_offsets = nvme_config_def nvme_status_def adminQAttr_def adminSubmissionQ_def adminCompletionQ_def

section \<open>Initialization\<close>

text \<open>A compound assignment to a register: it is read and written.\<close>

definition rmw32 :: "('d, 'z) nvme_io_scheme \<Rightarrow> u64 \<Rightarrow> (u32 \<Rightarrow> u32) \<Rightarrow> 'd \<Rightarrow> 'd" where
  "rmw32 io a f d = (case nv_rd32 io a d of (v, d1) \<Rightarrow> nv_wr32 io a (f v) d1)"

definition is_ready :: "('d, 'z) nvme_io_scheme \<Rightarrow> u64 \<Rightarrow> 'd \<Rightarrow> bool \<times> 'd" where
  "is_ready io regs d = (case nv_rd32 io (regs + nvme_status) d of (v, d1) \<Rightarrow> (v AND 1 \<noteq> 0, d1))"

definition is_not_ready :: "('d, 'z) nvme_io_scheme \<Rightarrow> u64 \<Rightarrow> 'd \<Rightarrow> bool \<times> 'd" where
  "is_not_ready io regs d = (case is_ready io regs d of (r, d1) \<Rightarrow> (\<not> r, d1))"

text \<open>
  The part of \<^verbatim>\<open>Init\<close> that drives the controller, from the first write of \<^verbatim>\<open>config\<close> on; \<open>None\<close> is one of the
  two loops never ending.
\<close>

definition nvme_program :: "('d, 'z) nvme_io_scheme \<Rightarrow> u64 \<Rightarrow> u64 \<Rightarrow> u64 \<Rightarrow> 'd \<Rightarrow> 'd" where
  "nvme_program io regs acq asq d =
     (let d1 = rmw32 io (regs + nvme_config) (\<lambda>v. v AND NOT (push_bit 7 0xf)) d;
          d2 = rmw32 io (regs + nvme_config) (\<lambda>v. v AND NOT (push_bit 4 0x7)) d1;
          d3 = rmw32 io (regs + nvme_config) (\<lambda>v. v OR (push_bit 20 4 OR push_bit 16 6)) d2;
          d4 = nv_wr64 io (regs + adminCompletionQ) acq d3;
          d5 = nv_wr64 io (regs + adminSubmissionQ) asq d4;
          d6 = nv_wr32 io (regs + adminQAttr) 0 d5;
          d7 = rmw32 io (regs + adminQAttr) (\<lambda>v. v OR (push_bit 16 4095 OR 4095)) d6
      in rmw32 io (regs + nvme_config) (\<lambda>v. v OR 1) d7)"

definition nvme_reset :: "('d, 'z) nvme_io_scheme \<Rightarrow> u64 \<Rightarrow> u64 \<Rightarrow> u64 \<Rightarrow> 'd \<Rightarrow> 'd option" where
  "nvme_reset io regs acq asq d =
     (case poll (is_ready io regs) (rmw32 io (regs + nvme_config) (\<lambda>v. v AND NOT 1) d) of
        None \<Rightarrow> None
      | Some d1 \<Rightarrow> poll (is_not_ready io regs) (nvme_program io regs acq asq d1))"

definition NVMe_Init ::
  "('d, 'z) nvme_io_scheme \<Rightarrow> PciDeviceInfo \<Rightarrow> vmm \<Rightarrow> 'd \<Rightarrow> (bool \<times> nvme \<times> vmm \<times> 'd) result" where
  "NVMe_Init io info v d =
     (let (command, d1) = ReadPciRegister16 io 0 3 0 0x4 d;
          d2 = WritePciRegister16 io 0 3 0 0x4 (command OR push_bit 2 1 OR push_bit 1 1) d1;
          flags = PF_present OR PF_readwrite OR PF_cachedisable;
          root = GetCurrentPML4 v
      in bindE (PhysicalMemory_alloc (vm_phys v) 1) (\<lambda>(acqPhysBase, s1).
         bindE (PhysicalMemory_alloc s1 1) (\<lambda>(asqPhsyBase, s2).
         bindE (map_range s2 root NVME_VIRT_ADDR (bar0 info) (4 * 4096) flags 0) (\<lambda>s3.
         bindE (VirtualMemory_MapPage s3 root (NVME_VIRT_ADDR + 4 * 4096) acqPhysBase flags) (\<lambda>s4.
         bindE (VirtualMemory_MapPage s4 root (NVME_VIRT_ADDR + 5 * 4096) asqPhsyBase flags) (\<lambda>s5.
         case nvme_reset io NVME_VIRT_ADDR acqPhysBase asqPhsyBase d2 of
           None \<Rightarrow> Inl Diverges
         | Some d3 \<Rightarrow> Inr (True, \<lparr>nvmeRegs = NVME_VIRT_ADDR, acqBase = NVME_VIRT_ADDR + 4 * 4096,
             asqBase = NVME_VIRT_ADDR + 5 * 4096\<rparr>, v\<lparr>vm_phys := s5\<rparr>, d3)))))))"

definition NVMe_Recv :: "u32 \<Rightarrow> u64 \<Rightarrow> 'd \<Rightarrow> 'd" where
  "NVMe_Recv cmd buf d = d"

section \<open>The controller\<close>

text \<open>
  What the driver relies on: registers keep what is written, reading changes none of those other than
  the status, and the ready bit follows the enable bit after some reads.
\<close>

definition nvme_controller ::
  "('d, 'z) nvme_io_scheme \<Rightarrow> u64 \<Rightarrow> ('d \<Rightarrow> u64 \<Rightarrow> u32) \<Rightarrow> ('d \<Rightarrow> u64 \<Rightarrow> u64) \<Rightarrow> bool" where
  "nvme_controller io b r32 r64 \<longleftrightarrow>
     (\<forall>a v d. r32 (nv_wr32 io a v d) = (r32 d)(a := v) \<and> r64 (nv_wr32 io a v d) = r64 d) \<and>
     (\<forall>a v d. r64 (nv_wr64 io a v d) = (r64 d)(a := v) \<and> r32 (nv_wr64 io a v d) = r32 d) \<and>
     (\<forall>a d. r32 (snd (nv_rd32 io a d)) = r32 d \<and> r64 (snd (nv_rd32 io a d)) = r64 d) \<and>
     (\<forall>a d. a \<noteq> b + nvme_status \<longrightarrow> fst (nv_rd32 io a d) = r32 d a) \<and>
     (\<forall>d. \<exists>n. fst (is_ready io b (rounds (is_ready io b) n d)) = bit (r32 d (b + nvme_config)) 0)"

lemma is_ready_snd: "snd (is_ready io b d) = snd (nv_rd32 io (b + nvme_status) d)"
  unfolding is_ready_def by (simp split: prod.split)

lemma is_not_ready_simps: "fst (is_not_ready io b d) = (\<not> fst (is_ready io b d))" "snd (is_not_ready io b d) = snd (is_ready io b d)"
  unfolding is_not_ready_def by (simp_all split: prod.split)

lemma rounds_not_ready: "rounds (is_not_ready io b) n d = rounds (is_ready io b) n d"
  by (induction n arbitrary: d) (simp_all add: is_not_ready_simps)

lemma controller_regs:
  assumes "nvme_controller io b r32 r64"
  shows "r32 (nv_wr32 io a v d) = (r32 d)(a := v)" "r64 (nv_wr32 io a v d) = r64 d"
    "r64 (nv_wr64 io a w d) = (r64 d)(a := w)" "r32 (nv_wr64 io a w d) = r32 d"
    "r32 (snd (is_ready io b d)) = r32 d" "r64 (snd (is_ready io b d)) = r64 d"
  using assms unfolding nvme_controller_def is_ready_snd by simp_all

lemma controller_rmw:
  assumes c: "nvme_controller io b r32 r64" and a: "a \<noteq> b + nvme_status"
  shows "r32 (rmw32 io a f d) = (r32 d)(a := f (r32 d a))" "r64 (rmw32 io a f d) = r64 d"
proof -
  obtain v d1 where r: "nv_rd32 io a d = (v, d1)" by (metis prod.exhaust)
  have "r32 (snd (nv_rd32 io a d)) = r32 d" "r64 (snd (nv_rd32 io a d)) = r64 d" "fst (nv_rd32 io a d) = r32 d a"
    using c a unfolding nvme_controller_def by blast+
  then have v: "v = r32 d a" "r32 d1 = r32 d" "r64 d1 = r64 d" unfolding r by simp_all
  show "r32 (rmw32 io a f d) = (r32 d)(a := f (r32 d a))" "r64 (rmw32 io a f d) = r64 d"
    unfolding rmw32_def r prod.case controller_regs [OF c] v by simp_all
qed

lemma controller_rounds:
  assumes "nvme_controller io b r32 r64"
  shows "r32 (rounds (is_ready io b) n d) = r32 d" "r64 (rounds (is_ready io b) n d) = r64 d"
  by (induction n arbitrary: d) (simp_all add: controller_regs [OF assms])

lemma wait_ready:
  assumes c: "nvme_controller io b r32 r64" and e: "bit (r32 d (b + nvme_config)) 0"
  obtains d' d0 where "poll (is_not_ready io b) d = Some d'" "r32 d' = r32 d" "r64 d' = r64 d" "is_ready io b d0 = (True, d')"
proof -
  obtain n where "\<not> fst (is_not_ready io b (rounds (is_not_ready io b) n d))"
    using c e unfolding nvme_controller_def is_not_ready_simps rounds_not_ready by blast
  then obtain d' where p: "poll (is_not_ready io b) d = Some d'" by (meson poll_iff)
  obtain k where k: "\<not> fst (is_not_ready io b (rounds (is_not_ready io b) k d))" "d' = rounds (is_not_ready io b) (Suc k) d"
    using poll_returned [OF p] by blast
  show thesis
  proof (rule that [OF p])
    show "r32 d' = r32 d" "r64 d' = r64 d" unfolding k(2) rounds_not_ready by (rule controller_rounds [OF c])+
    show "is_ready io b (rounds (is_ready io b) k d) = (True, d')"
      using k(1) unfolding is_not_ready_simps rounds_not_ready k(2) rounds_Suc_end by (simp add: prod_eq_iff)
  qed
qed

lemma wait_not_ready:
  assumes c: "nvme_controller io b r32 r64" and e: "\<not> bit (r32 d (b + nvme_config)) 0"
  obtains d' where "poll (is_ready io b) d = Some d'" "r32 d' = r32 d" "r64 d' = r64 d"
proof -
  obtain n where "\<not> fst (is_ready io b (rounds (is_ready io b) n d))"
    using c e unfolding nvme_controller_def by metis
  then obtain k where p: "poll (is_ready io b) d = Some (rounds (is_ready io b) (Suc k) d)" by (meson poll_stops)
  show thesis by (rule that [OF p]) (rule controller_rounds [OF c])+
qed

definition new_config :: "u32 \<Rightarrow> u32" where
  "new_config v = (((v AND NOT 1) AND NOT (push_bit 7 0xf)) AND NOT (push_bit 4 0x7)) OR (push_bit 20 4 OR push_bit 16 6)"

lemma nvme_program_regs:
  assumes c: "nvme_controller io b r32 r64"
  shows "r32 (nvme_program io b acq asq d) = (r32 d)(b + 0x24 := 0x0FFF0FFF,
      b + 0x14 := (((r32 d (b + 0x14) AND NOT (push_bit 7 0xf)) AND NOT (push_bit 4 0x7)) OR (push_bit 20 4 OR push_bit 16 6)) OR 1)"
    "r64 (nvme_program io b acq asq d) = (r64 d)(b + 0x30 := acq, b + 0x28 := asq)"
proof -
  have n: "b + nvme_config \<noteq> b + nvme_status" "b + adminQAttr \<noteq> b + nvme_status" by (simp_all add: nvme_offsets)
  note s = controller_rmw [OF c n(1)] controller_rmw [OF c n(2)] controller_regs [OF c]
  have o: "b + 0x24 \<noteq> b + 0x14" "b + 0x14 \<noteq> b + 0x24" by simp_all
  have v: "(0 :: u32) OR (push_bit 16 4095 OR 4095) = 0x0FFF0FFF" by simp
  show "r32 (nvme_program io b acq asq d) = (r32 d)(b + 0x24 := 0x0FFF0FFF,
      b + 0x14 := (((r32 d (b + 0x14) AND NOT (push_bit 7 0xf)) AND NOT (push_bit 4 0x7)) OR (push_bit 20 4 OR push_bit 16 6)) OR 1)"
    unfolding nvme_program_def Let_def s
    unfolding nvme_offsets fun_upd_same fun_upd_other [OF o(1)] fun_upd_other [OF o(2)] v
    by (rule ext) (simp only: fun_upd_apply split: if_splits, auto)
  show "r64 (nvme_program io b acq asq d) = (r64 d)(b + 0x30 := acq, b + 0x28 := asq)"
    unfolding nvme_program_def Let_def s unfolding nvme_offsets ..
qed

text \<open>C39. On a controller whose ready bit follows its enable bit both loops of \<^verbatim>\<open>Init\<close> end and the controller is left
  ready and enabled, with the queues where they were allocated, 4096 entries in each, and the entry sizes, page size and
  command set written into its configuration.\<close>

theorem nvme_enabled:
  assumes c: "nvme_controller io b r32 r64"
  shows "\<exists>d' d0. nvme_reset io b acq asq d = Some d' \<and> is_ready io b d0 = (True, d') \<and>
    r64 d' (b + 0x28) = asq \<and> r64 d' (b + 0x30) = acq \<and> r32 d' (b + 0x24) = 0x0FFF0FFF \<and>
    r32 d' (b + 0x14) = new_config (r32 d (b + 0x14)) OR 1"
proof -
  have n: "b + nvme_config \<noteq> b + nvme_status" by (simp add: nvme_offsets)
  define d1 where "d1 = rmw32 io (b + nvme_config) (\<lambda>v. v AND NOT 1) d"
  have r1: "r32 d1 = (r32 d)(b + nvme_config := r32 d (b + nvme_config) AND NOT 1)"
    unfolding d1_def controller_rmw [OF c n] ..
  have z: "\<not> bit (r32 d1 (b + nvme_config)) 0" unfolding r1 by (simp add: bit_and_iff bit_not_iff)
  obtain d2 where d2: "poll (is_ready io b) d1 = Some d2" "r32 d2 = r32 d1" "r64 d2 = r64 d1"
    by (rule wait_not_ready [of io b r32 r64 d1, OF c z])
  define d3 where "d3 = nvme_program io b acq asq d2"
  have r3: "r32 d3 = (r32 d2)(b + 0x24 := 0x0FFF0FFF, b + 0x14 := new_config (r32 d (b + 0x14)) OR 1)"
      "r64 d3 = (r64 d2)(b + 0x30 := acq, b + 0x28 := asq)"
    unfolding d3_def nvme_program_regs [OF c] d2(2) r1 new_config_def nvme_config_def by simp_all
  have "bit (r32 d3 (b + nvme_config)) 0" unfolding r3 nvme_config_def by (simp add: bit_or_iff)
  then obtain d' d0 where d': "poll (is_not_ready io b) d3 = Some d'" "r32 d' = r32 d3" "r64 d' = r64 d3" "is_ready io b d0 = (True, d')"
    by (rule wait_ready [OF c])
  have "nvme_reset io b acq asq d = Some d'"
    unfolding nvme_reset_def d1_def [symmetric] d2(1) option.case d3_def [symmetric] by (rule d'(1))
  moreover have "r64 d' (b + 0x28) = asq" "r64 d' (b + 0x30) = acq" "r32 d' (b + 0x24) = 0x0FFF0FFF"
      "r32 d' (b + 0x14) = new_config (r32 d (b + 0x14)) OR 1"
    unfolding d' r3 by simp_all
  ultimately show ?thesis using d'(4) by blast
qed

definition demo_nvme_io :: "((u64 \<Rightarrow> u32) \<times> (u64 \<Rightarrow> u64)) nvme_io" where
  "demo_nvme_io = \<lparr>io_inb = (\<lambda>p d. (0, d)), io_inw = (\<lambda>p d. (0, d)), io_outb = (\<lambda>p v d. d), io_outw = (\<lambda>p v d. d),
     io_ind = (\<lambda>p d. (0, d)), io_outd = (\<lambda>p v d. d),
     nv_rd32 = (\<lambda>a d. (if a = 0x101C then fst d 0x1014 else fst d a, d)),
     nv_wr32 = (\<lambda>a v d. ((fst d)(a := v), snd d)), nv_wr64 = (\<lambda>a v d. (fst d, (snd d)(a := v)))\<rparr>"

lemma demo_nvme_controller: "nvme_controller demo_nvme_io 0x1000 fst snd"
  unfolding nvme_controller_def
proof (intro conjI allI impI)
  fix d :: "(u64 \<Rightarrow> u32) \<times> (u64 \<Rightarrow> u64)"
  have "fst (is_ready demo_nvme_io 0x1000 (rounds (is_ready demo_nvme_io 0x1000) 0 d)) = bit (fst d (0x1000 + nvme_config)) 0"
    by (simp add: is_ready_def demo_nvme_io_def nvme_offsets bit_0 and_one_eq odd_iff_mod_2_eq_one)
  then show "\<exists>n. fst (is_ready demo_nvme_io 0x1000 (rounds (is_ready demo_nvme_io 0x1000) n d)) = bit (fst d (0x1000 + nvme_config)) 0" ..
qed (simp_all add: demo_nvme_io_def nvme_offsets)

theorem nvme_enabled_witness:
  "\<exists>d' d0. nvme_reset demo_nvme_io 0x1000 0x5000 0x6000 (\<lambda>_. 0, \<lambda>_. 0) = Some d' \<and>
     is_ready demo_nvme_io 0x1000 d0 = (True, d') \<and> snd d' 0x1028 = 0x6000 \<and> snd d' 0x1030 = 0x5000 \<and>
     fst d' 0x1014 = 0x460001"
proof -
  have "new_config 0 OR 1 = 0x460001" by (simp add: new_config_def)
  then show ?thesis
    using nvme_enabled [OF demo_nvme_controller, where acq = "0x5000" and asq = "0x6000" and d = "(\<lambda>_. 0, \<lambda>_. 0)"] by simp blast
qed

text \<open>The submission queue announced to the controller is larger than the page allocated for it.\<close>

lemma nvme_queue_overruns:
  assumes "drop_bit 16 v AND 0xf = 0"
  shows "unat (drop_bit 16 (new_config v) AND 0xf) = 6"
    "(unat (0x0FFF0FFF AND 0xFFF :: u32) + 1) * 2 ^ 6 = 64 * 4096"
proof -
  have "drop_bit 16 (new_config v) AND 0xf = 6"
    unfolding new_config_def drop_bit_or drop_bit_and bit.conj_disj_distrib2 and.assoc [of "drop_bit 16 v"] using assms by simp
  then show "unat (drop_bit 16 (new_config v) AND 0xf) = 6" by simp
qed simp

end
