(* ===== verification/Layout.thy ===== *)
theory Layout
  imports Entry Elf Apic Nvme
begin

text \<open>
  The structures of the code as bytes: sizes and offsets as the x86-64 calling convention lays them out, the structures the
  assembly, the firmware, the devices, the boot loader and the program files share with the C++ code, and the requests to the
  boot loader. The theories below use the resulting numbers; here they are computed from the declarations.
\<close>

section \<open>Layout\<close>

text \<open>
  A type is a scalar of some size, aligned to its size, an array, or a structure, packed or not, with its fields in order. A byte
  shared by bit fields is one field under the name of the first.
\<close>

datatype cty = Scalar nat | Arr cty nat | Struct bool "(string \<times> cty) list"

abbreviation C8 :: cty where "C8 \<equiv> Scalar 1"
abbreviation C16 :: cty where "C16 \<equiv> Scalar 2"
abbreviation C32 :: cty where "C32 \<equiv> Scalar 4"
abbreviation C64 :: cty where "C64 \<equiv> Scalar 8"
abbreviation Pointer :: cty where "Pointer \<equiv> Scalar 8"

definition round_up :: "nat \<Rightarrow> nat \<Rightarrow> nat" where
  "round_up n a = (n + a - 1) div a * a"

fun calign :: "cty \<Rightarrow> nat" and field_align :: "(string \<times> cty) list \<Rightarrow> nat" where
  "calign (Scalar n) = n"
| "calign (Arr t k) = calign t"
| "calign (Struct packed fs) = (if packed then 1 else field_align fs)"
| "field_align [] = 1"
| "field_align ((f, t) # fs) = max (calign t) (field_align fs)"

fun csize :: "cty \<Rightarrow> nat" and field_end :: "bool \<Rightarrow> nat \<Rightarrow> (string \<times> cty) list \<Rightarrow> nat" where
  "csize (Scalar n) = n"
| "csize (Arr t k) = k * csize t"
| "csize (Struct packed fs) = (if packed then field_end True 0 fs else round_up (field_end False 0 fs) (field_align fs))"
| "field_end packed n [] = n"
| "field_end packed n ((f, t) # fs) = field_end packed ((if packed then n else round_up n (calign t)) + csize t) fs"

fun field_at :: "bool \<Rightarrow> nat \<Rightarrow> (string \<times> cty) list \<Rightarrow> string \<Rightarrow> nat option" where
  "field_at packed n [] g = None"
| "field_at packed n ((f, t) # fs) g =
     (let k = (if packed then n else round_up n (calign t))
      in if f = g then Some k else field_at packed (k + csize t) fs g)"

fun offset_in :: "cty \<Rightarrow> string \<Rightarrow> nat" where
  "offset_in (Struct packed fs) f = (case field_at packed 0 fs f of None \<Rightarrow> 0 | Some k \<Rightarrow> k)"
| "offset_in _ f = 0"

section \<open>The structures of the kernel\<close>

definition SavedRegs_layout :: cty where
  "SavedRegs_layout = Struct False
     [(''r15'', C64), (''r14'', C64), (''r13'', C64), (''r12'', C64), (''r11'', C64), (''r10'', C64), (''r9'', C64),
      (''r8'', C64), (''rbp'', C64), (''rdi'', C64), (''rsi'', C64), (''rdx'', C64), (''rcx'', C64), (''rbx'', C64),
      (''rax'', C64), (''int_no'', C64), (''error_code'', C64), (''rip'', C64), (''cs'', C64), (''rflags'', C64),
      (''rsp'', C64), (''ss'', C64)]"

definition Thread_layout :: cty where
  "Thread_layout = Struct False
     [(''ctxt'', SavedRegs_layout), (''rootTable'', Pointer), (''pid'', C32), (''canRun'', C8), (''next'', Pointer)]"

definition TaskQueue_layout :: cty where
  "TaskQueue_layout = Struct False
     [(''head'', Pointer), (''tail'', Pointer), (''current'', Pointer), (''num_threads'', C32)]"

definition CPU_layout :: cty where
  "CPU_layout = Struct False
     [(''tss'', Pointer), (''task_queue'', TaskQueue_layout), (''processor_id'', C32), (''kstack'', Pointer),
      (''kstack_phys'', Pointer), (''scratch'', Pointer)]"

definition GDTR_layout :: cty where
  "GDTR_layout = Struct True
     [(''size'', C16), (''offset'', C64)]"

definition GDTEntry_layout :: cty where
  "GDTEntry_layout = Struct True
     [(''limit0'', C16), (''base0'', C16), (''base1'', C8), (''access'', C8), (''limit1'', C8), (''base2'', C8)]"

definition TSSEntry_layout :: cty where
  "TSSEntry_layout = Struct True
     [(''limit0'', C16), (''base0'', C16), (''base1'', C8), (''access'', C8), (''limit1'', C8), (''base2'', C8),
      (''base3'', C32), (''rsv'', C32)]"

definition GDT_layout :: cty where
  "GDT_layout = Struct False
     [(''null'', GDTEntry_layout), (''kernel_code'', GDTEntry_layout), (''kernel_data'', GDTEntry_layout),
      (''user_code'', GDTEntry_layout), (''user_data'', GDTEntry_layout), (''tss'', TSSEntry_layout)]"

definition TSS_layout :: cty where
  "TSS_layout = Struct True
     [(''rsv0'', C32), (''rsp'', Arr C64 3), (''rsv1'', C64), (''ist'', Arr C64 7), (''rsv2'', C64), (''rsv3'', C16),
      (''iopb'', C16)]"

definition IDTEntry_layout :: cty where
  "IDTEntry_layout = Struct True
     [(''offset0'', C16), (''cs'', C16), (''ist'', C8), (''flags'', C8), (''offset1'', C16), (''offset2'', C32),
      (''zero'', C32)]"

definition IDTR_layout :: cty where
  "IDTR_layout = Struct True
     [(''size'', C16), (''offset'', C64)]"

definition StackFrame_layout :: cty where
  "StackFrame_layout = Struct False
     [(''rbp'', Pointer), (''rip'', C64)]"

definition boundary_tag_layout :: cty where
  "boundary_tag_layout = Struct False
     [(''magic'', C32), (''size'', C32), (''real_size'', C32), (''index'', C32), (''split_left'', Pointer),
      (''split_right'', Pointer), (''next'', Pointer), (''prev'', Pointer)]"

definition GSIRedirect_layout :: cty where
  "GSIRedirect_layout = Struct False
     [(''irq_source'', C8), (''gsi_source'', C32)]"

definition SDTHdr_layout :: cty where
  "SDTHdr_layout = Struct True
     [(''sig'', Arr C8 4), (''len'', C32), (''rev'', C8), (''checksum'', C8), (''oem_id'', Arr C8 6),
      (''oem_table_id'', Arr C8 8), (''oem_revision'', C32), (''creator_id'', C32), (''creator_rev'', C32)]"

definition RSDP_layout :: cty where
  "RSDP_layout = Struct False
     [(''sig'', Arr C8 8), (''checksum'', C8), (''oem_id'', Arr C8 6), (''rev'', C8), (''rsdt_addr'', C32)]"

definition RSDT_layout :: cty where
  "RSDT_layout = Struct False
     [(''hdr'', SDTHdr_layout), (''sdts'', Arr C32 0)]"

definition HpetTable_layout :: cty where
  "HpetTable_layout = Struct True
     [(''hdr'', SDTHdr_layout), (''hardware_rev_id'', C8), (''comparator_count'', C8), (''pci_vendor_id'', C16),
      (''address_space_id'', C8), (''register_bit_width'', C8), (''register_bit_offset'', C8), (''reserved2'', C8),
      (''address'', C64), (''hpet_number'', C8), (''minimum_tick'', C16), (''page_protection'', C8)]"

definition HpetRegs_layout :: cty where
  "HpetRegs_layout = Struct True
     [(''capabilities'', C64), (''rsvd0'', C64), (''general_config'', C64), (''rsvd1'', C64),
      (''interrupt_status'', C64), (''rsvd2'', C64), (''rsvd3'', Arr C64 24), (''counter_value'', C64),
      (''unused'', C64)]"

definition NvmeRegisters_layout :: cty where
  "NvmeRegisters_layout = Struct True
     [(''cap'', C64), (''version'', C32), (''intMask'', C32), (''intMaskClear'', C32), (''config'', C32),
      (''reserved'', C32), (''status'', C32), (''nvmSubsystemReset'', C32), (''adminQAttr'', C32),
      (''adminSubmissionQ'', C64), (''adminCompletionQ'', C64), (''controllerMemBufferLocation'', C32),
      (''controllerMemBufferSize'', C32), (''bootPartitionInfo'', C32), (''bootPartitionReadSelect'', C32),
      (''bootPartitionMemBufferLocation'', C64), (''bootPartitionMemSpaceControl'', C64),
      (''controllerMemBufferMemSpaceControl'', C64), (''controllerMemoryBufferStatus'', C32)]"

definition FileInfo_layout :: cty where
  "FileInfo_layout = Struct False
     [(''data'', Pointer), (''size'', C32), (''name'', Arr C8 64), (''cur_pos'', C64)]"

definition FileHeader_layout :: cty where
  "FileHeader_layout = Struct True
     [(''offs'', C32), (''size'', C32), (''name'', Arr C8 64)]"

definition Elf64Header_layout :: cty where
  "Elf64Header_layout = Struct False
     [(''e_ident'', Arr C8 16), (''e_type'', C16), (''e_machine'', C16), (''e_version'', C32), (''e_entry'', C64),
      (''e_phoff'', C64), (''e_shoff'', C64), (''e_flags'', C32), (''e_ehsize'', C16), (''e_phentsize'', C16),
      (''e_phnum'', C16), (''e_shentsize'', C16), (''e_shnum'', C16), (''e_shstrndx'', C16)]"

definition Elf64Phdr_layout :: cty where
  "Elf64Phdr_layout = Struct False
     [(''p_type'', C32), (''p_flags'', C32), (''p_offset'', C64), (''p_vaddr'', C64), (''p_paddr'', C64),
      (''p_filesz'', C64), (''p_memsz'', C64), (''p_align'', C64)]"


section \<open>The structures of the boot protocol\<close>

text \<open>Those of \<^verbatim>\<open>src/src/include/limine.h\<close> that the kernel requests or reads, for this processor.\<close>

definition limine_uuid_layout :: cty where
  "limine_uuid_layout = Struct False
     [(''a'', C32), (''b'', C16), (''c'', C16), (''d'', Arr C8 8)]"

definition limine_file_layout :: cty where
  "limine_file_layout = Struct False
     [(''revision'', C64), (''address'', Pointer), (''size'', C64), (''path'', Pointer), (''cmdline'', Pointer),
      (''media_type'', C32), (''unused'', C32), (''tftp_ip'', C32), (''tftp_port'', C32), (''partition_index'', C32),
      (''mbr_disk_id'', C32), (''gpt_disk_uuid'', limine_uuid_layout), (''gpt_part_uuid'', limine_uuid_layout),
      (''part_uuid'', limine_uuid_layout)]"

definition limine_stack_size_response_layout :: cty where
  "limine_stack_size_response_layout = Struct False
     [(''revision'', C64)]"

definition limine_stack_size_request_layout :: cty where
  "limine_stack_size_request_layout = Struct False
     [(''id'', Arr C64 4), (''revision'', C64), (''response'', Pointer), (''stack_size'', C64)]"

definition limine_hhdm_response_layout :: cty where
  "limine_hhdm_response_layout = Struct False
     [(''revision'', C64), (''offset'', C64)]"

definition limine_hhdm_request_layout :: cty where
  "limine_hhdm_request_layout = Struct False
     [(''id'', Arr C64 4), (''revision'', C64), (''response'', Pointer)]"

definition limine_video_mode_layout :: cty where
  "limine_video_mode_layout = Struct False
     [(''pitch'', C64), (''width'', C64), (''height'', C64), (''bpp'', C16), (''memory_model'', C8),
      (''red_mask_size'', C8), (''red_mask_shift'', C8), (''green_mask_size'', C8), (''green_mask_shift'', C8),
      (''blue_mask_size'', C8), (''blue_mask_shift'', C8)]"

definition limine_framebuffer_layout :: cty where
  "limine_framebuffer_layout = Struct False
     [(''address'', Pointer), (''width'', C64), (''height'', C64), (''pitch'', C64), (''bpp'', C16),
      (''memory_model'', C8), (''red_mask_size'', C8), (''red_mask_shift'', C8), (''green_mask_size'', C8),
      (''green_mask_shift'', C8), (''blue_mask_size'', C8), (''blue_mask_shift'', C8), (''unused'', Arr C8 7),
      (''edid_size'', C64), (''edid'', Pointer), (''mode_count'', C64), (''modes'', Pointer)]"

definition limine_framebuffer_response_layout :: cty where
  "limine_framebuffer_response_layout = Struct False
     [(''revision'', C64), (''framebuffer_count'', C64), (''framebuffers'', Pointer)]"

definition limine_framebuffer_request_layout :: cty where
  "limine_framebuffer_request_layout = Struct False
     [(''id'', Arr C64 4), (''revision'', C64), (''response'', Pointer)]"

definition limine_smp_info_layout :: cty where
  "limine_smp_info_layout = Struct False
     [(''processor_id'', C32), (''lapic_id'', C32), (''reserved'', C64), (''goto_address'', Pointer),
      (''extra_argument'', C64)]"

definition limine_smp_response_layout :: cty where
  "limine_smp_response_layout = Struct False
     [(''revision'', C64), (''flags'', C32), (''bsp_lapic_id'', C32), (''cpu_count'', C64), (''cpus'', Pointer)]"

definition limine_smp_request_layout :: cty where
  "limine_smp_request_layout = Struct False
     [(''id'', Arr C64 4), (''revision'', C64), (''response'', Pointer), (''flags'', C64)]"

definition limine_memmap_entry_layout :: cty where
  "limine_memmap_entry_layout = Struct False
     [(''base'', C64), (''length'', C64), (''type'', C64)]"

definition limine_memmap_response_layout :: cty where
  "limine_memmap_response_layout = Struct False
     [(''revision'', C64), (''entry_count'', C64), (''entries'', Pointer)]"

definition limine_memmap_request_layout :: cty where
  "limine_memmap_request_layout = Struct False
     [(''id'', Arr C64 4), (''revision'', C64), (''response'', Pointer)]"

definition limine_kernel_file_response_layout :: cty where
  "limine_kernel_file_response_layout = Struct False
     [(''revision'', C64), (''kernel_file'', Pointer)]"

definition limine_kernel_file_request_layout :: cty where
  "limine_kernel_file_request_layout = Struct False
     [(''id'', Arr C64 4), (''revision'', C64), (''response'', Pointer)]"

definition limine_internal_module_layout :: cty where
  "limine_internal_module_layout = Struct False
     [(''path'', Pointer), (''cmdline'', Pointer), (''flags'', C64)]"

definition limine_module_response_layout :: cty where
  "limine_module_response_layout = Struct False
     [(''revision'', C64), (''module_count'', C64), (''modules'', Pointer)]"

definition limine_module_request_layout :: cty where
  "limine_module_request_layout = Struct False
     [(''id'', Arr C64 4), (''revision'', C64), (''response'', Pointer), (''internal_module_count'', C64),
      (''internal_modules'', Pointer)]"

definition limine_rsdp_response_layout :: cty where
  "limine_rsdp_response_layout = Struct False
     [(''revision'', C64), (''address'', Pointer)]"

definition limine_rsdp_request_layout :: cty where
  "limine_rsdp_request_layout = Struct False
     [(''id'', Arr C64 4), (''revision'', C64), (''response'', Pointer)]"

definition limine_kernel_address_response_layout :: cty where
  "limine_kernel_address_response_layout = Struct False
     [(''revision'', C64), (''physical_base'', C64), (''virtual_base'', C64)]"

definition limine_kernel_address_request_layout :: cty where
  "limine_kernel_address_request_layout = Struct False
     [(''id'', Arr C64 4), (''revision'', C64), (''response'', Pointer)]"

section \<open>The requests\<close>

text \<open>
  The boot loader searches the kernel's image for requests by their four-word identifiers and fills in the pointer to its
  response. \<open>req_fields\<close> are the fields behind the pointer.
\<close>

record limine_request =
  req_id :: "u64 list"
  req_revision :: u64
  req_response :: u64
  req_fields :: "u64 list"

definition LIMINE_COMMON_MAGIC :: "u64 list" where
  "LIMINE_COMMON_MAGIC = [0xc7b1dd30df4c8b88, 0x0a82e883a194f07b]"

definition LIMINE_MEMMAP_REQUEST :: "u64 list" where
  "LIMINE_MEMMAP_REQUEST = LIMINE_COMMON_MAGIC @ [0x67cf3d9d378a806f, 0xe304acdfc50c3c62]"

definition LIMINE_HHDM_REQUEST :: "u64 list" where
  "LIMINE_HHDM_REQUEST = LIMINE_COMMON_MAGIC @ [0x48dcf1cb8ad2b852, 0x63984e959a98244b]"

definition LIMINE_KERNEL_ADDRESS_REQUEST :: "u64 list" where
  "LIMINE_KERNEL_ADDRESS_REQUEST = LIMINE_COMMON_MAGIC @ [0x71ba76863cc55f63, 0xb2644a48c516a487]"

definition LIMINE_KERNEL_FILE_REQUEST :: "u64 list" where
  "LIMINE_KERNEL_FILE_REQUEST = LIMINE_COMMON_MAGIC @ [0xad97e90e83f1ed67, 0x31eb5d1c5ff23b69]"

definition LIMINE_RSDP_REQUEST :: "u64 list" where
  "LIMINE_RSDP_REQUEST = LIMINE_COMMON_MAGIC @ [0xc5e77b6b397e7b43, 0x27637845accdcf3c]"

definition LIMINE_SMP_REQUEST :: "u64 list" where
  "LIMINE_SMP_REQUEST = LIMINE_COMMON_MAGIC @ [0x95a67b819a1b857e, 0xa0b61b723b6a73e0]"

definition LIMINE_MODULE_REQUEST :: "u64 list" where
  "LIMINE_MODULE_REQUEST = LIMINE_COMMON_MAGIC @ [0x3e7e279702be32af, 0xca1c4f3bd1280cee]"

definition LIMINE_FRAMEBUFFER_REQUEST :: "u64 list" where
  "LIMINE_FRAMEBUFFER_REQUEST = LIMINE_COMMON_MAGIC @ [0x9d5827dcd881dd75, 0xa3148604f6fab11b]"

definition LIMINE_STACK_SIZE_REQUEST :: "u64 list" where
  "LIMINE_STACK_SIZE_REQUEST = LIMINE_COMMON_MAGIC @ [0x224ef0460a8e8926, 0xe1cb0fc25f46ea3d]"

definition mmap_req :: limine_request where
  "mmap_req = \<lparr>req_id = LIMINE_MEMMAP_REQUEST, req_revision = 0, req_response = 0, req_fields = []\<rparr>"

definition hhdm_req :: limine_request where
  "hhdm_req = \<lparr>req_id = LIMINE_HHDM_REQUEST, req_revision = 0, req_response = 0, req_fields = []\<rparr>"

definition kernel_addr_req :: limine_request where
  "kernel_addr_req = \<lparr>req_id = LIMINE_KERNEL_ADDRESS_REQUEST, req_revision = 0, req_response = 0, req_fields = []\<rparr>"

definition kernel_file_req :: limine_request where
  "kernel_file_req = \<lparr>req_id = LIMINE_KERNEL_FILE_REQUEST, req_revision = 0, req_response = 0, req_fields = []\<rparr>"

definition rsdp_req :: limine_request where
  "rsdp_req = \<lparr>req_id = LIMINE_RSDP_REQUEST, req_revision = 0, req_response = 0, req_fields = []\<rparr>"

definition smp_req :: limine_request where
  "smp_req = \<lparr>req_id = LIMINE_SMP_REQUEST, req_revision = 0, req_response = 0, req_fields = [0]\<rparr>"

definition mods_req :: limine_request where
  "mods_req = \<lparr>req_id = LIMINE_MODULE_REQUEST, req_revision = 0, req_response = 0, req_fields = [0, 0]\<rparr>"

definition fb_req :: limine_request where
  "fb_req = \<lparr>req_id = LIMINE_FRAMEBUFFER_REQUEST, req_revision = 0, req_response = 0, req_fields = []\<rparr>"

definition stack_size_req :: limine_request where
  "stack_size_req = \<lparr>req_id = LIMINE_STACK_SIZE_REQUEST, req_revision = 0, req_response = 0, req_fields = [0]\<rparr>"

definition kernel_requests :: "limine_request list" where
  "kernel_requests = [mmap_req, hhdm_req, kernel_addr_req, kernel_file_req, rsdp_req,
     smp_req, mods_req, fb_req, stack_size_req]"

text \<open>What the boot loader does with a request, \<open>answer\<close> being where it has put the response to an identifier.\<close>

definition answered :: "(u64 list \<Rightarrow> u64) \<Rightarrow> limine_request \<Rightarrow> limine_request" where
  "answered answer r = r\<lparr>req_response := answer (req_id r)\<rparr>"

lemmas request_ids = LIMINE_MEMMAP_REQUEST_def
  LIMINE_HHDM_REQUEST_def
  LIMINE_KERNEL_ADDRESS_REQUEST_def
  LIMINE_KERNEL_FILE_REQUEST_def
  LIMINE_RSDP_REQUEST_def
  LIMINE_SMP_REQUEST_def
  LIMINE_MODULE_REQUEST_def
  LIMINE_FRAMEBUFFER_REQUEST_def
  LIMINE_STACK_SIZE_REQUEST_def

lemmas request_defs = mmap_req_def hhdm_req_def kernel_addr_req_def kernel_file_req_def rsdp_req_def smp_req_def
  mods_req_def fb_req_def stack_size_req_def

text \<open>Every request has an identifier of its own, so a boot loader that answers by identifier can give each its own response.\<close>

lemma requests_distinct:
  "distinct (List.map req_id kernel_requests)"
  "r \<in> set kernel_requests \<Longrightarrow> length (req_id r) = 4 \<and> take 2 (req_id r) = LIMINE_COMMON_MAGIC"
  by (auto simp: kernel_requests_def request_defs request_ids LIMINE_COMMON_MAGIC_def)

lemma requests_answered:
  "\<exists>answer. \<forall>r \<in> set kernel_requests. req_response (answered answer r) = where_to r"
proof -
  have "inj_on req_id (set kernel_requests)" using requests_distinct(1) by (simp add: distinct_map)
  then have "\<forall>r \<in> set kernel_requests. where_to (the_inv_into (set kernel_requests) req_id (req_id r)) = where_to r"
    by (simp add: the_inv_into_f_f)
  then show ?thesis unfolding answered_def by (intro exI [of _ "\<lambda>i. where_to (the_inv_into (set kernel_requests) req_id i)"]) simp
qed

section \<open>The numbers used\<close>

lemmas layouts = SavedRegs_layout_def
  Thread_layout_def
  TaskQueue_layout_def
  CPU_layout_def
  GDTR_layout_def
  GDTEntry_layout_def
  TSSEntry_layout_def
  GDT_layout_def
  TSS_layout_def
  IDTEntry_layout_def
  IDTR_layout_def
  StackFrame_layout_def
  boundary_tag_layout_def
  GSIRedirect_layout_def
  SDTHdr_layout_def
  RSDP_layout_def
  RSDT_layout_def
  HpetTable_layout_def
  HpetRegs_layout_def
  NvmeRegisters_layout_def
  FileInfo_layout_def
  FileHeader_layout_def
  Elf64Header_layout_def
  Elf64Phdr_layout_def

text \<open>The offsets in the assembly are those of the compiler.\<close>

lemma syscall_offsets:
  "syscall_entry star ! 1 = STGS (of_nat (offset_in CPU_layout ''scratch'')) RSP"
  "syscall_entry star ! 2 = LDGS RSP (of_nat (offset_in CPU_layout ''kstack''))"
  by (simp_all add: syscall_entry_def layouts round_up_def)

text \<open>The sizes.\<close>

lemma sizes:
  "tag_size = of_nat (csize boundary_tag_layout)" "Thread_size = of_nat (csize Thread_layout)"
  "sizeof_TSS = of_nat (csize TSS_layout)" "sizeof_GDT = of_nat (csize GDT_layout)"
  "sizeof_SDTHdr = of_nat (csize SDTHdr_layout)" "FileHeader_size = of_nat (csize FileHeader_layout)"
  "csize IDTEntry_layout = 16" "csize SavedRegs_layout = 8 * 22" "csize HpetTable_layout - csize SDTHdr_layout = 20"
  by (simp_all add: layouts round_up_def tag_size_def Thread_size_def sizeof_TSS_def sizeof_GDT_def sizeof_SDTHdr_def FileHeader_size_def)

text \<open>The fields read through pointers.\<close>

lemma elf_offsets:
  "e_entry m h = ld64 m (h + of_nat (offset_in Elf64Header_layout ''e_entry''))"
  "e_phoff m h = ld64 m (h + of_nat (offset_in Elf64Header_layout ''e_phoff''))"
  "e_phnum m h = ld16 m (h + of_nat (offset_in Elf64Header_layout ''e_phnum''))"
  "p_offset m h = ld64 m (h + of_nat (offset_in Elf64Phdr_layout ''p_offset''))"
  "p_vaddr m h = ld64 m (h + of_nat (offset_in Elf64Phdr_layout ''p_vaddr''))"
  "p_filesz m h = ld64 m (h + of_nat (offset_in Elf64Phdr_layout ''p_filesz''))"
  "p_memsz m h = ld64 m (h + of_nat (offset_in Elf64Phdr_layout ''p_memsz''))"
  by (simp_all add: layouts round_up_def e_entry_def e_phoff_def e_phnum_def p_offset_def p_vaddr_def p_filesz_def p_memsz_def)

lemma device_offsets:
  "nvme_config = of_nat (offset_in NvmeRegisters_layout ''config'')"
  "nvme_status = of_nat (offset_in NvmeRegisters_layout ''status'')"
  "adminQAttr = of_nat (offset_in NvmeRegisters_layout ''adminQAttr'')"
  "adminSubmissionQ = of_nat (offset_in NvmeRegisters_layout ''adminSubmissionQ'')"
  "adminCompletionQ = of_nat (offset_in NvmeRegisters_layout ''adminCompletionQ'')"
  "offset_in HpetTable_layout ''address'' = 44" "offset_in HpetRegs_layout ''general_config'' = 0x10"
  "offset_in HpetRegs_layout ''counter_value'' = 0xF0" "offset_in RSDP_layout ''rsdt_addr'' = 16"
  "offset_in RSDT_layout ''sdts'' = 36" "offset_in SDTHdr_layout ''len'' = 4"
  by (simp_all add: layouts round_up_def nvme_offsets)

end
