(* ===== verification/Kernel.thy ===== *)
theory Kernel
  imports Apic Elf
begin

text \<open>
  The start of the kernel, \<^verbatim>\<open>src/src/kernel/kernel.cpp\<close>: the order in which the components are set up, the
  first thread and the entry of a further processor. The state joins those of the components; the physical memory they share is
  \<open>k_phys\<close>, which each step hands to the component and takes back. What the boot loader, the linker and the
  hardware provide is the record \<open>board\<close>. The messages printed on the way are left out, with the console's own start.
\<close>

section \<open>State\<close>

record 'd board =
  rd :: "'d mmio_read"
  wr :: "'d mmio_write"
  rd64 :: "'d mmio_read64"
  wr64 :: "'d mmio_write64"
  boot :: boot_info
  rsdp :: u64
  after_lapic :: u32
  isr_table :: "nat \<Rightarrow> u64"
  idt_at :: u64
  gdt_at :: u64
  tss_at :: u64
  tick_at :: u64
  syscall_at :: u64
  bsp_thread_at :: u64
  garbage :: i32
  cpu_record :: "u64 \<Rightarrow> u64"
  bsp_lapic_id :: u64
  smp_ids :: "u64 list"
  modules :: "module list"
  uninit :: "module option"

record 'd kernel =
  k_phys :: phys
  k_mmap :: "mmap_entry list"
  k_console :: console
  k_idt :: idt_state
  k_handlers :: handlers
  k_gdt :: gdt_state
  k_vmm :: vmm
  k_acpi :: acpi
  k_msrs :: msrs
  k_loader :: "initrd loader"
  k_hpet :: u64
  k_dev :: 'd
  cpu_lock :: i32
  cpus_arrived :: u64

abbreviation k_sched :: "('d, 'z) kernel_scheme \<Rightarrow> sched" where
  "k_sched K \<equiv> l_sched (k_loader K)"

abbreviation k_hhdm :: "('d, 'z) board_scheme \<Rightarrow> u64" where
  "k_hhdm B \<equiv> hhdm_offset (boot B)"

text \<open>The memory through the direct map.\<close>

definition direct :: "('d, 'z) board_scheme \<Rightarrow> 'd kernel \<Rightarrow> mem" where
  "direct B K = (\<lambda>a. ram (k_phys K) (a - k_hhdm B))"

definition with_sched :: "'d kernel \<Rightarrow> sched \<Rightarrow> 'd kernel" where
  "with_sched K s = K\<lparr>k_loader := (k_loader K)\<lparr>l_sched := s\<rparr>, k_phys := s_phys s\<rparr>"

text \<open>\<^verbatim>\<open>GetCurCPU\<close> of \<^verbatim>\<open>src/src/cpu/cpu.cpp\<close>: the address of the record of this processor.\<close>

definition GetCurCPU :: "msrs \<Rightarrow> u64" where
  "GetCurCPU m = rdmsr 0xC0000102 m"

section \<open>The steps\<close>

definition boot_idt :: "('d, 'z) board_scheme \<Rightarrow> 'd kernel \<Rightarrow> 'd kernel result" where
  "boot_idt B K = bindE (IDT_Initialize (isr_table B) (idt_at B) (k_idt K)) (\<lambda>i. Inr (K\<lparr>k_idt := i\<rparr>))"

definition boot_memory :: "'d kernel \<Rightarrow> 'd kernel result" where
  "boot_memory K = bindE (PhysicalMemory_Initialize (ram (k_phys K)) (k_mmap K)) (\<lambda>(p, mmap).
     Inr (K\<lparr>k_phys := p, k_mmap := mmap\<rparr>))"

definition boot_gdt :: "('d, 'z) board_scheme \<Rightarrow> u64 \<Rightarrow> 'd kernel \<Rightarrow> 'd kernel result" where
  "boot_gdt B i K = bindE (SetupGdt (gdt_at B) (tss_at B) (k_hhdm B) i ((k_gdt K)\<lparr>g_phys := k_phys K\<rparr>)) (\<lambda>g.
     Inr (K\<lparr>k_gdt := g, k_phys := g_phys g\<rparr>))"

definition boot_paging :: "('d, 'z) board_scheme \<Rightarrow> 'd kernel \<Rightarrow> 'd kernel result" where
  "boot_paging B K = bindE (VirtualMemory_Initialize (boot B) (k_mmap K) ((k_vmm K)\<lparr>vm_phys := k_phys K\<rparr>)) (\<lambda>v.
     Inr (K\<lparr>k_vmm := v, k_phys := vm_phys v\<rparr>))"

definition boot_acpi :: "('d, 'z) board_scheme \<Rightarrow> 'd kernel \<Rightarrow> 'd kernel result" where
  "boot_acpi B K = bindE (ParseTables (direct B K) (k_hhdm B) (rsdp B) (k_acpi K)) (\<lambda>a. Inr (K\<lparr>k_acpi := a\<rparr>))"

definition boot_lapic :: "('d, 'z) board_scheme \<Rightarrow> 'd kernel \<Rightarrow> 'd kernel" where
  "boot_lapic B K =
     (let (m, d) = LAPIC_Initialize (wr B) (lapic_base (k_acpi K) (after_lapic B) (k_hhdm B)) (k_msrs K, k_dev K)
      in K\<lparr>k_msrs := m, k_dev := d\<rparr>)"

definition boot_ioapic :: "('d, 'z) board_scheme \<Rightarrow> 'd kernel \<Rightarrow> 'd kernel result" where
  "boot_ioapic B K = bindE (IOAPIC_Initialize (rd B) (wr B) (k_hhdm B) (k_acpi K) (k_dev K)) (\<lambda>d. Inr (K\<lparr>k_dev := d\<rparr>))"

definition boot_cpu_record :: "('d, 'z) board_scheme \<Rightarrow> 'd kernel \<Rightarrow> 'd kernel" where
  "boot_cpu_record B K = K\<lparr>k_msrs := wrmsr 0xC0000102 (cpu_record B (bsp_lapic_id B)) (k_msrs K)\<rparr>"

definition boot_scheduler :: "('d, 'z) board_scheme \<Rightarrow> 'd kernel \<Rightarrow> 'd kernel result" where
  "boot_scheduler B K = bindE (Scheduler_Initialize (smp_ids B) ((k_sched K)\<lparr>s_phys := k_phys K\<rparr>)) (\<lambda>s. Inr (with_sched K s))"

definition boot_thread :: "('d, 'z) board_scheme \<Rightarrow> 'd kernel \<Rightarrow> 'd kernel result" where
  "boot_thread B K =
     bindE (on_heap (\<lambda>h. operator_new h Thread_size) ((k_loader K)\<lparr>l_sched := (k_sched K)\<lparr>s_phys := k_phys K\<rparr>\<rparr>)) (\<lambda>(t, L).
     bindE (AddThread_entry (boot B) (k_mmap K) (bsp_lapic_id B) t (garbage B) (l_sched L) (bsp_thread_at B) False) (\<lambda>(_, s).
     Inr (K\<lparr>k_loader := L\<lparr>l_sched := s\<rparr>, k_phys := s_phys s\<rparr>)))"

definition boot_hpet :: "('d, 'z) board_scheme \<Rightarrow> 'd kernel \<Rightarrow> 'd kernel result" where
  "boot_hpet B K = bindE (SetupHPET (wr64 B) (k_hhdm B) (rsdt (k_acpi K)) (direct B K) (k_dev K)) (\<lambda>(h, m, d).
     Inr (K\<lparr>k_hpet := h, k_dev := d, k_phys := (k_phys K)\<lparr>ram := (\<lambda>a. m (a + k_hhdm B))\<rparr>\<rparr>))"

definition boot_timer :: "('d, 'z) board_scheme \<Rightarrow> bool \<Rightarrow> 'd kernel \<Rightarrow> 'd kernel result" where
  "boot_timer B is_bsp K =
     bindE (returned (LAPIC_InitTimer (rd B) (wr B) (rd64 B) (lapic_base (k_acpi K) (after_lapic B) (k_hhdm B)) (k_hpet K)
              (tick_at B) is_bsp (k_handlers K) (k_dev K))) (\<lambda>(hs, d). Inr (K\<lparr>k_handlers := hs, k_dev := d\<rparr>))"

text \<open>The loop over the processors the boot loader found.\<close>

fun boot_cpus :: "u64 list \<Rightarrow> sched \<Rightarrow> sched result" where
  "boot_cpus [] s = Inr s"
| "boot_cpus (i # ids) s =
     bindE (cpu_at s i) (\<lambda>c. boot_cpus ids (s\<lparr>cpus := (cpus s)(i := c\<lparr>processor_id := i\<rparr>)\<rparr>))"

definition set_interrupts :: "bool \<Rightarrow> 'd kernel \<Rightarrow> 'd kernel" where
  "set_interrupts on K = K\<lparr>k_idt := (k_idt K)\<lparr>interrupts_on := on\<rparr>\<rparr>"

section \<open>The entry points\<close>

text \<open>\<^verbatim>\<open>kernel_entry\<close> up to its last loop, which halts between interrupts.\<close>

definition kernel_entry :: "('d, 'z) board_scheme \<Rightarrow> 'd kernel \<Rightarrow> 'd kernel result" where
  "kernel_entry B K0 =
     bindE (boot_idt B K0) (\<lambda>K1.
     bindE (boot_memory (K1\<lparr>k_console := PIC_RemapAndDisable (k_console K1)\<rparr>)) (\<lambda>K2.
     bindE (boot_gdt B 0 K2) (\<lambda>K3.
     bindE (boot_paging B K3) (\<lambda>K4.
     bindE (boot_acpi B K4) (\<lambda>K5.
     bindE (boot_ioapic B (boot_lapic B K5)) (\<lambda>K6.
     bindE (boot_scheduler B (boot_cpu_record B K6)) (\<lambda>K7.
     bindE (boot_thread B K7) (\<lambda>K8.
     bindE (boot_hpet B K8) (\<lambda>K9.
     bindE (boot_timer B True (set_interrupts False K9)) (\<lambda>K10.
     bindE (boot_cpus (smp_ids B) (k_sched K10)) (\<lambda>s.
     Inr (set_interrupts True (K10\<lparr>k_loader := (k_loader K10)\<lparr>l_sched := s\<rparr>\<rparr>)))))))))))))"

text \<open>\<^verbatim>\<open>BspKernelThread\<close> up to its last loop.\<close>

definition BspKernelThread :: "('d, 'z) board_scheme \<Rightarrow> 'd kernel \<Rightarrow> 'd kernel result" where
  "BspKernelThread B K =
     bindE (VFS_Initialize (modules B) (uninit B) (l_vfs (k_loader K))) (\<lambda>v.
     let K1 = K\<lparr>k_loader := (k_loader K)\<lparr>l_vfs := v, l_sched := (k_sched K)\<lparr>s_phys := k_phys K\<rparr>\<rparr>,
                k_msrs := SysCalls_Init (syscall_at B) (k_msrs K)\<rparr>
     in bindE (LoadAndExecuteElf (boot B) (k_mmap K1) (bsp_lapic_id B) (garbage B) (c_text ''/test.elf'') (k_loader K1)) (\<lambda>(r, L).
        Inr (K1\<lparr>k_loader := L, k_phys := s_phys (l_sched L)\<rparr>)))"

text \<open>\<^verbatim>\<open>start_ap\<close> on another processor, whose registers \<open>K\<close> holds, up to its last loop.\<close>

definition start_ap :: "('d, 'z) board_scheme \<Rightarrow> u64 \<Rightarrow> 'd kernel \<Rightarrow> 'd kernel result" where
  "start_ap B lapic_id K =
     (let (got, l) = compare_exchange (cpu_lock K) 0 1
      in if \<not> got then Inl Diverges
         else bindE (boot_gdt B lapic_id (K\<lparr>cpu_lock := l\<rparr>)) (\<lambda>K1.
              bindE (boot_idt B K1) (\<lambda>K2.
              let K3 = K2\<lparr>k_vmm := SwapToKernelPT (k_vmm K2), k_msrs := SysCalls_Init (syscall_at B) (k_msrs K2)\<rparr>
              in bindE (boot_timer B False (boot_lapic B K3)) (\<lambda>K4.
                 Inr (K4\<lparr>cpus_arrived := cpus_arrived K4 + 1, cpu_lock := 0\<rparr>)))))"

section \<open>The state after the start\<close>

text \<open>What the steps change.\<close>

lemma boot_steps:
  "boot_idt B K = Inr K' \<Longrightarrow> \<exists>i. K' = K\<lparr>k_idt := i\<rparr> \<and> interrupts_on i"
  "boot_memory K = Inr K' \<Longrightarrow> \<exists>p m. K' = K\<lparr>k_phys := p, k_mmap := m\<rparr>"
  "boot_gdt B i K = Inr K' \<Longrightarrow> \<exists>g. K' = K\<lparr>k_gdt := g, k_phys := g_phys g\<rparr>"
  "boot_acpi B K = Inr K' \<Longrightarrow> \<exists>a. K' = K\<lparr>k_acpi := a\<rparr>"
  "boot_ioapic B K = Inr K' \<Longrightarrow> \<exists>d. K' = K\<lparr>k_dev := d\<rparr>"
  "boot_scheduler B K = Inr K' \<Longrightarrow> \<exists>s. K' = with_sched K s"
  "boot_hpet B K = Inr K' \<Longrightarrow> \<exists>h d p. K' = K\<lparr>k_hpet := h, k_dev := d, k_phys := p\<rparr>"
  by (auto simp: boot_idt_def boot_memory_def boot_gdt_def boot_paging_def boot_acpi_def boot_ioapic_def boot_scheduler_def
      boot_hpet_def bindE_eq_Inr IDT_Initialize_def split: prod.splits)

lemma boot_thread_step:
  assumes "boot_thread B K = Inr K'"
  shows "\<exists>L. K' = K\<lparr>k_loader := L, k_phys := s_phys (l_sched L)\<rparr>"
proof -
  obtain L s where "K' = K\<lparr>k_loader := L\<lparr>l_sched := s\<rparr>, k_phys := s_phys s\<rparr>"
    using assms by (auto simp: boot_thread_def bindE_eq_Inr split: prod.splits)
  then show ?thesis by (intro exI [of _ "L\<lparr>l_sched := s\<rparr>"]) simp
qed

lemma boot_paging_step:
  assumes "boot_paging B K = Inr K'"
  shows "\<exists>v. K' = K\<lparr>k_vmm := v, k_phys := vm_phys v\<rparr> \<and> cr3 v = kernelDir v"
proof -
  obtain v where v: "VirtualMemory_Initialize (boot B) (k_mmap K) ((k_vmm K)\<lparr>vm_phys := k_phys K\<rparr>) = Inr v"
    "K' = K\<lparr>k_vmm := v, k_phys := vm_phys v\<rparr>"
    using assms by (auto simp: boot_paging_def bindE_eq_Inr)
  obtain a n where f: "find_framebuffer (k_mmap K) = (a, n)" by (cases "find_framebuffer (k_mmap K)")
  have "cr3 v = kernelDir v"
    using v(1) f by (auto simp: VirtualMemory_Initialize_def SwapToPageTable_def bindE_eq_Inr Let_def split: if_splits)
  then show ?thesis using v(2) by blast
qed

lemma boot_register_steps [simp]:
  "k_console (boot_lapic B K) = k_console K" "k_vmm (boot_lapic B K) = k_vmm K" "k_handlers (boot_lapic B K) = k_handlers K"
  "k_console (boot_cpu_record B K) = k_console K" "k_vmm (boot_cpu_record B K) = k_vmm K"
  "k_handlers (boot_cpu_record B K) = k_handlers K"
  "k_msrs (boot_cpu_record B K) = wrmsr 0xC0000102 (cpu_record B (bsp_lapic_id B)) (k_msrs K)"
  by (simp_all add: boot_lapic_def boot_cpu_record_def Let_def split: prod.split)

lemma boot_timer_handler:
  assumes "boot_timer B True K = Inr K'"
  shows "\<exists>d. K' = K\<lparr>k_handlers := (k_handlers K)(32 := tick_at B), k_dev := d\<rparr>"
  using assms unfolding boot_timer_def LAPIC_InitTimer_def AddHandler_def
  by (auto simp: bindE_eq_Inr returned_def Let_def split: option.splits sum.splits prod.splits)

text \<open>
  When \<^verbatim>\<open>kernel_entry\<close> reaches its last loop, interrupts are on, the timer's handler is the one registered, the kernel's
  page table is in use, the legacy controllers are masked, and the processor's record is where system calls look for it.
\<close>

lemma kernel_entry_ready:
  assumes "kernel_entry B K = Inr K'"
  shows "interrupts_on (k_idt K') \<and> k_handlers K' = (k_handlers K)(32 := tick_at B) \<and> cr3 (k_vmm K') = kernelDir (k_vmm K') \<and>
    k_console K' = PIC_RemapAndDisable (k_console K) \<and>
    GetCurCPU (k_msrs K') = cpu_record B (bsp_lapic_id B)"
proof -
  obtain K1 K2 K3 K4 K5 K6 K7 K8 K9 K10 s where
    1: "boot_idt B K = Inr K1" and 2: "boot_memory (K1\<lparr>k_console := PIC_RemapAndDisable (k_console K1)\<rparr>) = Inr K2"
    and 3: "boot_gdt B 0 K2 = Inr K3" and 4: "boot_paging B K3 = Inr K4" and 5: "boot_acpi B K4 = Inr K5"
    and 6: "boot_ioapic B (boot_lapic B K5) = Inr K6" and 7: "boot_scheduler B (boot_cpu_record B K6) = Inr K7"
    and 8: "boot_thread B K7 = Inr K8" and 9: "boot_hpet B K8 = Inr K9"
    and 10: "boot_timer B True (set_interrupts False K9) = Inr K10"
    and e: "set_interrupts True (K10\<lparr>k_loader := (k_loader K10)\<lparr>l_sched := s\<rparr>\<rparr>) = K'"
    using assms unfolding kernel_entry_def bindE_eq_Inr sum.inject by (elim exE conjE) (rule that)
  note steps = boot_steps(1) [OF 1] boot_steps(2) [OF 2] boot_steps(3) [OF 3] boot_paging_step [OF 4] boot_steps(4) [OF 5]
    boot_steps(5) [OF 6] boot_steps(6) [OF 7] boot_thread_step [OF 8] boot_steps(7) [OF 9] boot_timer_handler [OF 10]
  have con: "k_console K10 = PIC_RemapAndDisable (k_console K)" "k_handlers K10 = (k_handlers K)(32 := tick_at B)"
    "cr3 (k_vmm K10) = kernelDir (k_vmm K10)" "k_msrs K10 = wrmsr 0xC0000102 (cpu_record B (bsp_lapic_id B)) (k_msrs K6)"
    using steps by (auto simp: with_sched_def set_interrupts_def)
  then show ?thesis unfolding e [symmetric] by (simp add: set_interrupts_def GetCurCPU_def msr_roundtrip)
qed

end
