(* ===== verification/First_Thread.thy ===== *)
theory First_Thread
  imports Kernel Heap_Malloc
begin

text \<open>
  From the start of the scheduler in \<^verbatim>\<open>src/src/kernel/kernel.cpp\<close> to the first switch: the page allocator, the heap, the
  page tables, the threads and the scheduler together.
\<close>


section \<open>The scheduler at the start\<close>

text \<open>A processor whose queue is empty, with nothing counted.\<close>

definition idle :: "sched \<Rightarrow> u64 \<Rightarrow> bool" where
  "idle s i \<longleftrightarrow> i < 256 \<and> qhead (queue (cpus s i)) = 0 \<and> qtail (queue (cpus s i)) = 0 \<and> qcurrent (queue (cpus s i)) = 0 \<and>
     num_threads (queue (cpus s i)) = 0"

lemma idle_q_ok: "idle s i \<Longrightarrow> q_ok s i []"
  by (simp add: idle_def q_ok_def)

text \<open>What the initialization of the processors leaves alone.\<close>

definition same_start :: "sched \<Rightarrow> sched \<Rightarrow> bool" where
  "same_start s s' \<longleftrightarrow> sched_mutex s' = sched_mutex s \<and> curCpuCore s' = curCpuCore s \<and> curPid s' = curPid s \<and>
     threads s' = threads s \<and> pm_ok (s_phys s') \<and> page_limit (s_phys s') = page_limit (s_phys s) \<and>
     pm_total (s_phys s') = pm_total (s_phys s) \<and> (\<forall>i. num_threads (queue (cpus s' i)) = num_threads (queue (cpus s i)))"

lemma init_cpus_frame:
  assumes "init_cpus ids s = Inr s'" "pm_ok (s_phys s)"
  shows "same_start s s' \<and> (\<forall>i. i \<in> set ids \<or> idle s i \<longrightarrow> num_threads (queue (cpus s i)) = 0 \<longrightarrow> idle s' i)"
  using assms
proof (induction ids arbitrary: s)
  case Nil
  then show ?case by (simp add: same_start_def)
next
  case (Cons j ids)
  obtain a p where j: "j < 256" and a: "PhysicalMemory_alloc (s_phys s) 4 = Inr (a, p)"
    and r: "init_cpus ids (s\<lparr>s_phys := p, cpus := (cpus s)(j := (cpus s j)\<lparr>queue := (queue (cpus s j))\<lparr>qcurrent := 0, qhead := 0,
      qtail := 0\<rparr>, kstack_phys := a\<rparr>)\<rparr>) = Inr s'"
    using Cons.prems(1) by (auto simp: bindE_eq_Inr cpu_at_def split: if_splits)
  let ?s = "s\<lparr>s_phys := p, cpus := (cpus s)(j := (cpus s j)\<lparr>queue := (queue (cpus s j))\<lparr>qcurrent := 0, qhead := 0,
      qtail := 0\<rparr>, kstack_phys := a\<rparr>)\<rparr>"
  have p: "pm_ok p" "page_limit p = page_limit (s_phys s)" "pm_total p = pm_total (s_phys s)"
    using pm.alloc_ok [OF Cons.prems(2) a] pm_alloc_ok [OF Cons.prems(2) a] pm.alloc_total [OF Cons.prems(2) a] by simp_all
  have IH: "same_start ?s s' \<and> (\<forall>i. i \<in> set ids \<or> idle ?s i \<longrightarrow> num_threads (queue (cpus ?s i)) = 0 \<longrightarrow> idle s' i)"
    by (rule Cons.IH [OF r]) (use p in simp)
  have n: "num_threads (queue (cpus ?s i)) = num_threads (queue (cpus s i))" for i by simp
  have "same_start s s'" using IH p n unfolding same_start_def by simp
  moreover have "idle ?s i" if "i = j \<or> idle s i" "num_threads (queue (cpus s i)) = 0" for i
    using that j by (auto simp: idle_def)
  ultimately show ?case using IH n by auto
qed

lemma boot_cpus_frame:
  assumes "boot_cpus ids s = Inr s'"
  shows "(\<forall>i. queue (cpus s' i) = queue (cpus s i) \<and> (i \<in> set ids \<or> processor_id (cpus s i) = i \<longrightarrow> processor_id (cpus s' i) = i)) \<and>
    s_phys s' = s_phys s \<and> threads s' = threads s \<and> sched_mutex s' = sched_mutex s"
  using assms
proof (induction ids arbitrary: s)
  case (Cons j ids)
  then have "boot_cpus ids (s\<lparr>cpus := (cpus s)(j := (cpus s j)\<lparr>processor_id := j\<rparr>)\<rparr>) = Inr s'"
    by (auto simp: bindE_eq_Inr cpu_at_def split: if_splits)
  from Cons.IH [OF this] show ?case by auto
qed simp

lemma enqueue_mutex: "enqueue s i t = Inr s' \<Longrightarrow> sched_mutex s' = sched_mutex s"
  by (auto simp: enqueue_def bindE_eq_Inr Let_def set_queue_def set_thread_def split: if_splits)

text \<open>The first thread of an idle processor.\<close>

lemma add_first_thread:
  assumes r: "AddThread_entry b mmap cur t g s entry usr = Inr (u, s')" and i: "idle s (curCpuCore s)" "curCpuCore s = cur" and t: "t \<noteq> 0"
    and pm: "pm_ok (s_phys s)" "page_limit (s_phys s) \<le> 2 ^ 40"
  shows "q_ok s' cur [t] \<and> qcurrent (queue (cpus s' cur)) = 0 \<and> sched_mutex s' = 0 \<and>
    (\<exists>th. threads s' t = Some th \<and> ctxt th = initial_context entry usr \<and> canRun th \<and> vm_ok (s_phys s') (rootTable th))"
proof -
  obtain s1 th p c' s3 where s1: "s1 = s\<lparr>sched_mutex := 1\<rparr>" and cur: "cur < 256"
    and c: "Thread_ctor b mmap (s_phys s) (cpus s cur) g entry usr = Inr (th, p, c')"
    and e: "enqueue ((set_thread s1 t (th\<lparr>pid := curPid s\<rparr>))\<lparr>s_phys := p, cpus := (cpus s)(cur := c'), curPid := curPid s + 1\<rparr>)
        (curCpuCore s) t = Inr s3" and s': "s' = spin_unlock s3"
    using r unfolding AddThread_entry_def spin_lock_def compare_exchange_def
    by (auto simp: bindE_eq_Inr cpu_at_def Let_def set_thread_def split: if_splits prod.splits)
  define s2 where "s2 = (set_thread s1 t (th\<lparr>pid := curPid s\<rparr>))\<lparr>s_phys := p, cpus := (cpus s)(cur := c'), curPid := curPid s + 1\<rparr>"
  have th: "ctxt th = initial_context entry usr" "canRun th" "next_thread th = 0" "vm_ok p (rootTable th)"
    using thread_address_space [OF pm c] by auto
  obtain fa fl where f: "find_framebuffer mmap = (fa, fl)" by fastforce
  have c'q: "queue c' = queue (cpus s cur)" using c by (auto simp: Thread_ctor_def bindE_eq_Inr Let_def f split: prod.splits)
  have t2: "threads s2 t = Some (th\<lparr>pid := curPid s\<rparr>)" by (simp add: s2_def set_thread_def)
  have "idle s2 cur" using i c'q by (simp add: s2_def set_thread_def idle_def)
  note q2 = idle_q_ok [OF this]
  have cc: "qcurrent (queue (cpus s2 cur)) = 0" using \<open>idle s2 cur\<close> by (simp add: idle_def)
  have ss: "\<exists>s'. enqueue s2 cur t = Inr s' \<and> q_ok s' cur [t] \<and> same_threads s2 s' \<and>
    qcurrent (queue (cpus s' cur)) = qcurrent (queue (cpus s2 cur)) \<and> s_phys s' = s_phys s2 \<and> curPid s' = curPid s2"
    by (rule enqueue_empty [OF q2 t t2]) (simp add: th)
  then have s3: "q_ok s3 cur [t]" "same_threads s2 s3" "qcurrent (queue (cpus s3 cur)) = 0" "s_phys s3 = p"
    using e i(2) cc unfolding s2_def [symmetric] by (auto simp: s2_def)
  have "map_option (\<lambda>h. h\<lparr>next_thread := 0\<rparr>) (threads s3 t) = Some (th\<lparr>pid := curPid s, next_thread := 0\<rparr>)"
    using s3(2) t2 unfolding same_threads_def by simp
  then obtain h where h: "threads s3 t = Some h" "h\<lparr>next_thread := 0\<rparr> = th\<lparr>pid := curPid s, next_thread := 0\<rparr>" by auto
  have "ctxt h = ctxt (h\<lparr>next_thread := 0\<rparr>)" "canRun h = canRun (h\<lparr>next_thread := 0\<rparr>)" "rootTable h = rootTable (h\<lparr>next_thread := 0\<rparr>)"
    by simp_all
  then have "ctxt h = ctxt th" "canRun h" "rootTable h = rootTable th" unfolding h(2) using th(2) by simp_all
  then show ?thesis using s3 h(1) th unfolding s' by (simp add: spin_unlock_def q_ok_def)
qed

text \<open>The first switch on a processor with one thread that has not run.\<close>

lemma first_switch:
  assumes q: "q_ok s i [t]" "qcurrent (queue (cpus s i)) = 0" and id: "processor_id (cpus s i) = i" and m: "sched_mutex s = 0"
    and th: "threads s t = Some th" "canRun th"
  shows "\<exists>s'. Schedule i s pml4 regs = Some (Inr (Some (ctxt th, rootTable th), rootTable th, s')) \<and>
    q_ok s' i [t] \<and> qcurrent (queue (cpus s' i)) = t \<and> sched_mutex s' = 0 \<and> s_phys s' = s_phys s"
proof -
  have t0: "t \<noteq> 0" using q_okD(3) [OF q(1)] by simp
  let ?i = "interrupted s i regs"
  have e: "?i = s\<lparr>sched_mutex := 1\<rparr>" using q(2) by (simp add: interrupted_def)
  have qi: "q_ok ?i i [t]" by (rule interrupted_ok [OF q(1)])
  have "at_index ?i i [t] 0" using q(2) by (simp add: at_index_def e)
  moreover have "\<exists>u \<in> set [t]. runnable ?i u" using th by (simp add: runnable_def e)
  ultimately obtain k where k: "0 < k" "k \<le> length [t]" "GetNextThread ?i i = Some (Inr ([t] ! ((0 + k) mod length [t]), moved ?i i ([t] ! ((0 + k) mod length [t]))))"
    using GetNextThread_total [OF qi, of 0] by metis
  then have g: "GetNextThread ?i i = Some (Inr (t, moved ?i i t))" by simp
  define s' where "s' = spin_unlock (moved ?i i t)"
  have s': "threads s' = threads s" "q_ok s' i [t]" "qcurrent (queue (cpus s' i)) = t" "sched_mutex s' = 0" "s_phys s' = s_phys s"
    using moved_ok [OF qi, of t] by (simp_all add: s'_def spin_unlock_def e q_ok_def moved_def set_queue_def)
  have "deref s' t = Inr th" using t0 th(1) by (simp add: deref_def s'(1))
  then have "Schedule i s pml4 regs = Some (Inr (Some (ctxt th, rootTable th), rootTable th, s'))"
    unfolding Schedule_eq [OF q(1) id m] g using t0 by (simp add: s'_def [symmetric] Let_def)
  then show ?thesis using s' by blast
qed

lemma on_heap_new:
  assumes "on_heap (\<lambda>h. operator_new h n) L = Inr (t, L')" "boot_heap ((l_heap L)\<lparr>h_phys := s_phys (l_sched L)\<rparr>)" "request n"
  shows "t \<noteq> 0 \<and> pm_ok (s_phys (l_sched L')) \<and> page_limit (s_phys (l_sched L')) = page_limit (s_phys (l_sched L)) \<and>
    l_sched L' = (l_sched L)\<lparr>s_phys := s_phys (l_sched L')\<rparr>"
proof -
  obtain h where h: "malloc ((l_heap L)\<lparr>h_phys := s_phys (l_sched L)\<rparr>) n = Inr (t, h)"
    and L': "L' = L\<lparr>l_heap := h, l_sched := (l_sched L)\<lparr>s_phys := h_phys h\<rparr>\<rparr>"
    using assms(1) by (auto simp: on_heap_def operator_new_def bindE_eq_Inr)
  have pm: "pm_ok (s_phys (l_sched L))" using assms(2) by (simp add: boot_heap_def)
  have "t \<noteq> 0" using session_malloc [OF boot_session_ok [OF assms(2)] assms(3)] h by auto
  moreover have "h_phys h = s_phys (l_sched L) \<or> (\<exists>k a. PhysicalMemory_alloc (s_phys (l_sched L)) k = Inr (a, h_phys h))"
    using malloc_phys [OF h] by simp
  then have "pm_ok (h_phys h)" "page_limit (h_phys h) = page_limit (s_phys (l_sched L))"
    using pm pm_alloc_ok [OF pm] by auto
  ultimately show ?thesis unfolding L' by simp
qed


section \<open>A start for the witness\<close>

text \<open>32 GiB of memory, one processor, everything as the loader of the kernel leaves it.\<close>

definition boot_sched :: sched where
  "boot_sched = \<lparr>s_phys = big_pm, threads = Map.empty,
     cpus = (\<lambda>_. \<lparr>queue = \<lparr>qhead = 0, qtail = 0, qcurrent = 0, num_threads = 0\<rparr>, processor_id = 0, kstack = 0, kstack_phys = 0\<rparr>),
     sched_mutex = 0, curPid = 0, curCpuCore = 0\<rparr>"

definition demo_board :: "unit board" where
  "demo_board = \<lparr>rd = (\<lambda>_ d. (0, d)), wr = (\<lambda>_ _ d. d), rd64 = (\<lambda>_ d. (0, d)), wr64 = (\<lambda>_ _ d. d), boot = demo_boot, rsdp = 0xe0000,
     after_lapic = 0, isr_table = (\<lambda>k. 0xffffffff80001000 + 16 * of_nat k), idt_at = 0xffffffff80030000,
     gdt_at = 0xffffffff80010000, tss_at = 0xffffffff80020000, tick_at = 0xffffffff80040000, syscall_at = 0xffffffff80005000,
     bsp_thread_at = 0xffffffff80041000, garbage = 0, cpu_record = (\<lambda>i. 0xffffffff80050000 + 48 * i), bsp_lapic_id = 0,
     smp_ids = [0], modules = [], uninit = None\<rparr>"

definition demo_start :: "unit kernel" where
  "demo_start = \<lparr>k_phys = big_pm, k_mmap = demo_fb, k_console = demo_console, k_idt = demo_idt, k_handlers = (\<lambda>_. 0), k_gdt = demo_gdt,
     k_vmm = demo_vmm, k_acpi = demo_overrides, k_msrs = (\<lambda>_. 0), k_loader = \<lparr>l_vfs = \<lparr>filesystems = new_vector, openFilesystems = new_map,
       fs_state = \<lparr>img_addr = 0, image = [], files = new_vector, open_files = new_map, cur_fd = 0\<rparr>\<rparr>, l_sched = boot_sched, l_heap = demo_heap\<rparr>,
     k_hpet = 0, k_dev = (), cpu_lock = 0, cpus_arrived = 1\<rparr>"

lemma big_allocs:
  obtains s1 s2 where "PhysicalMemory_alloc big_pm 4 = Inr (0x8000, s1)" "PhysicalMemory_alloc s1 16 = Inr (0xC000, s2)" "lastI s2 = 28"
  by (simp add: PhysicalMemory_alloc_def inner_alloc_def big_pm_def inner_alloc_loop.simps
      Bitmap_SetRange.simps Bitmap_Get_def Bitmap_Set_def Let_def nth_Cons del: replicate.simps)

lemma start_memory:
  assumes "PhysicalMemory_alloc big_pm 4 = Inr (0x8000, s1)" "PhysicalMemory_alloc s1 16 = Inr (0xC000, s2)" "lastI s2 = 28"
  shows "pm_ok s1" "pm_total s1 = pm_total big_pm" "pm_ok s2" "page_limit s2 \<le> 2 ^ 40" "alloc_possible s2 65536" "2 ^ 22 \<le> card (avail s2)"
proof -
  show 1: "pm_ok s1" "pm_total s1 = pm_total big_pm" using pm.alloc_ok [OF big_ok assms(1)] pm.alloc_total [OF big_ok assms(1)] by simp_all
  show 2: "pm_ok s2" by (rule pm.alloc_ok [OF 1(1) assms(2)])
  have l: "page_limit s2 = page_limit big_pm" using pm_alloc_ok [OF big_ok assms(1)] pm_alloc_ok [OF 1(1) assms(2)] by simp
  then show "page_limit s2 \<le> 2 ^ 40" by (simp add: big_limit)
  have f: "pm_free s2 = {28..<8 * Suc (2 ^ 20)}"
    using pm.alloc_block(4) [OF big_ok assms(1)] pm.alloc_block(4) [OF 1(1) assms(2)] unfolding big_free
    by (auto simp: page_of_def)
  have "free_run (bitmap s2) (unat (lastI s2)) (page_limit s2) 65536"
    unfolding free_run_def l big_limit pm_free_def [symmetric] f assms(3) by (intro exI [of _ 28]) auto
  then show "alloc_possible s2 65536" by (simp add: alloc_possible_def)
  have "avail s2 = {28..<8 * Suc (2 ^ 20)}" unfolding avail_def f l big_limit by auto
  then show "2 ^ 22 \<le> card (avail s2)" by simp
qed

lemma start_heap:
  assumes a: "PhysicalMemory_alloc big_pm 4 = Inr (0x8000, s1)" "PhysicalMemory_alloc s1 16 = Inr (0xC000, s2)" "lastI s2 = 28"
  obtains t h where "malloc (demo_heap\<lparr>h_phys := s1\<rparr>) Thread_size = Inr (t, h)" "h_phys h = s2" "t \<noteq> 0"
proof -
  let ?h = "demo_heap\<lparr>h_phys := s1\<rparr>"
  note m = start_memory [OF a]
  have b: "boot_heap ?h" using m(1,2) by (simp add: boot_heap_def demo_heap_def pm_total_def big_pm_def)
  have n: "request Thread_size" by (simp add: request_def Thread_size_def)
  have np: "needed_pages (ucast (ucast (ucast Thread_size :: u32) + tag_size :: u64)) = 16"
    by (simp add: needed_pages_def tag_size_def l_pageSize_def l_pageCount_def Thread_size_def)
  have f: "fresh_heap (heap_init ?h)" by (simp add: fresh_heap_def heap_init_def demo_heap_def MAXEXP_def)
  let ?h1 = "(heap_init ?h)\<lparr>h_phys := s2\<rparr>"
  have al: "liballoc_alloc (heap_init ?h) (needed_pages (ucast (ucast (ucast Thread_size :: u32) + tag_size :: u64)))
      = Inr (0xffff80000000C000, ?h1)"
    unfolding np using a(2) by (simp add: liballoc_alloc_def heap_init_def demo_heap_def)
  note e = malloc_fresh_eq [OF f al]
  have "alloc_possible s1 16" using alloc_cases [OF m(1), of 16] a(2) by (auto split: if_splits)
  then have "\<not> out_of_pages ?h Thread_size" unfolding out_of_pages_def np by simp
  then obtain t h where t: "malloc ?h Thread_size = Inr (t, h)" "t \<noteq> 0"
    using session_malloc [OF boot_session_ok [OF b] n] by blast
  then have "h_phys h = s2" using e finish_malloc_phys [of _ Thread_size "0xffff80000000C000" t h] by (simp add: set_tag_def)
  then show thesis using that t by blast
qed

lemma demo_starts:
  obtains K1 s where "bindE (boot_scheduler demo_board demo_start) (boot_thread demo_board) = Inr K1"
    "boot_cpus [0] (k_sched K1) = Inr s"
proof -
  obtain s1 s2 where a: "PhysicalMemory_alloc big_pm 4 = Inr (0x8000, s1)" "PhysicalMemory_alloc s1 16 = Inr (0xC000, s2)" "lastI s2 = 28"
    by (rule big_allocs)
  note m = start_memory [OF a]
  obtain t h where t: "malloc (demo_heap\<lparr>h_phys := s1\<rparr>) Thread_size = Inr (t, h)" "h_phys h = s2" "t \<noteq> 0"
    by (rule start_heap [OF a])
  define S where "S = boot_sched\<lparr>s_phys := s1, cpus := (cpus boot_sched)(0 := (cpus boot_sched 0)\<lparr>kstack_phys := 0x8000\<rparr>)\<rparr>"
  have i: "Scheduler_Initialize [0] (boot_sched\<lparr>s_phys := big_pm\<rparr>) = Inr S"
    using a(1) by (simp add: Scheduler_Initialize_def spin_unlock_def cpu_at_def boot_sched_def S_def)
  let ?K = "with_sched demo_start S"
  have 1: "boot_scheduler demo_board demo_start = Inr ?K"
    using i by (simp add: boot_scheduler_def demo_board_def demo_start_def)
  let ?L = "\<lparr>l_vfs = l_vfs (k_loader demo_start), l_sched = S\<lparr>s_phys := s2\<rparr>, l_heap = h\<rparr>"
  have 2: "on_heap (\<lambda>h. operator_new h Thread_size) ((k_loader ?K)\<lparr>l_sched := (k_sched ?K)\<lparr>s_phys := k_phys ?K\<rparr>\<rparr>) = Inr (t, ?L)"
    using t(1,2) by (simp add: on_heap_def operator_new_def with_sched_def demo_start_def S_def)
  obtain th p c' where c: "Thread_ctor demo_boot demo_fb s2 (cpus S 0) 0 0xffffffff80041000 False = Inr (th, p, c')"
    using thread_ctor_returns [OF m(3-6)] by blast
  define S1 where "S1 = (set_thread (S\<lparr>s_phys := s2, sched_mutex := 1\<rparr>) t (th\<lparr>pid := curPid S\<rparr>))
      \<lparr>s_phys := p, cpus := (cpus S)(0 := c'), curPid := curPid S + 1\<rparr>"
  obtain S2 where e: "enqueue S1 0 t = Inr S2"
  proof -
    have k: "next_thread th = 0" "queue c' = queue (cpus S 0)"
      using c by (auto simp: Thread_ctor_def bindE_eq_Inr Let_def demo_fb_def LIMINE_MEMMAP_FRAMEBUFFER_def split: prod.splits)
    have "idle S1 0" unfolding idle_def using k(2) by (simp add: S1_def set_thread_def S_def boot_sched_def)
    then show thesis
      using enqueue_empty [OF idle_q_ok t(3), of S1 0 "th\<lparr>pid := curPid S\<rparr>"] k(1) that by (auto simp: S1_def set_thread_def)
  qed
  have "AddThread_entry demo_boot demo_fb 0 t 0 (S\<lparr>s_phys := s2\<rparr>) 0xffffffff80041000 False = Inr (t, spin_unlock S2)"
    using c e unfolding AddThread_entry_def spin_lock_def compare_exchange_def
    by (simp add: cpu_at_def S_def boot_sched_def Let_def S1_def set_thread_def)
  then have 3: "\<exists>K1. boot_thread demo_board ?K = Inr K1"
    using 2 unfolding boot_thread_def by (simp add: demo_board_def with_sched_def demo_start_def)
  then obtain K1 where K1: "boot_thread demo_board ?K = Inr K1" by blast
  have "\<exists>s. boot_cpus [0] (k_sched K1) = Inr s" by (simp add: cpu_at_def)
  then show thesis using that 1 K1 by auto
qed


end
