(* ===== verification/Spec2Isabelle.thy ===== *)
theory Spec2Isabelle
  imports Vmm CString Containers Vfs Sched Heap_Contents Elf Console User Apic Features Pata Igpu Nvme Layout First_Thread
begin

text \<open>
  A verification development of the LimineOS kernel, a small 64-bit kernel in C++ with a few assembly
  stubs, a ramdisk tool and a test program. Paths below are relative to the repository.

  \<^bold>\<open>The program.\<close> The boot loader hands \<^verbatim>\<open>src/src/kernel/kernel.cpp\<close> a memory map, the kernel's own position, a
  framebuffer, the list of processors and a ramdisk. \<^verbatim>\<open>kernel_entry\<close> sets up the interrupt table, masks the legacy interrupt
  controllers, builds the bitmap of physical pages, the segment table, the kernel's page tables, reads the firmware tables,
  programs the interrupt controllers, creates the first thread and starts the timer, which calls the scheduler from then on. The
  first thread mounts the ramdisk, enables system calls and loads \<^verbatim>\<open>/test.elf\<close> as a user thread. The page allocator
  is below everything: page tables, stacks, the kernel heap and loaded programs take their pages from it.

  \<^bold>\<open>Theories, bottom up.\<close>
  \<^item> \<^verbatim>\<open>Prelude\<close>: integer types, results (an error or a value) and their sequencing, shared facts on lists and words.
  \<^item> \<^verbatim>\<open>Memory\<close>: byte-addressed memory, \<^verbatim>\<open>memset\<close>, \<^verbatim>\<open>memcpy\<close>, \<^verbatim>\<open>memmove\<close> and loads and stores of
    \<^verbatim>\<open>src/src/include/util.h\<close>; \<^verbatim>\<open>Ports\<close>: port accesses as a record of device functions, and polling loops.
  \<^item> \<^verbatim>\<open>Pmm\<close>: \<^verbatim>\<open>src/src/mm/pmm.cpp\<close>. The record \<open>phys\<close> is its bitmap, cursor, counters and the memory; the interface
    \<open>page_allocator\<close> (and \<open>page_allocator_free\<close>) is what all clients use, interpreted on \<open>PhysicalMemory_alloc\<close> and
    \<open>PhysicalMemory_free\<close>.
  \<^item> \<^verbatim>\<open>Vmm\<close>: \<^verbatim>\<open>src/src/mm/vmm.cpp\<close>; the four levels of tables are in \<open>ram\<close> and \<open>translate\<close> is the processor's walk;
    \<^verbatim>\<open>Address_Space\<close>: what mapping leaves alone.
  \<^item> \<^verbatim>\<open>CString\<close>, \<^verbatim>\<open>Containers\<close>: the string routines, and the hash table and vector of \<^verbatim>\<open>src/lib\<close>, with the
    interface \<open>fd_map\<close>.
  \<^item> \<^verbatim>\<open>Initrd\<close>, \<^verbatim>\<open>Vfs\<close>: the ramdisk file system and the tool \<^verbatim>\<open>src/tools/make_initrd.cpp\<close> that writes it; the virtual
    file system over the interface \<open>file_system\<close>.
  \<^item> \<^verbatim>\<open>Atomic\<close>, \<^verbatim>\<open>Sched\<close>: the atomic wrapper and the spinlock, threads, the run queue of each processor and the switch.
  \<^item> \<^verbatim>\<open>Liballoc\<close>: \<^verbatim>\<open>src/src/mm/liballoc.cpp\<close>, each routine with its helpers; \<^verbatim>\<open>Heap_Invariant\<close>, \<^verbatim>\<open>Heap_Free\<close>,
    \<^verbatim>\<open>Heap_Malloc\<close>: the heap's invariant, that every operation keeps it, and the interface \<open>block_heap\<close>;
    \<^verbatim>\<open>Heap_Phys\<close>, \<^verbatim>\<open>Heap_Contents\<close>: which memory the heap's operations write, and what the blocks hold.
  \<^item> \<^verbatim>\<open>Elf\<close>: the program loader \<^verbatim>\<open>src/src/fs/util.cpp\<close>, over the file system, the heap, the page tables and the scheduler.
  \<^item> \<^verbatim>\<open>Font\<close>, \<^verbatim>\<open>Console\<close>: \<^verbatim>\<open>src/src/drivers/Screen.cpp\<close>; \<^verbatim>\<open>Gdt\<close>, \<^verbatim>\<open>Idt\<close>, \<^verbatim>\<open>Syscall\<close>: segments, interrupts and
    system calls; \<^verbatim>\<open>Entry\<close>: the assembly stubs, instruction by instruction; \<^verbatim>\<open>User\<close>: the user library, its start code and
    the test program.
  \<^item> \<^verbatim>\<open>Acpi\<close>, \<^verbatim>\<open>Apic\<close>, \<^verbatim>\<open>Features\<close>: firmware tables, interrupt controllers and timers, processor features; \<^verbatim>\<open>Pata\<close>,
    \<^verbatim>\<open>Pci\<close>, \<^verbatim>\<open>Igpu\<close>, \<^verbatim>\<open>Nvme\<close>: the drivers.
  \<^item> \<^verbatim>\<open>Kernel\<close>: the order of the calls at start, over all the components; \<^verbatim>\<open>First_Thread\<close>: from the start of the scheduler to
    the first switch.
  \<^item> \<^verbatim>\<open>Layout\<close>: the structures as bytes, the offsets the other theories and the assembly use, and the requests to the boot loader.

  \<^bold>\<open>How the code is modelled.\<close> One record per group of globals, one definition per function under the function's name, a
  C++ structure as a record and an enumeration as a datatype; machine integers are words of their width, so additions wrap and casts
  cut as in the code. A call that can fail returns \<open>Inl\<close> of an error: \<open>Halted\<close> is the kernel stopping itself, \<open>NullPointer\<close>
  and \<open>OutOfBounds\<close> are accesses the language leaves undefined, \<open>DivideError\<close> the processor's exception, \<open>Diverges\<close> a loop or
  a lock that never ends. Loops that may not end are partial functions to an option. The one use of fuel is \<^verbatim>\<open>strremove\<close>,
  whose bound is the length of the string, which each round shortens.
  Devices are a state of any type with the functions that read and write their registers; what a property needs of a
  device is a named predicate (\<open>config_device\<close>, \<open>register_file\<close>, \<open>nvme_controller\<close>, the hypotheses of the timer and of the
  interrupt controller) that states documented behaviour, and each has an instance in a witness.

  \<^bold>\<open>Abstractions.\<close> The offset of the direct map is added where the code adds it in the heap, the segment and the driver theories, and is folded away
  in \<^verbatim>\<open>Vmm\<close> and \<^verbatim>\<open>Sched\<close>, where pointers are physical addresses. The boundary tags of the heap are a typed store beside the
  bytes of the blocks. The components that share the physical memory have it as a field, and the compositions (\<^verbatim>\<open>Elf\<close>,
  \<^verbatim>\<open>Kernel\<close>) pass it from one to the next. The addresses of linked objects, of \<^verbatim>\<open>new\<close> objects outside the loader and the start, and uninitialised
  values (\<open>garbage\<close>) are arguments. Messages printed for diagnosis are left out, except where printing is the subject
  (\<^verbatim>\<open>Console\<close>, \<^verbatim>\<open>Idt\<close>, \<^verbatim>\<open>Syscall\<close>). Concurrency is modelled where the code synchronises: the lock and the
  atomic operations as interleavings of steps, everything else as run by one processor.

  \<^bold>\<open>What is shown.\<close>
  \<^item> Memory: allocation hands out free pages only and fails exactly when no run is left; page tables translate what was mapped and
    nothing else changes; the heap keeps its blocks apart and inside its own pages over any sequence of calls, and no
    call runs for ever, follows a stray pointer or changes a block it is not about; \<^verbatim>\<open>realloc\<close> moves the contents.
  \<^item> Files: the ramdisk the tool writes is read back; descriptors stay tied to files; the loader copies a segment to where its
    program expects it, and fails without a trace or succeeds with a runnable thread.
  \<^item> Execution: round robin with fairness, the exact condition for the scheduler to hang, context switches, mutual exclusion,
    interrupt and system call entry and exit down to the registers, the way from the start of the scheduler into the first
    thread, the run of the test program.
  \<^item> Tables and devices: descriptors as the processor reads them, the interrupt redirections, timers, disk, PCI, graphics and
    NVMe set-up.
  \<^item> Where the code does not do what it means to, a theorem or a lemma states what it does instead.

  \<^bold>\<open>Not modelled.\<close> The declarations of \<^verbatim>\<open>src/src/include/limine.h\<close>, the boot loader's header, for requests the kernel does not make, and
  its structures for other processors. Build files, linker scripts and the byte images in the repository. The abstract class of \<^verbatim>\<open>driver.h\<close> and the NVMe command
  structure, which no code uses. In \<^verbatim>\<open>kernel_entry\<close> the start of the console, whose own messages fail in the strict reading of
  \<^verbatim>\<open>printf\<close> (\<open>printf_d_unterminated\<close>).
\<close>

end
